theory Spec2Isabelle
  imports Main "HOL-Library.Tree" "HOL-Library.Word" "HOL-Library.Monad_Syntax"
    "HOL-Library.List_Lexorder" "HOL-Library.Char_ord"
begin

section \<open>Memory model\<close>

text \<open>
  The container of \<^verbatim>\<open>bimap.h\<close> keeps every pair in one heap record
  (\<^verbatim>\<open>storage_node\<close>) that is linked into two binary search trees at once, through its
  two base subobjects \<^verbatim>\<open>node<tag_for_left>\<close> and \<^verbatim>\<open>node<tag_for_right>\<close>.  The trees
  of \<^verbatim>\<open>intrusive_set.h\<close> are built from raw \<^verbatim>\<open>parent\<close>/\<^verbatim>\<open>left\<close>/\<^verbatim>\<open>right\<close> pointers.

  Objects are identified by their address.  A pointer is an optional address, \<open>None\<close> being
  \<^verbatim>\<open>nullptr\<close>.  The memory is modelled field-wise: one partial map for the
  \<^verbatim>\<open>node<tag_for_left>\<close> subobjects, one for the \<^verbatim>\<open>node<tag_for_right>\<close> subobjects,
  one for each key field.  A sentinel (\<^verbatim>\<open>bimap_based_node\<close>) has both node subobjects
  and no key.

  Every operation returns an \<open>option\<close>: \<open>None\<close> stands for an execution without a
  defined result, that is, a dereference of a null or dangling pointer, or a loop that
  does not terminate.
\<close>

type_synonym addr = nat
type_synonym ptr = "addr option"

record node =
  parent :: ptr
  left :: ptr
  right :: ptr

definition default_node :: node where
  "default_node = \<lparr>parent = None, left = None, right = None\<rparr>"

type_synonym node_heap = "addr \<rightharpoonup> node"

definition deref :: "node_heap \<Rightarrow> ptr \<Rightarrow> node option" where
  "deref nh p = (case p of None \<Rightarrow> None | Some a \<Rightarrow> nh a)"

definition set_parent :: "node_heap \<Rightarrow> ptr \<Rightarrow> ptr \<Rightarrow> node_heap option" where
  "set_parent nh p v =
     (case p of None \<Rightarrow> None
      | Some a \<Rightarrow> (case nh a of None \<Rightarrow> None | Some n \<Rightarrow> Some (nh(a \<mapsto> n\<lparr>parent := v\<rparr>))))"

definition set_left :: "node_heap \<Rightarrow> ptr \<Rightarrow> ptr \<Rightarrow> node_heap option" where
  "set_left nh p v =
     (case p of None \<Rightarrow> None
      | Some a \<Rightarrow> (case nh a of None \<Rightarrow> None | Some n \<Rightarrow> Some (nh(a \<mapsto> n\<lparr>left := v\<rparr>))))"

definition set_right :: "node_heap \<Rightarrow> ptr \<Rightarrow> ptr \<Rightarrow> node_heap option" where
  "set_right nh p v =
     (case p of None \<Rightarrow> None
      | Some a \<Rightarrow> (case nh a of None \<Rightarrow> None | Some n \<Rightarrow> Some (nh(a \<mapsto> n\<lparr>right := v\<rparr>))))"

text \<open>\<^verbatim>\<open>node::set_child(old_node, new_node)\<close>\<close>

definition set_child :: "node_heap \<Rightarrow> ptr \<Rightarrow> ptr \<Rightarrow> node_heap option" where
  "set_child nh old_node new_node = do {
     old \<leftarrow> deref nh old_node;
     let par = parent old;
     p \<leftarrow> deref nh par;
     nh1 \<leftarrow> (if left p = old_node then set_left nh par new_node
             else set_right nh par new_node);
     if new_node \<noteq> None then set_parent nh1 new_node par else Some nh1
   }"

section \<open>The ordered intrusive tree (\<^verbatim>\<open>intrusive_set\<close>)\<close>

text \<open>
  An \<^verbatim>\<open>intrusive_set\<close> object is its \<^verbatim>\<open>Compare\<close> base and its sentinel pointer.  The
  key getter of the template is the partial map \<open>gk\<close> from record addresses to keys:
  it is undefined at a sentinel, which has no key field.
\<close>

record 'k intrusive_set =
  compare :: "'k \<Rightarrow> 'k \<Rightarrow> bool"
  sentinel :: ptr

definition get_key :: "(addr \<rightharpoonup> 'k) \<Rightarrow> ptr \<Rightarrow> 'k option" where
  "get_key gk p = (case p of None \<Rightarrow> None | Some a \<Rightarrow> gk a)"

definition less_set :: "'k intrusive_set \<Rightarrow> 'k \<Rightarrow> 'k \<Rightarrow> bool" where
  "less_set s l r = compare s l r"

definition greater_set :: "'k intrusive_set \<Rightarrow> 'k \<Rightarrow> 'k \<Rightarrow> bool" where
  "greater_set s l r = compare s r l"

definition equals_set :: "'k intrusive_set \<Rightarrow> 'k \<Rightarrow> 'k \<Rightarrow> bool" where
  "equals_set s l r = (\<not> (greater_set s l r \<or> less_set s l r))"

text \<open>\<^verbatim>\<open>intrusive_set(node_t& sentinel_, Compare&& compare)\<close>\<close>

definition intrusive_set_ctor :: "addr \<Rightarrow> ('k \<Rightarrow> 'k \<Rightarrow> bool) \<Rightarrow> 'k intrusive_set" where
  "intrusive_set_ctor sentinel0 cmp = \<lparr>compare = cmp, sentinel = Some sentinel0\<rparr>"

text \<open>\<^verbatim>\<open>intrusive_set::swap\<close>: exchanges the comparison objects and the roots.\<close>

definition swap_set ::
  "node_heap \<Rightarrow> 'k intrusive_set \<Rightarrow> 'k intrusive_set
     \<Rightarrow> (node_heap \<times> 'k intrusive_set \<times> 'k intrusive_set) option" where
  "swap_set nh this other = do {
     let this1 = this\<lparr>compare := compare other\<rparr>;
     let other1 = other\<lparr>compare := compare this\<rparr>;
     ts \<leftarrow> deref nh (sentinel this1);
     os \<leftarrow> deref nh (sentinel other1);
     nh1 \<leftarrow> set_left nh (sentinel this1) (left os);
     nh2 \<leftarrow> set_left nh1 (sentinel other1) (left ts);
     ts2 \<leftarrow> deref nh2 (sentinel this1);
     nh3 \<leftarrow> (if left ts2 \<noteq> None then set_parent nh2 (left ts2) (sentinel this1)
             else Some nh2);
     os3 \<leftarrow> deref nh3 (sentinel other1);
     nh4 \<leftarrow> (if left os3 \<noteq> None then set_parent nh3 (left os3) (sentinel other1)
             else Some nh3);
     Some (nh4, this1, other1)
   }"

text \<open>
  \<^verbatim>\<open>intrusive_set(intrusive_set&& other)\<close>: the member initialiser \<^verbatim>\<open>sentinel()\<close>
  makes the new set's sentinel pointer null, and the body dereferences it at once.
\<close>

definition intrusive_set_move_ctor ::
  "node_heap \<Rightarrow> 'k intrusive_set \<Rightarrow> (node_heap \<times> 'k intrusive_set) option" where
  "intrusive_set_move_ctor nh other = do {
     let this = \<lparr>compare = compare other, sentinel = None\<rparr>;
     os \<leftarrow> deref nh (sentinel other);
     nh1 \<leftarrow> set_left nh (sentinel this) (left os);
     ts \<leftarrow> deref nh1 (sentinel this);
     nh2 \<leftarrow> (if left ts \<noteq> None then set_parent nh1 (left ts) (sentinel this)
             else Some nh1);
     nh3 \<leftarrow> set_left nh2 (sentinel other) None;
     Some (nh3, this)
   }"

subsection \<open>Cursors\<close>

text \<open>An \<^verbatim>\<open>intrusive_set::iterator\<close> is a pointer to a node.\<close>

type_synonym iterator = ptr

partial_function (option) descend_left :: "node_heap \<Rightarrow> ptr \<Rightarrow> ptr option" where
  [code]: "descend_left nh nd = do {
     n \<leftarrow> deref nh nd;
     if left n \<noteq> None then descend_left nh (left n) else Some nd
   }"

partial_function (option) descend_right :: "node_heap \<Rightarrow> ptr \<Rightarrow> ptr option" where
  [code]: "descend_right nh nd = do {
     n \<leftarrow> deref nh nd;
     if right n \<noteq> None then descend_right nh (right n) else Some nd
   }"

partial_function (option) ascend_from_right :: "node_heap \<Rightarrow> ptr \<Rightarrow> ptr option" where
  [code]: "ascend_from_right nh nd = do {
     n \<leftarrow> deref nh nd;
     if parent n \<noteq> None then do {
       p \<leftarrow> deref nh (parent n);
       if right p = nd then ascend_from_right nh (parent n) else Some nd
     } else Some nd
   }"

partial_function (option) ascend_from_left :: "node_heap \<Rightarrow> ptr \<Rightarrow> ptr option" where
  [code]: "ascend_from_left nh nd = do {
     n \<leftarrow> deref nh nd;
     if parent n \<noteq> None then do {
       p \<leftarrow> deref nh (parent n);
       if left p = nd then ascend_from_left nh (parent n) else Some nd
     } else Some nd
   }"

text \<open>\<^verbatim>\<open>iterator::operator++\<close>\<close>

definition increment :: "node_heap \<Rightarrow> iterator \<Rightarrow> iterator option" where
  "increment nh it = do {
     n \<leftarrow> deref nh it;
     if right n \<noteq> None then descend_left nh (right n)
     else do {
       nd \<leftarrow> ascend_from_right nh it;
       n1 \<leftarrow> deref nh nd;
       Some (parent n1)
     }
   }"

text \<open>\<^verbatim>\<open>iterator::operator--\<close>\<close>

definition decrement :: "node_heap \<Rightarrow> iterator \<Rightarrow> iterator option" where
  "decrement nh it = do {
     n \<leftarrow> deref nh it;
     if left n \<noteq> None then descend_right nh (left n)
     else do {
       nd \<leftarrow> ascend_from_left nh it;
       n1 \<leftarrow> deref nh nd;
       Some (parent n1)
     }
   }"

subsection \<open>Search\<close>

definition end_set :: "'k intrusive_set \<Rightarrow> iterator" where
  "end_set s = sentinel s"

definition begin_set :: "'k intrusive_set \<Rightarrow> node_heap \<Rightarrow> iterator option" where
  "begin_set s nh = descend_left nh (sentinel s)"

partial_function (option) bound_impl ::
  "'k intrusive_set \<Rightarrow> (addr \<rightharpoonup> 'k) \<Rightarrow> node_heap \<Rightarrow> 'k \<Rightarrow> ptr \<Rightarrow> ptr option" where
  [code]: "bound_impl s gk nh key nd =
     (if nd = None then Some (sentinel s)
      else do {
        k \<leftarrow> get_key gk nd;
        n \<leftarrow> deref nh nd;
        if less_set s k key then bound_impl s gk nh key (right n)
        else if greater_set s k key then do {
          tmp \<leftarrow> bound_impl s gk nh key (left n);
          if tmp \<noteq> sentinel s then Some tmp else Some nd
        }
        else Some nd
      })"

definition lower_bound ::
  "'k intrusive_set \<Rightarrow> (addr \<rightharpoonup> 'k) \<Rightarrow> node_heap \<Rightarrow> 'k \<Rightarrow> iterator option" where
  "lower_bound s gk nh key = do {
     sn \<leftarrow> deref nh (sentinel s);
     bound_impl s gk nh key (left sn)
   }"

definition upper_bound ::
  "'k intrusive_set \<Rightarrow> (addr \<rightharpoonup> 'k) \<Rightarrow> node_heap \<Rightarrow> 'k \<Rightarrow> iterator option" where
  "upper_bound s gk nh key = do {
     it \<leftarrow> lower_bound s gk nh key;
     if it \<noteq> end_set s then do {
       k \<leftarrow> get_key gk it;
       if equals_set s key k then increment nh it else Some it
     } else Some it
   }"

definition find_set ::
  "'k intrusive_set \<Rightarrow> (addr \<rightharpoonup> 'k) \<Rightarrow> node_heap \<Rightarrow> 'k \<Rightarrow> iterator option" where
  "find_set s gk nh key = do {
     it \<leftarrow> lower_bound s gk nh key;
     if it \<noteq> end_set s then do {
       k \<leftarrow> get_key gk it;
       if equals_set s key k then Some it else Some (end_set s)
     } else Some (end_set s)
   }"

subsection \<open>Insertion and removal\<close>

partial_function (option) add_to_tree ::
  "'k intrusive_set \<Rightarrow> (addr \<rightharpoonup> 'k) \<Rightarrow> addr \<Rightarrow> ptr \<Rightarrow> node_heap \<Rightarrow> (ptr \<times> node_heap) option"
  where
  [code]: "add_to_tree s gk obj nd nh =
     (if nd = None then Some (Some obj, nh)
      else do {
        ko \<leftarrow> gk obj;
        kn \<leftarrow> get_key gk nd;
        if less_set s ko kn then do {
          n \<leftarrow> deref nh nd;
          (r, nh1) \<leftarrow> add_to_tree s gk obj (left n) nh;
          nh2 \<leftarrow> set_left nh1 nd r;
          n2 \<leftarrow> deref nh2 nd;
          nh3 \<leftarrow> set_parent nh2 (left n2) nd;
          Some (nd, nh3)
        } else do {
          n \<leftarrow> deref nh nd;
          (r, nh1) \<leftarrow> add_to_tree s gk obj (right n) nh;
          nh2 \<leftarrow> set_right nh1 nd r;
          n2 \<leftarrow> deref nh2 nd;
          nh3 \<leftarrow> set_parent nh2 (right n2) nd;
          Some (nd, nh3)
        }
      })"

text \<open>\<^verbatim>\<open>intrusive_set::insert(T& obj, bool hint)\<close>\<close>

definition insert_set ::
  "'k intrusive_set \<Rightarrow> (addr \<rightharpoonup> 'k) \<Rightarrow> node_heap \<Rightarrow> addr \<Rightarrow> bool
     \<Rightarrow> (iterator \<times> node_heap) option" where
  "insert_set s gk nh obj hint = do {
     dup \<leftarrow> (if \<not> hint then do {
               k \<leftarrow> gk obj;
               it \<leftarrow> find_set s gk nh k;
               Some (it \<noteq> end_set s)
             } else Some False);
     if dup then Some (end_set s, nh)
     else do {
       sn \<leftarrow> deref nh (sentinel s);
       (r, nh1) \<leftarrow> add_to_tree s gk obj (left sn) nh;
       nh2 \<leftarrow> set_left nh1 (sentinel s) r;
       sn2 \<leftarrow> deref nh2 (sentinel s);
       nh3 \<leftarrow> set_parent nh2 (left sn2) (sentinel s);
       Some (Some obj, nh3)
     }
   }"

text \<open>\<^verbatim>\<open>intrusive_set::erase(iterator it)\<close>: returns the unlinked node.\<close>

definition erase_set :: "node_heap \<Rightarrow> iterator \<Rightarrow> (ptr \<times> node_heap) option" where
  "erase_set nh it = do {
     let nd = it;
     n \<leftarrow> deref nh nd;
     nh6 \<leftarrow> (if left n \<noteq> None \<and> right n \<noteq> None then do {
        new_node \<leftarrow> descend_right nh (left n);
        nn \<leftarrow> deref nh new_node;
        nh3 \<leftarrow> (if parent nn \<noteq> nd then do {
                  nh1 \<leftarrow> set_child nh new_node (left nn);
                  n1 \<leftarrow> deref nh1 nd;
                  nh2 \<leftarrow> set_left nh1 new_node (left n1);
                  nn2 \<leftarrow> deref nh2 new_node;
                  set_parent nh2 (left nn2) new_node
                } else Some nh);
        n3 \<leftarrow> deref nh3 nd;
        nh4 \<leftarrow> set_right nh3 new_node (right n3);
        n4 \<leftarrow> deref nh4 nd;
        nh5 \<leftarrow> set_parent nh4 (right n4) new_node;
        set_child nh5 nd new_node
      } else set_child nh nd (if left n \<noteq> None then left n else right n));
     nh7 \<leftarrow> set_parent nh6 nd None;
     nh8 \<leftarrow> set_right nh7 nd None;
     nh9 \<leftarrow> set_left nh8 nd None;
     Some (nd, nh9)
   }"

section \<open>The dual-key container (\<^verbatim>\<open>bimap\<close>)\<close>

text \<open>
  The memory: the two node subobjects and the two keys of every record, by address, and
  the supply of fresh addresses from which \<^verbatim>\<open>new\<close> and object construction take
  storage.  Allocation never fails in the model.
\<close>

record ('l, 'r) memory =
  left_nodes :: node_heap
  right_nodes :: node_heap
  left_keys :: "addr \<rightharpoonup> 'l"
  right_keys :: "addr \<rightharpoonup> 'r"
  next_free :: addr

definition empty_memory :: "('l, 'r) memory" where
  "empty_memory = \<lparr>left_nodes = Map.empty, right_nodes = Map.empty,
     left_keys = Map.empty, right_keys = Map.empty, next_free = 0\<rparr>"

text \<open>
  A \<^verbatim>\<open>bimap\<close> object: the counter \<^verbatim>\<open>m_size\<close> (a 64-bit \<^verbatim>\<open>std::size_t\<close>) and the two
  sets.  Its member \<^verbatim>\<open>sentinel\<close> lives in the memory, at the address both sets point to.
\<close>

record ('l, 'r) bimap =
  m_size :: "64 word"
  left_set :: "'l intrusive_set"
  right_set :: "'r intrusive_set"

datatype left_iterator = Left_iterator (left_it: iterator)
datatype right_iterator = Right_iterator (right_it: iterator)

text \<open>
  \<^verbatim>\<open>template_iterator::flip\<close>: the two casts take the address of one base subobject to
  the address of the other base subobject of the same record.
\<close>

definition flip_left :: "left_iterator \<Rightarrow> right_iterator" where
  "flip_left it = Right_iterator (left_it it)"

definition flip_right :: "right_iterator \<Rightarrow> left_iterator" where
  "flip_right it = Left_iterator (right_it it)"

text \<open>\<^verbatim>\<open>template_iterator::operator*\<close>\<close>

definition deref_left :: "('l, 'r) memory \<Rightarrow> left_iterator \<Rightarrow> 'l option" where
  "deref_left m it = get_key (left_keys m) (left_it it)"

definition deref_right :: "('l, 'r) memory \<Rightarrow> right_iterator \<Rightarrow> 'r option" where
  "deref_right m it = get_key (right_keys m) (right_it it)"

text \<open>\<^verbatim>\<open>template_iterator::operator++\<close>\<close>

definition increment_left :: "('l, 'r) memory \<Rightarrow> left_iterator \<Rightarrow> left_iterator option" where
  "increment_left m it = map_option Left_iterator (increment (left_nodes m) (left_it it))"

definition increment_right :: "('l, 'r) memory \<Rightarrow> right_iterator \<Rightarrow> right_iterator option" where
  "increment_right m it = map_option Right_iterator (increment (right_nodes m) (right_it it))"

text \<open>
  \<^verbatim>\<open>bimap(CompareLeft, CompareRight)\<close>: the sentinel member is constructed with all links
  null at a fresh address, and both sets are bound to it.
\<close>

definition bimap_ctor ::
  "('l, 'r) memory \<Rightarrow> ('l \<Rightarrow> 'l \<Rightarrow> bool) \<Rightarrow> ('r \<Rightarrow> 'r \<Rightarrow> bool)
     \<Rightarrow> ('l, 'r) memory \<times> ('l, 'r) bimap" where
  "bimap_ctor m compare_left compare_right =
     (let s = next_free m in
      (m\<lparr>left_nodes := (left_nodes m)(s \<mapsto> default_node),
         right_nodes := (right_nodes m)(s \<mapsto> default_node),
         next_free := Suc s\<rparr>,
       \<lparr>m_size = 0,
        left_set = intrusive_set_ctor s compare_left,
        right_set = intrusive_set_ctor s compare_right\<rparr>))"

definition begin_left :: "('l, 'r) memory \<Rightarrow> ('l, 'r) bimap \<Rightarrow> left_iterator option" where
  "begin_left m b = map_option Left_iterator (begin_set (left_set b) (left_nodes m))"

definition end_left :: "('l, 'r) bimap \<Rightarrow> left_iterator" where
  "end_left b = Left_iterator (end_set (left_set b))"

definition begin_right :: "('l, 'r) memory \<Rightarrow> ('l, 'r) bimap \<Rightarrow> right_iterator option" where
  "begin_right m b = map_option Right_iterator (begin_set (right_set b) (right_nodes m))"

definition end_right :: "('l, 'r) bimap \<Rightarrow> right_iterator" where
  "end_right b = Right_iterator (end_set (right_set b))"

definition empty_bimap :: "('l, 'r) bimap \<Rightarrow> bool" where
  "empty_bimap b = (m_size b = 0)"

definition size_bimap :: "('l, 'r) bimap \<Rightarrow> 64 word" where
  "size_bimap b = m_size b"

definition find_left ::
  "('l, 'r) memory \<Rightarrow> ('l, 'r) bimap \<Rightarrow> 'l \<Rightarrow> left_iterator option" where
  "find_left m b l =
     map_option Left_iterator (find_set (left_set b) (left_keys m) (left_nodes m) l)"

definition find_right ::
  "('l, 'r) memory \<Rightarrow> ('l, 'r) bimap \<Rightarrow> 'r \<Rightarrow> right_iterator option" where
  "find_right m b r =
     map_option Right_iterator (find_set (right_set b) (right_keys m) (right_nodes m) r)"

definition lower_bound_left ::
  "('l, 'r) memory \<Rightarrow> ('l, 'r) bimap \<Rightarrow> 'l \<Rightarrow> left_iterator option" where
  "lower_bound_left m b l =
     map_option Left_iterator (lower_bound (left_set b) (left_keys m) (left_nodes m) l)"

definition upper_bound_left ::
  "('l, 'r) memory \<Rightarrow> ('l, 'r) bimap \<Rightarrow> 'l \<Rightarrow> left_iterator option" where
  "upper_bound_left m b l =
     map_option Left_iterator (upper_bound (left_set b) (left_keys m) (left_nodes m) l)"

definition lower_bound_right ::
  "('l, 'r) memory \<Rightarrow> ('l, 'r) bimap \<Rightarrow> 'r \<Rightarrow> right_iterator option" where
  "lower_bound_right m b r =
     map_option Right_iterator (lower_bound (right_set b) (right_keys m) (right_nodes m) r)"

definition upper_bound_right ::
  "('l, 'r) memory \<Rightarrow> ('l, 'r) bimap \<Rightarrow> 'r \<Rightarrow> right_iterator option" where
  "upper_bound_right m b r =
     map_option Right_iterator (upper_bound (right_set b) (right_keys m) (right_nodes m) r)"

subsection \<open>Insertion\<close>

text \<open>
  \<^verbatim>\<open>new storage_node(l, r)\<close>: a record at a fresh address, both node subobjects with
  null links.
\<close>

definition new_storage_node :: "('l, 'r) memory \<Rightarrow> 'l \<Rightarrow> 'r \<Rightarrow> ('l, 'r) memory \<times> addr" where
  "new_storage_node m l r =
     (let a = next_free m in
      (m\<lparr>left_nodes := (left_nodes m)(a \<mapsto> default_node),
         right_nodes := (right_nodes m)(a \<mapsto> default_node),
         left_keys := (left_keys m)(a \<mapsto> l),
         right_keys := (right_keys m)(a \<mapsto> r),
         next_free := Suc a\<rparr>, a))"

definition perfect_forwarding_insert ::
  "('l, 'r) memory \<Rightarrow> ('l, 'r) bimap \<Rightarrow> 'l \<Rightarrow> 'r
     \<Rightarrow> (('l, 'r) memory \<times> ('l, 'r) bimap \<times> left_iterator) option" where
  "perfect_forwarding_insert m b l r = do {
     fl \<leftarrow> find_left m b l;
     absent \<leftarrow> (if fl = end_left b then do {
                  fr \<leftarrow> find_right m b r;
                  Some (fr = end_right b)
                } else Some False);
     if \<not> absent then Some (m, b, end_left b)
     else do {
       let (m1, storage) = new_storage_node m l r;
       (_, rn) \<leftarrow> insert_set (right_set b) (right_keys m1) (right_nodes m1) storage True;
       let m2 = m1\<lparr>right_nodes := rn\<rparr>;
       let b1 = b\<lparr>m_size := m_size b + 1\<rparr>;
       (it, ln) \<leftarrow> insert_set (left_set b1) (left_keys m2) (left_nodes m2) storage True;
       Some (m2\<lparr>left_nodes := ln\<rparr>, b1, Left_iterator it)
     }
   }"

definition insert_bimap ::
  "('l, 'r) memory \<Rightarrow> ('l, 'r) bimap \<Rightarrow> 'l \<Rightarrow> 'r
     \<Rightarrow> (('l, 'r) memory \<times> ('l, 'r) bimap \<times> left_iterator) option" where
  "insert_bimap m b l r = perfect_forwarding_insert m b l r"

subsection \<open>Removal\<close>

text \<open>
  \<^verbatim>\<open>delete static_cast<storage_node*>(p)\<close>: releases the record.  Deleting a null pointer
  does nothing; deleting an address that holds no record has no defined result.
\<close>

definition delete_storage_node :: "('l, 'r) memory \<Rightarrow> ptr \<Rightarrow> ('l, 'r) memory option" where
  "delete_storage_node m p =
     (case p of None \<Rightarrow> Some m
      | Some a \<Rightarrow>
          if a \<in> dom (left_keys m) \<and> a \<in> dom (right_keys m)
             \<and> a \<in> dom (left_nodes m) \<and> a \<in> dom (right_nodes m)
          then Some (m\<lparr>left_nodes := (left_nodes m)(a := None),
                       right_nodes := (right_nodes m)(a := None),
                       left_keys := (left_keys m)(a := None),
                       right_keys := (right_keys m)(a := None)\<rparr>)
          else None)"

definition erase_left ::
  "('l, 'r) memory \<Rightarrow> ('l, 'r) bimap \<Rightarrow> left_iterator
     \<Rightarrow> (('l, 'r) memory \<times> ('l, 'r) bimap \<times> left_iterator) option" where
  "erase_left m b it = do {
     (_, rn) \<leftarrow> erase_set (right_nodes m) (right_it (flip_left it));
     let m1 = m\<lparr>right_nodes := rn\<rparr>;
     let copy = it;
     it1 \<leftarrow> increment_left m1 it;
     let next = Left_iterator (left_it it1);
     (p, ln) \<leftarrow> erase_set (left_nodes m1) (left_it copy);
     m2 \<leftarrow> delete_storage_node (m1\<lparr>left_nodes := ln\<rparr>) p;
     Some (m2, b\<lparr>m_size := m_size b - 1\<rparr>, next)
   }"

definition erase_right ::
  "('l, 'r) memory \<Rightarrow> ('l, 'r) bimap \<Rightarrow> right_iterator
     \<Rightarrow> (('l, 'r) memory \<times> ('l, 'r) bimap \<times> right_iterator) option" where
  "erase_right m b it = do {
     (_, ln) \<leftarrow> erase_set (left_nodes m) (left_it (flip_right it));
     let m1 = m\<lparr>left_nodes := ln\<rparr>;
     let copy = it;
     it1 \<leftarrow> increment_right m1 it;
     let next = Right_iterator (right_it it1);
     (p, rn) \<leftarrow> erase_set (right_nodes m1) (right_it copy);
     m2 \<leftarrow> delete_storage_node (m1\<lparr>right_nodes := rn\<rparr>) p;
     Some (m2, b\<lparr>m_size := m_size b - 1\<rparr>, next)
   }"

text \<open>\<^verbatim>\<open>bool erase_left(const left_t&)\<close> and \<^verbatim>\<open>bool erase_right(const right_t&)\<close>\<close>

definition erase_left_key ::
  "('l, 'r) memory \<Rightarrow> ('l, 'r) bimap \<Rightarrow> 'l \<Rightarrow> (('l, 'r) memory \<times> ('l, 'r) bimap \<times> bool) option"
  where
  "erase_left_key m b l = do {
     it \<leftarrow> find_left m b l;
     if it \<noteq> end_left b then do {
       (m1, b1, _) \<leftarrow> erase_left m b it;
       Some (m1, b1, True)
     } else Some (m, b, False)
   }"

definition erase_right_key ::
  "('l, 'r) memory \<Rightarrow> ('l, 'r) bimap \<Rightarrow> 'r \<Rightarrow> (('l, 'r) memory \<times> ('l, 'r) bimap \<times> bool) option"
  where
  "erase_right_key m b r = do {
     it \<leftarrow> find_right m b r;
     if it \<noteq> end_right b then do {
       (m1, b1, _) \<leftarrow> erase_right m b it;
       Some (m1, b1, True)
     } else Some (m, b, False)
   }"

text \<open>The range forms.\<close>

partial_function (option) erase_left_range ::
  "('l, 'r) memory \<Rightarrow> ('l, 'r) bimap \<Rightarrow> left_iterator \<Rightarrow> left_iterator
     \<Rightarrow> (('l, 'r) memory \<times> ('l, 'r) bimap \<times> left_iterator) option" where
  [code]: "erase_left_range m b it lst =
     (if it \<noteq> lst then do {
        (m1, b1, it1) \<leftarrow> erase_left m b it;
        erase_left_range m1 b1 it1 lst
      } else Some (m, b, lst))"

partial_function (option) erase_right_range ::
  "('l, 'r) memory \<Rightarrow> ('l, 'r) bimap \<Rightarrow> right_iterator \<Rightarrow> right_iterator
     \<Rightarrow> (('l, 'r) memory \<times> ('l, 'r) bimap \<times> right_iterator) option" where
  [code]: "erase_right_range m b it lst =
     (if it \<noteq> lst then do {
        (m1, b1, it1) \<leftarrow> erase_right m b it;
        erase_right_range m1 b1 it1 lst
      } else Some (m, b, lst))"

subsection \<open>Access\<close>

datatype exn = Out_of_range string

definition at_left :: "('l, 'r) memory \<Rightarrow> ('l, 'r) bimap \<Rightarrow> 'l \<Rightarrow> (exn + 'r) option" where
  "at_left m b key = do {
     left_it \<leftarrow> find_left m b key;
     if left_it = end_left b then Some (Inl (Out_of_range ''element doesn't exist''))
     else map_option Inr (deref_right m (flip_left left_it))
   }"

definition at_right :: "('l, 'r) memory \<Rightarrow> ('l, 'r) bimap \<Rightarrow> 'r \<Rightarrow> (exn + 'l) option" where
  "at_right m b key = do {
     right_it \<leftarrow> find_right m b key;
     if right_it = end_right b then Some (Inl (Out_of_range ''element doesn't exist''))
     else map_option Inr (deref_left m (flip_right right_it))
   }"

text \<open>
  A parameter of type \<^verbatim>\<open>const T&\<close> is bound to an object, not to a value: the callee
  reads the object each time it uses the parameter.  A reference is modelled by the
  read of the object it is bound to, in the memory of the moment; the read has no defined
  result once the storage of the object has been released.  The object may be one that
  lives outside the records of the containers (a local variable, a temporary), or a key
  field of a record, as the references that \<^verbatim>\<open>at_left\<close>, \<^verbatim>\<open>at_right\<close> and
  \<^verbatim>\<open>operator*\<close> return are.
\<close>

type_synonym ('l, 'r, 'k) cref = "('l, 'r) memory \<Rightarrow> 'k option"

definition ref_outside :: "'k \<Rightarrow> ('l, 'r, 'k) cref" where
  "ref_outside v m = Some v"

definition ref_left_key :: "addr \<Rightarrow> ('l, 'r, 'l) cref" where
  "ref_left_key a m = left_keys m a"

definition ref_right_key :: "addr \<Rightarrow> ('l, 'r, 'r) cref" where
  "ref_right_key a m = right_keys m a"

text \<open>
  \<^verbatim>\<open>at_left_or_default(const left_t& key)\<close> and
  \<^verbatim>\<open>at_right_or_default(const right_t& key)\<close>.  The value-initialised temporary
  \<^verbatim>\<open>tmp{}\<close> of the opposite key type is the parameter \<open>dflt\<close>.  The parameter \<open>key\<close>
  is a reference: it is read by \<^verbatim>\<open>find\<close> at the start, and again by \<^verbatim>\<open>insert\<close>, which
  searches for it and copies it into the new record, after \<^verbatim>\<open>erase_right\<close>
  (\<^verbatim>\<open>erase_left\<close>) may have deleted a record.  In every other operation the reads of a
  reference parameter come before any record is deleted, so those take the value read.
\<close>

definition at_left_or_default ::
  "('l, 'r) memory \<Rightarrow> ('l, 'r) bimap \<Rightarrow> 'r \<Rightarrow> ('l, 'r, 'l) cref
     \<Rightarrow> (('l, 'r) memory \<times> ('l, 'r) bimap \<times> 'r) option" where
  "at_left_or_default m b dflt key = do {
     k \<leftarrow> key m;
     it \<leftarrow> find_left m b k;
     if it \<noteq> end_left b then do {
       v \<leftarrow> deref_right m (flip_left it);
       Some (m, b, v)
     } else do {
       let tmp = dflt;
       it2 \<leftarrow> find_right m b tmp;
       (m1, b1) \<leftarrow> (if it2 \<noteq> end_right b then do {
                      (m', b', _) \<leftarrow> erase_right m b it2;
                      Some (m', b')
                    } else Some (m, b));
       k1 \<leftarrow> key m1;
       (m2, b2, it3) \<leftarrow> insert_bimap m1 b1 k1 tmp;
       v \<leftarrow> deref_right m2 (flip_left it3);
       Some (m2, b2, v)
     }
   }"

definition at_right_or_default ::
  "('l, 'r) memory \<Rightarrow> ('l, 'r) bimap \<Rightarrow> 'l \<Rightarrow> ('l, 'r, 'r) cref
     \<Rightarrow> (('l, 'r) memory \<times> ('l, 'r) bimap \<times> 'l) option" where
  "at_right_or_default m b dflt key = do {
     k \<leftarrow> key m;
     it \<leftarrow> find_right m b k;
     if it \<noteq> end_right b then do {
       v \<leftarrow> deref_left m (flip_right it);
       Some (m, b, v)
     } else do {
       let tmp = dflt;
       it2 \<leftarrow> find_left m b tmp;
       (m1, b1) \<leftarrow> (if it2 \<noteq> end_left b then do {
                      (m', b', _) \<leftarrow> erase_left m b it2;
                      Some (m', b')
                    } else Some (m, b));
       k1 \<leftarrow> key m1;
       (m2, b2, it3) \<leftarrow> insert_bimap m1 b1 tmp k1;
       v \<leftarrow> deref_left m2 it3;
       Some (m2, b2, v)
     }
   }"

subsection \<open>Whole-container operations\<close>

text \<open>\<^verbatim>\<open>bimap::swap\<close>\<close>

definition swap_bimap ::
  "('l, 'r) memory \<Rightarrow> ('l, 'r) bimap \<Rightarrow> ('l, 'r) bimap
     \<Rightarrow> (('l, 'r) memory \<times> ('l, 'r) bimap \<times> ('l, 'r) bimap) option" where
  "swap_bimap m this other = do {
     (ln, tl, ol) \<leftarrow> swap_set (left_nodes m) (left_set this) (left_set other);
     (rn, tr, or) \<leftarrow> swap_set (right_nodes m) (right_set this) (right_set other);
     Some (m\<lparr>left_nodes := ln, right_nodes := rn\<rparr>,
           \<lparr>m_size = m_size other, left_set = tl, right_set = tr\<rparr>,
           \<lparr>m_size = m_size this, left_set = ol, right_set = or\<rparr>)
   }"

text \<open>The loop of the copy constructor.\<close>

partial_function (option) copy_loop ::
  "('l, 'r) memory \<Rightarrow> ('l, 'r) bimap \<Rightarrow> ('l, 'r) bimap \<Rightarrow> left_iterator
     \<Rightarrow> (('l, 'r) memory \<times> ('l, 'r) bimap) option" where
  [code]: "copy_loop m this other it =
     (if it \<noteq> end_left other then do {
        l \<leftarrow> deref_left m it;
        r \<leftarrow> deref_right m (flip_left it);
        (m1, this1, _) \<leftarrow> insert_bimap m this l r;
        it1 \<leftarrow> increment_left m1 it;
        copy_loop m1 this1 other it1
      } else Some (m, this))"

text \<open>\<^verbatim>\<open>bimap(const bimap& other)\<close>\<close>

definition bimap_copy_ctor ::
  "('l, 'r) memory \<Rightarrow> ('l, 'r) bimap \<Rightarrow> (('l, 'r) memory \<times> ('l, 'r) bimap) option" where
  "bimap_copy_ctor m other = do {
     let (m1, this) = bimap_ctor m (compare (left_set other)) (compare (right_set other));
     it \<leftarrow> begin_left m1 other;
     copy_loop m1 this other it
   }"

text \<open>\<^verbatim>\<open>~bimap()\<close>: erases every pair, then the storage of the sentinel member ends.\<close>

definition bimap_dtor :: "('l, 'r) memory \<Rightarrow> ('l, 'r) bimap \<Rightarrow> ('l, 'r) memory option" where
  "bimap_dtor m b = do {
     first \<leftarrow> begin_left m b;
     (m1, _, _) \<leftarrow> erase_left_range m b first (end_left b);
     (case sentinel (left_set b) of
        None \<Rightarrow> Some m1
      | Some s \<Rightarrow> Some (m1\<lparr>left_nodes := (left_nodes m1)(s := None),
                          right_nodes := (right_nodes m1)(s := None)\<rparr>))
   }"

text \<open>
  \<^verbatim>\<open>bimap& operator=(const bimap& other)\<close>.  The class declares a copy constructor, a
  copy assignment operator and a destructor, and no move constructor or move assignment
  operator, so this is the assignment that an rvalue argument selects as well.  Two
  \<^verbatim>\<open>bimap\<close> objects are the same object exactly when their sentinel members have the
  same address.
\<close>

definition assign_bimap ::
  "('l, 'r) memory \<Rightarrow> ('l, 'r) bimap \<Rightarrow> ('l, 'r) bimap
     \<Rightarrow> (('l, 'r) memory \<times> ('l, 'r) bimap \<times> ('l, 'r) bimap) option" where
  "assign_bimap m this other =
     (if sentinel (left_set other) \<noteq> sentinel (left_set this) then do {
        (m1, tmp) \<leftarrow> bimap_copy_ctor m other;
        (m2, tmp1, this1) \<leftarrow> swap_bimap m1 tmp this;
        m3 \<leftarrow> bimap_dtor m2 tmp1;
        Some (m3, this1, other)
      } else Some (m, this, other))"

subsection \<open>Structural equality\<close>

partial_function (option) equal_loop ::
  "('l, 'r) memory \<Rightarrow> ('l, 'r) bimap \<Rightarrow> ('l, 'r) bimap \<Rightarrow> left_iterator \<Rightarrow> left_iterator
     \<Rightarrow> bool option" where
  [code]: "equal_loop m a b it1 it2 =
     (if it2 \<noteq> end_left b then do {
        let comp_left = compare (left_set a);
        let comp_right = compare (right_set a);
        l1 \<leftarrow> deref_left m it1;
        l2 \<leftarrow> deref_left m it2;
        if comp_left l1 l2 \<or> comp_left l2 l1 then Some False
        else do {
          r1 \<leftarrow> deref_right m (flip_left it1);
          r2 \<leftarrow> deref_right m (flip_left it2);
          if comp_right r1 r2 \<or> comp_right r2 r1 then Some False
          else do {
            it1' \<leftarrow> increment_left m it1;
            it2' \<leftarrow> increment_left m it2;
            equal_loop m a b it1' it2'
          }
        }
      } else Some True)"

text \<open>\<^verbatim>\<open>operator==(bimap const& a, bimap const& b)\<close>\<close>

definition equal_bimap :: "('l, 'r) memory \<Rightarrow> ('l, 'r) bimap \<Rightarrow> ('l, 'r) bimap \<Rightarrow> bool option"
  where
  "equal_bimap m a b =
     (if size_bimap a \<noteq> size_bimap b then Some False
      else do {
        it1 \<leftarrow> begin_left m a;
        it2 \<leftarrow> begin_left m b;
        equal_loop m a b it1 it2
      })"

text \<open>\<^verbatim>\<open>operator!=(bimap const& a, bimap const& b)\<close>\<close>

definition not_equal_bimap ::
  "('l, 'r) memory \<Rightarrow> ('l, 'r) bimap \<Rightarrow> ('l, 'r) bimap \<Rightarrow> bool option" where
  "not_equal_bimap m a b = map_option Not (equal_bimap m a b)"

section \<open>Abstraction of the memory\<close>

subsection \<open>Comparison objects\<close>

text \<open>
  A \<^verbatim>\<open>Compare\<close> object is expected to be a strict weak order: irreflexive, transitive,
  and with a transitive incomparability relation.  \<^verbatim>\<open>std::less\<close> on a linear order is
  one.
\<close>

definition strict_weak_order :: "('k \<Rightarrow> 'k \<Rightarrow> bool) \<Rightarrow> bool" where
  "strict_weak_order cmp \<longleftrightarrow>
     (\<forall>x. \<not> cmp x x) \<and>
     (\<forall>x y z. cmp x y \<longrightarrow> cmp y z \<longrightarrow> cmp x z) \<and>
     (\<forall>x y z. \<not> cmp x y \<longrightarrow> \<not> cmp y x \<longrightarrow> \<not> cmp y z \<longrightarrow> \<not> cmp z y \<longrightarrow> \<not> cmp x z \<and> \<not> cmp z x)"

subsection \<open>Trees in the memory\<close>

text \<open>The key stored in the record at address \<open>a\<close>.\<close>

definition key_of :: "(addr \<rightharpoonup> 'k) \<Rightarrow> addr \<Rightarrow> 'k" where
  "key_of gk a = the (gk a)"

text \<open>
  \<open>tree_at nh par p t\<close>: in the node heap \<open>nh\<close> the pointer \<open>p\<close> is the root of a
  subtree whose shape and addresses are those of \<open>t\<close>, every node's parent link being
  its parent in \<open>t\<close> and the root's parent link being \<open>par\<close>.  The tree \<open>t\<close> of
  addresses is the abstract value of the linked structure.
\<close>

fun tree_at :: "node_heap \<Rightarrow> ptr \<Rightarrow> ptr \<Rightarrow> addr tree \<Rightarrow> bool" where
  "tree_at nh par p Leaf = (p = None)"
| "tree_at nh par p (Node l a r) =
     (p = Some a \<and>
      (case nh a of None \<Rightarrow> False
       | Some n \<Rightarrow> parent n = par \<and> tree_at nh (Some a) (left n) l
                   \<and> tree_at nh (Some a) (right n) r))"

text \<open>
  The results of the searches, read off the in-order sequence \<open>xs\<close> of a tree: the
  first address whose key is not less than \<open>key\<close>, the first whose key is greater,
  the first whose key is equivalent, and \<open>sent\<close> (the end cursor) when there is none.
  \<open>next_in xs a\<close> is the element that follows \<open>a\<close> in \<open>xs\<close>.
\<close>

definition bound_of :: "('k \<Rightarrow> 'k \<Rightarrow> bool) \<Rightarrow> (addr \<Rightarrow> 'k) \<Rightarrow> 'k \<Rightarrow> ptr \<Rightarrow> addr list \<Rightarrow> ptr" where
  "bound_of cmp kf key sent xs =
     (case List.find (\<lambda>a. \<not> cmp (kf a) key) xs of None \<Rightarrow> sent | Some a \<Rightarrow> Some a)"

fun next_in :: "'a list \<Rightarrow> 'a \<Rightarrow> 'a option" where
  "next_in [] a = None"
| "next_in [x] a = None"
| "next_in (x # y # xs) a = (if a = x then Some y else next_in (y # xs) a)"

definition upper_of :: "('k \<Rightarrow> 'k \<Rightarrow> bool) \<Rightarrow> (addr \<Rightarrow> 'k) \<Rightarrow> 'k \<Rightarrow> ptr \<Rightarrow> addr list \<Rightarrow> ptr" where
  "upper_of cmp kf key sent xs =
     (case List.find (\<lambda>a. cmp key (kf a)) xs of None \<Rightarrow> sent | Some a \<Rightarrow> Some a)"

definition find_of :: "('k \<Rightarrow> 'k \<Rightarrow> bool) \<Rightarrow> (addr \<Rightarrow> 'k) \<Rightarrow> 'k \<Rightarrow> ptr \<Rightarrow> addr list \<Rightarrow> ptr" where
  "find_of cmp kf key sent xs =
     (case List.find (\<lambda>a. \<not> cmp (kf a) key \<and> \<not> cmp key (kf a)) xs of
        None \<Rightarrow> sent | Some a \<Rightarrow> Some a)"

text \<open>
  The invariant of an \<^verbatim>\<open>intrusive_set\<close> whose tree is \<open>t\<close>: the sentinel is a node with
  no parent and no right child, whose left child is the root of \<open>t\<close>; the addresses of
  \<open>t\<close> are distinct, differ from the sentinel and carry keys; the keys are strictly
  increasing in order; and the comparison is a strict weak order.
\<close>

definition set_inv :: "'k intrusive_set \<Rightarrow> (addr \<rightharpoonup> 'k) \<Rightarrow> node_heap \<Rightarrow> addr tree \<Rightarrow> bool" where
  "set_inv s gk nh t \<longleftrightarrow>
     (case sentinel s of None \<Rightarrow> False
      | Some sa \<Rightarrow> tree_at nh None (Some sa) (Node t sa Leaf) \<and> sa \<notin> set_tree t)
     \<and> distinct (inorder t)
     \<and> set_tree t \<subseteq> dom gk
     \<and> sorted_wrt (compare s) (map (key_of gk) (inorder t))
     \<and> strict_weak_order (compare s)"

text \<open>
  The effect of the mutators on the abstract tree: \<open>ins_tree\<close> adds a leaf by the
  descent of \<^verbatim>\<open>add_to_tree\<close>; \<open>erase_tree\<close> replaces a node with two children by the
  rightmost node of its left subtree (\<open>split_max\<close>), and any other node by its only
  child, as \<^verbatim>\<open>erase\<close> does.
\<close>

fun ins_tree :: "('k \<Rightarrow> 'k \<Rightarrow> bool) \<Rightarrow> (addr \<Rightarrow> 'k) \<Rightarrow> addr \<Rightarrow> addr tree \<Rightarrow> addr tree" where
  "ins_tree cmp kf obj Leaf = Node Leaf obj Leaf"
| "ins_tree cmp kf obj (Node l a r) =
     (if cmp (kf obj) (kf a) then Node (ins_tree cmp kf obj l) a r
      else Node l a (ins_tree cmp kf obj r))"

fun split_max :: "'a tree \<Rightarrow> 'a tree \<times> 'a" where
  "split_max (Node l a r) =
     (if r = Leaf then (l, a) else (case split_max r of (r', m) \<Rightarrow> (Node l a r', m)))"

fun del_root :: "'a tree \<Rightarrow> 'a tree" where
  "del_root Leaf = Leaf"
| "del_root (Node l a r) =
     (if l \<noteq> Leaf \<and> r \<noteq> Leaf then (case split_max l of (l', m) \<Rightarrow> Node l' m r)
      else if l \<noteq> Leaf then l else r)"

fun erase_tree :: "'a \<Rightarrow> 'a tree \<Rightarrow> 'a tree" where
  "erase_tree x Leaf = Leaf"
| "erase_tree x (Node l a r) =
     (if a = x then del_root (Node l a r) else Node (erase_tree x l) a (erase_tree x r))"

text \<open>The pointer to the root of a tree.\<close>

definition root_ptr :: "addr tree \<Rightarrow> ptr" where
  "root_ptr t = (case t of Leaf \<Rightarrow> None | Node l a r \<Rightarrow> Some a)"

subsection \<open>The container invariant\<close>

text \<open>
  Every allocated address lies below the supply of fresh addresses.  A container is
  well formed, with left tree \<open>lt\<close> and right tree \<open>rt\<close>, when both sets are, share the
  sentinel, and link exactly the same records.
\<close>

definition mem_ok :: "('l, 'r) memory \<Rightarrow> bool" where
  "mem_ok m \<longleftrightarrow> dom (left_nodes m) \<subseteq> {..<next_free m} \<and> dom (right_nodes m) \<subseteq> {..<next_free m}
     \<and> dom (left_keys m) \<subseteq> {..<next_free m} \<and> dom (right_keys m) \<subseteq> {..<next_free m}"

definition bimap_inv ::
  "('l, 'r) memory \<Rightarrow> ('l, 'r) bimap \<Rightarrow> addr tree \<Rightarrow> addr tree \<Rightarrow> bool" where
  "bimap_inv m b lt rt \<longleftrightarrow>
     set_inv (left_set b) (left_keys m) (left_nodes m) lt
     \<and> set_inv (right_set b) (right_keys m) (right_nodes m) rt
     \<and> sentinel (left_set b) = sentinel (right_set b)
     \<and> set_tree lt = set_tree rt
     \<and> mem_ok m"

text \<open>
  A left (right) key is present when a record of the tree holds an equivalent key.
\<close>

definition has_left :: "('l, 'r) memory \<Rightarrow> ('l, 'r) bimap \<Rightarrow> addr tree \<Rightarrow> 'l \<Rightarrow> bool" where
  "has_left m b lt l \<longleftrightarrow>
     (\<exists>a\<in>set_tree lt. equals_set (left_set b) l (key_of (left_keys m) a))"

definition has_right :: "('l, 'r) memory \<Rightarrow> ('l, 'r) bimap \<Rightarrow> addr tree \<Rightarrow> 'r \<Rightarrow> bool" where
  "has_right m b rt r \<longleftrightarrow>
     (\<exists>a\<in>set_tree rt. equals_set (right_set b) r (key_of (right_keys m) a))"

subsection \<open>Example states\<close>

text \<open>
  A container holding the pairs \<open>(2, 20)\<close>, \<open>(1, 30)\<close> and \<open>(3, 10)\<close> in the records at
  addresses 1, 2 and 3, with its sentinel at address 0.
\<close>

definition ex_bimap :: "(nat, nat) bimap" where
  "ex_bimap = \<lparr>m_size = 3,
     left_set = \<lparr>compare = (<), sentinel = Some 0\<rparr>,
     right_set = \<lparr>compare = (<), sentinel = Some 0\<rparr>\<rparr>"

definition ex_memory :: "(nat, nat) memory" where
  "ex_memory = \<lparr>
     left_nodes = [0 \<mapsto> \<lparr>parent = None, left = Some 1, right = None\<rparr>,
                   1 \<mapsto> \<lparr>parent = Some 0, left = Some 2, right = Some 3\<rparr>,
                   2 \<mapsto> \<lparr>parent = Some 1, left = None, right = None\<rparr>,
                   3 \<mapsto> \<lparr>parent = Some 1, left = None, right = None\<rparr>],
     right_nodes = [0 \<mapsto> \<lparr>parent = None, left = Some 1, right = None\<rparr>,
                    1 \<mapsto> \<lparr>parent = Some 0, left = Some 3, right = Some 2\<rparr>,
                    2 \<mapsto> \<lparr>parent = Some 1, left = None, right = None\<rparr>,
                    3 \<mapsto> \<lparr>parent = Some 1, left = None, right = None\<rparr>],
     left_keys = [1 \<mapsto> 2, 2 \<mapsto> 1, 3 \<mapsto> 3],
     right_keys = [1 \<mapsto> 20, 2 \<mapsto> 30, 3 \<mapsto> 10],
     next_free = 4\<rparr>"

text \<open>Its two trees.\<close>

definition ex_left_tree :: "addr tree" where
  "ex_left_tree = Node (Node Leaf 2 Leaf) 1 (Node Leaf 3 Leaf)"

definition ex_right_tree :: "addr tree" where
  "ex_right_tree = Node (Node Leaf 3 Leaf) 1 (Node Leaf 2 Leaf)"

text \<open>A container from naturals to strings that holds one pair: 3 and the empty string.\<close>

definition ex_string_bimap :: "(nat, string) bimap" where
  "ex_string_bimap = \<lparr>m_size = 1,
     left_set = \<lparr>compare = (<), sentinel = Some 0\<rparr>,
     right_set = \<lparr>compare = (<), sentinel = Some 0\<rparr>\<rparr>"

definition ex_string_memory :: "(nat, string) memory" where
  "ex_string_memory = \<lparr>
     left_nodes = [0 \<mapsto> \<lparr>parent = None, left = Some 1, right = None\<rparr>,
                   1 \<mapsto> \<lparr>parent = Some 0, left = None, right = None\<rparr>],
     right_nodes = [0 \<mapsto> \<lparr>parent = None, left = Some 1, right = None\<rparr>,
                    1 \<mapsto> \<lparr>parent = Some 0, left = None, right = None\<rparr>],
     left_keys = [1 \<mapsto> 3],
     right_keys = [1 \<mapsto> []],
     next_free = 2\<rparr>"

subsection \<open>References that outlive an erasure\<close>

text \<open>
  The object a reference is bound to outlives the erasure of the record \<open>x\<close>, with the
  value \<open>k\<close>, when it is read as \<open>k\<close> in every memory that differs from \<open>m\<close> in the
  links and in the released keys of \<open>x\<close> only: an object outside the records does, and
  so does a key of a record other than \<open>x\<close>.
\<close>

definition outlives :: "('l, 'r, 'k) cref \<Rightarrow> ('l, 'r) memory \<Rightarrow> addr \<Rightarrow> 'k \<Rightarrow> bool" where
  "outlives kref m x k \<longleftrightarrow>
     (\<forall>m'. left_keys m' = (left_keys m)(x := None) \<and> right_keys m' = (right_keys m)(x := None)
        \<longrightarrow> kref m' = Some k)"

text \<open>
  The client \<^verbatim>\<open>bimap<int, int> b; b.insert(5, 0);\<close>: a container of integers that holds
  the one pair \<open>(5, 0)\<close>, where 0 is the default value of the key type.  And the client
  \<^verbatim>\<open>bimap<int, int> b; b.insert(0, 5);\<close>.  The sentinel is the object at address 0, the
  record of the pair the object at address 1.
\<close>

definition ex_alias_left :: "((int, int) memory \<times> (int, int) bimap) option" where
  "ex_alias_left = do {
     let (m0, b0) = bimap_ctor empty_memory (<) (<);
     (m1, b1, _) \<leftarrow> insert_bimap m0 b0 5 0;
     Some (m1, b1)
   }"

definition ex_alias_right :: "((int, int) memory \<times> (int, int) bimap) option" where
  "ex_alias_right = do {
     let (m0, b0) = bimap_ctor empty_memory (<) (<);
     (m1, b1, _) \<leftarrow> insert_bimap m0 b0 0 5;
     Some (m1, b1)
   }"

subsection \<open>Traversal\<close>

text \<open>
  The client loop \<^verbatim>\<open>for (it = begin; it != end; ++it) visit(*it)\<close>: the keys visited
  from the cursor \<open>it\<close> up to the end cursor.
\<close>

partial_function (option) traverse_left ::
  "('l, 'r) memory \<Rightarrow> ('l, 'r) bimap \<Rightarrow> left_iterator \<Rightarrow> 'l list option" where
  [code]: "traverse_left m b it =
     (if it \<noteq> end_left b then do {
        k \<leftarrow> deref_left m it;
        it1 \<leftarrow> increment_left m it;
        ks \<leftarrow> traverse_left m b it1;
        Some (k # ks)
      } else Some [])"

partial_function (option) traverse_right ::
  "('l, 'r) memory \<Rightarrow> ('l, 'r) bimap \<Rightarrow> right_iterator \<Rightarrow> 'r list option" where
  [code]: "traverse_right m b it =
     (if it \<noteq> end_right b then do {
        k \<leftarrow> deref_right m it;
        it1 \<leftarrow> increment_right m it;
        ks \<leftarrow> traverse_right m b it1;
        Some (k # ks)
      } else Some [])"

text \<open>
  The state built by inserting \<open>(2, 20)\<close>, \<open>(1, 30)\<close> and \<open>(3, 10)\<close> into a new
  container.
\<close>

definition ex_reached :: "((nat, nat) memory \<times> (nat, nat) bimap) option" where
  "ex_reached = do {
     let (m0, b0) = bimap_ctor empty_memory (<) (<);
     (m1, b1, _) \<leftarrow> insert_bimap m0 b0 2 20;
     (m2, b2, _) \<leftarrow> insert_bimap m1 b1 1 30;
     (m3, b3, _) \<leftarrow> insert_bimap m2 b2 3 10;
     Some (m3, b3)
   }"

subsection \<open>Structural equality of pair sequences\<close>

text \<open>
  The specification's words for structural equality: two keys are equivalent when
  neither is less than the other; two sequences of pairs are structurally equal when
  they have the same length and corresponding pairs have equivalent left keys and
  equivalent right keys.
\<close>

definition equivalent :: "('k \<Rightarrow> 'k \<Rightarrow> bool) \<Rightarrow> 'k \<Rightarrow> 'k \<Rightarrow> bool" where
  "equivalent cmp x y \<longleftrightarrow> \<not> cmp x y \<and> \<not> cmp y x"

definition pairs_of :: "('l, 'r) memory \<Rightarrow> addr tree \<Rightarrow> ('l \<times> 'r) list" where
  "pairs_of m lt = map (\<lambda>a. (key_of (left_keys m) a, key_of (right_keys m) a)) (inorder lt)"

definition structurally_equal ::
  "('l \<Rightarrow> 'l \<Rightarrow> bool) \<Rightarrow> ('r \<Rightarrow> 'r \<Rightarrow> bool) \<Rightarrow> ('l \<times> 'r) list \<Rightarrow> ('l \<times> 'r) list \<Rightarrow> bool" where
  "structurally_equal cl cr ps qs \<longleftrightarrow>
     length ps = length qs
     \<and> list_all2 (\<lambda>p q. equivalent cl (fst p) (fst q) \<and> equivalent cr (snd p) (snd q)) ps qs"

text \<open>The counter \<^verbatim>\<open>m_size\<close> holds the number of pairs.\<close>

definition size_inv :: "('l, 'r) bimap \<Rightarrow> addr tree \<Rightarrow> bool" where
  "size_inv b lt \<longleftrightarrow> unat (m_size b) = length (inorder lt)"

text \<open>Two containers in one memory, holding the same pairs, inserted in opposite orders.\<close>

definition ex_two_memory :: "(nat, nat) memory" where
  "ex_two_memory = \<lparr>
     left_nodes = [0 \<mapsto> \<lparr>parent = None, left = Some 2, right = None\<rparr>,
                   1 \<mapsto> \<lparr>parent = None, left = Some 4, right = None\<rparr>,
                   2 \<mapsto> \<lparr>parent = Some 0, left = None, right = Some 3\<rparr>,
                   3 \<mapsto> \<lparr>parent = Some 2, left = None, right = None\<rparr>,
                   4 \<mapsto> \<lparr>parent = Some 1, left = Some 5, right = None\<rparr>,
                   5 \<mapsto> \<lparr>parent = Some 4, left = None, right = None\<rparr>],
     right_nodes = [0 \<mapsto> \<lparr>parent = None, left = Some 2, right = None\<rparr>,
                    1 \<mapsto> \<lparr>parent = None, left = Some 4, right = None\<rparr>,
                    2 \<mapsto> \<lparr>parent = Some 0, left = None, right = Some 3\<rparr>,
                    3 \<mapsto> \<lparr>parent = Some 2, left = None, right = None\<rparr>,
                    4 \<mapsto> \<lparr>parent = Some 1, left = Some 5, right = None\<rparr>,
                    5 \<mapsto> \<lparr>parent = Some 4, left = None, right = None\<rparr>],
     left_keys = [2 \<mapsto> 1, 3 \<mapsto> 2, 4 \<mapsto> 2, 5 \<mapsto> 1],
     right_keys = [2 \<mapsto> 10, 3 \<mapsto> 20, 4 \<mapsto> 20, 5 \<mapsto> 10],
     next_free = 6\<rparr>"

definition ex_two_a :: "(nat, nat) bimap" where
  "ex_two_a = \<lparr>m_size = 2,
     left_set = \<lparr>compare = (<), sentinel = Some 0\<rparr>,
     right_set = \<lparr>compare = (<), sentinel = Some 0\<rparr>\<rparr>"

definition ex_two_b :: "(nat, nat) bimap" where
  "ex_two_b = \<lparr>m_size = 2,
     left_set = \<lparr>compare = (<), sentinel = Some 1\<rparr>,
     right_set = \<lparr>compare = (<), sentinel = Some 1\<rparr>\<rparr>"

text \<open>
  Two containers whose left comparison objects differ: the first compares the numbers,
  the second their last decimal digits.
\<close>

definition ex_mod_memory :: "(nat, nat) memory" where
  "ex_mod_memory = \<lparr>
     left_nodes = [0 \<mapsto> \<lparr>parent = None, left = Some 2, right = None\<rparr>,
                   1 \<mapsto> \<lparr>parent = None, left = Some 3, right = None\<rparr>,
                   2 \<mapsto> \<lparr>parent = Some 0, left = None, right = None\<rparr>,
                   3 \<mapsto> \<lparr>parent = Some 1, left = None, right = None\<rparr>],
     right_nodes = [0 \<mapsto> \<lparr>parent = None, left = Some 2, right = None\<rparr>,
                    1 \<mapsto> \<lparr>parent = None, left = Some 3, right = None\<rparr>,
                    2 \<mapsto> \<lparr>parent = Some 0, left = None, right = None\<rparr>,
                    3 \<mapsto> \<lparr>parent = Some 1, left = None, right = None\<rparr>],
     left_keys = [2 \<mapsto> 1, 3 \<mapsto> 11],
     right_keys = [2 \<mapsto> 1, 3 \<mapsto> 1],
     next_free = 4\<rparr>"

definition ex_mod_a :: "(nat, nat) bimap" where
  "ex_mod_a = \<lparr>m_size = 1,
     left_set = \<lparr>compare = (<), sentinel = Some 0\<rparr>,
     right_set = \<lparr>compare = (<), sentinel = Some 0\<rparr>\<rparr>"

definition ex_mod_b :: "(nat, nat) bimap" where
  "ex_mod_b = \<lparr>m_size = 1,
     left_set = \<lparr>compare = (\<lambda>x y. x mod 10 < y mod 10), sentinel = Some 1\<rparr>,
     right_set = \<lparr>compare = (<), sentinel = Some 1\<rparr>\<rparr>"

subsection \<open>Several containers in one memory\<close>

text \<open>
  The addresses a container owns: its sentinel member and its records.  A part of the
  memory is unchanged by a step when all four fields agree there before and after.
\<close>

definition cells :: "('l, 'r) bimap \<Rightarrow> addr tree \<Rightarrow> addr set" where
  "cells b lt = set_option (sentinel (left_set b)) \<union> set_tree lt"

definition unchanged_on :: "addr set \<Rightarrow> ('l, 'r) memory \<Rightarrow> ('l, 'r) memory \<Rightarrow> bool" where
  "unchanged_on A m m' \<longleftrightarrow>
     (\<forall>x\<in>A. left_nodes m' x = left_nodes m x \<and> right_nodes m' x = right_nodes m x
        \<and> left_keys m' x = left_keys m x \<and> right_keys m' x = right_keys m x)"

text \<open>
  Two containers in one memory with different contents: the first holds \<open>(7, 70)\<close>,
  the second \<open>(1, 10)\<close> and \<open>(2, 20)\<close>.
\<close>

definition ex_assign_memory :: "(nat, nat) memory" where
  "ex_assign_memory = \<lparr>
     left_nodes = [0 \<mapsto> \<lparr>parent = None, left = Some 2, right = None\<rparr>,
                   1 \<mapsto> \<lparr>parent = None, left = Some 3, right = None\<rparr>,
                   2 \<mapsto> \<lparr>parent = Some 0, left = None, right = None\<rparr>,
                   3 \<mapsto> \<lparr>parent = Some 1, left = None, right = Some 4\<rparr>,
                   4 \<mapsto> \<lparr>parent = Some 3, left = None, right = None\<rparr>],
     right_nodes = [0 \<mapsto> \<lparr>parent = None, left = Some 2, right = None\<rparr>,
                    1 \<mapsto> \<lparr>parent = None, left = Some 3, right = None\<rparr>,
                    2 \<mapsto> \<lparr>parent = Some 0, left = None, right = None\<rparr>,
                    3 \<mapsto> \<lparr>parent = Some 1, left = None, right = Some 4\<rparr>,
                    4 \<mapsto> \<lparr>parent = Some 3, left = None, right = None\<rparr>],
     left_keys = [2 \<mapsto> 7, 3 \<mapsto> 1, 4 \<mapsto> 2],
     right_keys = [2 \<mapsto> 70, 3 \<mapsto> 10, 4 \<mapsto> 20],
     next_free = 5\<rparr>"

definition ex_dst :: "(nat, nat) bimap" where
  "ex_dst = \<lparr>m_size = 1,
     left_set = \<lparr>compare = (<), sentinel = Some 0\<rparr>,
     right_set = \<lparr>compare = (<), sentinel = Some 0\<rparr>\<rparr>"

definition ex_src :: "(nat, nat) bimap" where
  "ex_src = \<lparr>m_size = 2,
     left_set = \<lparr>compare = (<), sentinel = Some 1\<rparr>,
     right_set = \<lparr>compare = (<), sentinel = Some 1\<rparr>\<rparr>"

text \<open>What a client observes of a container: whether it is empty, its size, and its pairs
  read off by walking the left view and flipping each cursor.\<close>

partial_function (option) pairs_from ::
  "('l, 'r) memory \<Rightarrow> ('l, 'r) bimap \<Rightarrow> left_iterator \<Rightarrow> ('l \<times> 'r) list option" where
  [code]: "pairs_from m b it =
     (if it \<noteq> end_left b then do {
        l \<leftarrow> deref_left m it;
        r \<leftarrow> deref_right m (flip_left it);
        it1 \<leftarrow> increment_left m it;
        ps \<leftarrow> pairs_from m b it1;
        Some ((l, r) # ps)
      } else Some [])"

definition contents :: "('l, 'r) memory \<Rightarrow> ('l, 'r) bimap \<Rightarrow> ('l \<times> 'r) list option" where
  "contents m b = do { it \<leftarrow> begin_left m b; pairs_from m b it }"

subsection \<open>Reachable worlds\<close>

text \<open>
  The cursors a client obtains by walking a view from \<open>begin\<close> up to, and not including,
  \<open>end\<close>: these are the valid cursors of the view that are not the end cursor.
\<close>

partial_function (option) cursors_from_left ::
  "('l, 'r) memory \<Rightarrow> ('l, 'r) bimap \<Rightarrow> left_iterator \<Rightarrow> left_iterator list option" where
  [code]: "cursors_from_left m b it =
     (if it \<noteq> end_left b then do {
        it1 \<leftarrow> increment_left m it;
        cs \<leftarrow> cursors_from_left m b it1;
        Some (it # cs)
      } else Some [])"

partial_function (option) cursors_from_right ::
  "('l, 'r) memory \<Rightarrow> ('l, 'r) bimap \<Rightarrow> right_iterator \<Rightarrow> right_iterator list option" where
  [code]: "cursors_from_right m b it =
     (if it \<noteq> end_right b then do {
        it1 \<leftarrow> increment_right m it;
        cs \<leftarrow> cursors_from_right m b it1;
        Some (it # cs)
      } else Some [])"

definition left_cursors :: "('l, 'r) memory \<Rightarrow> ('l, 'r) bimap \<Rightarrow> left_iterator list option" where
  "left_cursors m b = do { it \<leftarrow> begin_left m b; cursors_from_left m b it }"

definition right_cursors :: "('l, 'r) memory \<Rightarrow> ('l, 'r) bimap \<Rightarrow> right_iterator list option"
  where
  "right_cursors m b = do { it \<leftarrow> begin_right m b; cursors_from_right m b it }"

text \<open>
  A step from \<open>(m, b)\<close> to \<open>(m', b')\<close> is local to the container \<open>b\<close> when it leaves
  \<open>b'\<close> well formed at the same sentinel, changes no address allocated before the step
  other than those \<open>b\<close> owns, and lets \<open>b'\<close> own only addresses that \<open>b\<close> owned or
  that the step has allocated.
\<close>

definition local_step ::
  "('l, 'r) memory \<Rightarrow> ('l, 'r) bimap \<Rightarrow> addr tree \<Rightarrow>
   ('l, 'r) memory \<Rightarrow> ('l, 'r) bimap \<Rightarrow> addr tree \<Rightarrow> addr tree \<Rightarrow> bool" where
  "local_step m b lt m' b' lt' rt' \<longleftrightarrow>
     bimap_inv m' b' lt' rt'
     \<and> unchanged_on ({..<next_free m} - cells b lt) m m'
     \<and> cells b' lt' \<subseteq> cells b lt \<union> {next_free m..}
     \<and> next_free m \<le> next_free m'
     \<and> sentinel (left_set b') = sentinel (left_set b)"

text \<open>
  A world is a memory together with the set of the containers that are alive in it.  It
  is well formed when every container is, and no two of them own a common address.
\<close>

definition world_inv :: "('l, 'r) memory \<Rightarrow> ('l, 'r) bimap set \<Rightarrow> bool" where
  "world_inv m W \<longleftrightarrow> mem_ok m \<and>
     (\<exists>lt rt. (\<forall>b\<in>W. bimap_inv m b (lt b) (rt b))
        \<and> (\<forall>a\<in>W. \<forall>b\<in>W. a \<noteq> b \<longrightarrow> cells a (lt a) \<inter> cells b (lt b) = {}))"

text \<open>
  The worlds a program reaches: it starts without containers, and constructs, copies,
  destroys, assigns and swaps containers and calls their mutating member functions.
  The cursor handed to \<open>erase_left\<close> is a valid cursor of the left view other than the
  end cursor, that is, a member of \<open>left_cursors\<close>; the range handed to the range form
  runs from a valid cursor to a valid cursor not before it, the end cursor included;
  symmetrically on the right.
\<close>

inductive reachable :: "('l, 'r) memory \<Rightarrow> ('l, 'r) bimap set \<Rightarrow> bool" where
  reach_start: "mem_ok m \<Longrightarrow> reachable m {}"
| reach_ctor: "reachable m W \<Longrightarrow> strict_weak_order cl \<Longrightarrow> strict_weak_order cr \<Longrightarrow>
     bimap_ctor m cl cr = (m', b) \<Longrightarrow> reachable m' (insert b W)"
| reach_copy: "reachable m W \<Longrightarrow> b \<in> W \<Longrightarrow> bimap_copy_ctor m b = Some (m', c) \<Longrightarrow>
     reachable m' (insert c W)"
| reach_dtor: "reachable m W \<Longrightarrow> b \<in> W \<Longrightarrow> bimap_dtor m b = Some m' \<Longrightarrow>
     reachable m' (W - {b})"
| reach_assign: "reachable m W \<Longrightarrow> a \<in> W \<Longrightarrow> b \<in> W \<Longrightarrow>
     assign_bimap m a b = Some (m', a', b') \<Longrightarrow> reachable m' (insert a' (W - {a}))"
| reach_swap: "reachable m W \<Longrightarrow> a \<in> W \<Longrightarrow> b \<in> W \<Longrightarrow>
     swap_bimap m a b = Some (m', a', b') \<Longrightarrow>
     reachable m' (insert a' (insert b' (W - {a, b})))"
| reach_insert: "reachable m W \<Longrightarrow> b \<in> W \<Longrightarrow> insert_bimap m b l r = Some (m', b', it) \<Longrightarrow>
     reachable m' (insert b' (W - {b}))"
| reach_erase_left: "reachable m W \<Longrightarrow> b \<in> W \<Longrightarrow> left_cursors m b = Some cs \<Longrightarrow>
     it \<in> set cs \<Longrightarrow> erase_left m b it = Some (m', b', nxt) \<Longrightarrow>
     reachable m' (insert b' (W - {b}))"
| reach_erase_right: "reachable m W \<Longrightarrow> b \<in> W \<Longrightarrow> right_cursors m b = Some cs' \<Longrightarrow>
     it' \<in> set cs' \<Longrightarrow> erase_right m b it' = Some (m', b', nxt') \<Longrightarrow>
     reachable m' (insert b' (W - {b}))"
| reach_erase_left_key: "reachable m W \<Longrightarrow> b \<in> W \<Longrightarrow>
     erase_left_key m b l = Some (m', b', ok) \<Longrightarrow> reachable m' (insert b' (W - {b}))"
| reach_erase_right_key: "reachable m W \<Longrightarrow> b \<in> W \<Longrightarrow>
     erase_right_key m b r = Some (m', b', ok) \<Longrightarrow> reachable m' (insert b' (W - {b}))"
| reach_erase_left_range: "reachable m W \<Longrightarrow> b \<in> W \<Longrightarrow> left_cursors m b = Some cs \<Longrightarrow>
     i \<le> j \<Longrightarrow> j \<le> length cs \<Longrightarrow>
     erase_left_range m b ((cs @ [end_left b]) ! i) ((cs @ [end_left b]) ! j) = Some (m', b', nxt) \<Longrightarrow>
     reachable m' (insert b' (W - {b}))"
| reach_erase_right_range: "reachable m W \<Longrightarrow> b \<in> W \<Longrightarrow> right_cursors m b = Some cs' \<Longrightarrow>
     i \<le> j \<Longrightarrow> j \<le> length cs' \<Longrightarrow>
     erase_right_range m b ((cs' @ [end_right b]) ! i) ((cs' @ [end_right b]) ! j)
       = Some (m', b', nxt') \<Longrightarrow>
     reachable m' (insert b' (W - {b}))"
| reach_at_left_or_default: "reachable m W \<Longrightarrow> b \<in> W \<Longrightarrow>
     at_left_or_default m b dr kl = Some (m', b', vr) \<Longrightarrow> reachable m' (insert b' (W - {b}))"
| reach_at_right_or_default: "reachable m W \<Longrightarrow> b \<in> W \<Longrightarrow>
     at_right_or_default m b dl kr = Some (m', b', vl) \<Longrightarrow> reachable m' (insert b' (W - {b}))"

section \<open>Correctness of the tree operations\<close>

subsection \<open>Basic facts\<close>

lemma tree_at_cong:
  "(\<And>a. a \<in> set_tree t \<Longrightarrow> nh' a = nh a) \<Longrightarrow> tree_at nh' par p t = tree_at nh par p t"
  by (induction t arbitrary: par p) (auto split: option.splits)

lemma tree_at_None [simp]: "tree_at nh par None t = (t = Leaf)"
  by (cases t) auto

lemma tree_at_Some:
  "tree_at nh par (Some a) t \<Longrightarrow> \<exists>l r n. t = Node l a r \<and> nh a = Some n \<and> parent n = par
      \<and> tree_at nh (Some a) (left n) l \<and> tree_at nh (Some a) (right n) r"
  by (cases t) (auto split: option.splits)

lemma find_append:
  "List.find P (xs @ ys) = (case List.find P xs of None \<Rightarrow> List.find P ys | Some x \<Rightarrow> Some x)"
  by (induction xs) auto

lemma swo_irrefl: "strict_weak_order cmp \<Longrightarrow> \<not> cmp x x"
  by (simp add: strict_weak_order_def)

lemma swo_trans: "strict_weak_order cmp \<Longrightarrow> cmp x y \<Longrightarrow> cmp y z \<Longrightarrow> cmp x z"
  unfolding strict_weak_order_def by blast

lemma swo_asym: "strict_weak_order cmp \<Longrightarrow> cmp x y \<Longrightarrow> \<not> cmp y x"
  unfolding strict_weak_order_def by blast

lemma swo_less_equiv:
  "strict_weak_order cmp \<Longrightarrow> cmp x k \<Longrightarrow> \<not> cmp k key \<Longrightarrow> \<not> cmp key k \<Longrightarrow> cmp x key"
  unfolding strict_weak_order_def by metis

lemma swo_equiv_less:
  "strict_weak_order cmp \<Longrightarrow> cmp k y \<Longrightarrow> \<not> cmp k key \<Longrightarrow> \<not> cmp key k \<Longrightarrow> cmp key y"
  unfolding strict_weak_order_def by metis

lemma deref_Some [simp]: "deref nh (Some a) = nh a"
  by (simp add: deref_def)

lemma deref_None [simp]: "deref nh None = None"
  by (simp add: deref_def)

lemma get_key_Some [simp]: "get_key gk (Some a) = gk a"
  by (simp add: get_key_def)

lemma get_key_None [simp]: "get_key gk None = None"
  by (simp add: get_key_def)

subsection \<open>Search in a subtree\<close>

lemma find_SomeD: "List.find P xs = Some x \<Longrightarrow> x \<in> set xs \<and> P x"
  by (induction xs) (auto split: if_splits)

lemma bound_of_sentinel:
  "sent \<notin> Some ` set xs \<Longrightarrow>
     (bound_of cmp kf key sent xs = sent) = (List.find (\<lambda>a. \<not> cmp (kf a) key) xs = None)"
  by (auto simp: bound_of_def split: option.splits dest!: find_SomeD)

lemma bound_impl_correct:
  assumes "strict_weak_order (compare s)"
  shows "tree_at nh par p t \<Longrightarrow> set_tree t \<subseteq> dom gk \<Longrightarrow>
     sorted_wrt (compare s) (map (key_of gk) (inorder t)) \<Longrightarrow>
     sentinel s \<notin> Some ` set_tree t \<Longrightarrow>
     bound_impl s gk nh key p
       = Some (bound_of (compare s) (key_of gk) key (sentinel s) (inorder t))"
proof (induction t arbitrary: par p)
  case Leaf
  then show ?case by (simp add: bound_impl.simps bound_of_def)
next
  case (Node l a r)
  let ?c = "compare s" and ?kf = "key_of gk"
  from Node.prems(1) obtain n where p: "p = Some a" and n: "nh a = Some n"
    and tl: "tree_at nh (Some a) (left n) l" and tr: "tree_at nh (Some a) (right n) r"
    by (auto split: option.splits)
  from Node.prems(2) obtain k where k: "gk a = Some k" by auto
  have ka: "?kf a = k" by (simp add: key_of_def k)
  have sl: "sorted_wrt ?c (map ?kf (inorder l))" and sr: "sorted_wrt ?c (map ?kf (inorder r))"
    and la: "\<And>x. x \<in> set (inorder l) \<Longrightarrow> ?c (?kf x) k"
    using Node.prems(3) by (auto simp: sorted_wrt_append ka)
  have dl: "set_tree l \<subseteq> dom gk" and dr: "set_tree r \<subseteq> dom gk"
    using Node.prems(2) by auto
  have nl: "sentinel s \<notin> Some ` set_tree l" and nr: "sentinel s \<notin> Some ` set_tree r"
    and na: "sentinel s \<noteq> Some a"
    using Node.prems(4) by auto
  have IHl: "bound_impl s gk nh key (left n)
       = Some (bound_of ?c ?kf key (sentinel s) (inorder l))"
    by (rule Node.IH(1)[OF tl dl sl nl])
  have IHr: "bound_impl s gk nh key (right n)
       = Some (bound_of ?c ?kf key (sentinel s) (inorder r))"
    by (rule Node.IH(2)[OF tr dr sr nr])
  show ?case
  proof (cases "?c k key")
    case True
    have "\<And>x. x \<in> set (inorder l) \<Longrightarrow> ?c (?kf x) key"
      using la True swo_trans[OF assms] by blast
    then have "List.find (\<lambda>a. \<not> ?c (?kf a) key) (inorder l) = None"
      by (simp add: find_None_iff)
    then have "bound_of ?c ?kf key (sentinel s) (inorder (Node l a r))
        = bound_of ?c ?kf key (sentinel s) (inorder r)"
      using True by (simp add: bound_of_def find_append ka)
    then show ?thesis
      using True by (subst bound_impl.simps) (simp add: p n k less_set_def IHr)
  next
    case nless: False
    show ?thesis
    proof (cases "?c key k")
      case True
      have "bound_of ?c ?kf key (sentinel s) (inorder (Node l a r))
        = (if bound_of ?c ?kf key (sentinel s) (inorder l) \<noteq> sentinel s
           then bound_of ?c ?kf key (sentinel s) (inorder l) else Some a)"
        using nless bound_of_sentinel[of "sentinel s" "inorder l" ?c ?kf key] nl
        by (auto simp: bound_of_def find_append ka split: option.splits)
      then show ?thesis
        using True nless
        by (subst bound_impl.simps) (simp add: p n k less_set_def greater_set_def IHl)
    next
      case False
      have "\<And>x. x \<in> set (inorder l) \<Longrightarrow> ?c (?kf x) key"
        using la nless False swo_less_equiv[OF assms] by blast
      then have "List.find (\<lambda>a. \<not> ?c (?kf a) key) (inorder l) = None"
        by (simp add: find_None_iff)
      then have "bound_of ?c ?kf key (sentinel s) (inorder (Node l a r)) = Some a"
        using nless by (simp add: bound_of_def find_append ka)
      then show ?thesis
        using False nless
        by (subst bound_impl.simps) (simp add: p n k less_set_def greater_set_def)
    qed
  qed
qed

subsection \<open>The successor cursor\<close>

lemma next_in_notin: "a \<notin> set xs \<Longrightarrow> next_in xs a = None"
  by (induction xs a rule: next_in.induct) auto

lemma next_in_Cons:
  "next_in (x # xs) a = (if a = x then (case xs of [] \<Rightarrow> None | y # _ \<Rightarrow> Some y) else next_in xs a)"
  by (cases xs) auto

lemma next_in_append_notin: "a \<notin> set xs \<Longrightarrow> next_in (xs @ ys) a = next_in ys a"
  by (induction xs) (auto simp: next_in_Cons split: list.splits)

lemma next_in_append_in:
  "a \<in> set xs \<Longrightarrow> a \<notin> set ys \<Longrightarrow> next_in (xs @ ys) a =
     (case next_in xs a of Some y \<Rightarrow> Some y
      | None \<Rightarrow> (case ys of [] \<Rightarrow> None | y # _ \<Rightarrow> Some y))"
proof (induction xs)
  case Nil
  then show ?case by simp
next
  case (Cons x xs)
  show ?case
  proof (cases "a = x")
    case True
    then show ?thesis by (cases xs) (auto simp: next_in_Cons split: list.splits)
  next
    case False
    with Cons show ?thesis by (auto simp: next_in_Cons)
  qed
qed

lemma next_in_mem: "next_in xs a = Some y \<Longrightarrow> y \<in> set xs"
  by (induction xs a rule: next_in.induct) (auto split: if_splits)

lemma descend_left_tree:
  "tree_at nh par p t \<Longrightarrow> t \<noteq> Leaf \<Longrightarrow> descend_left nh p = Some (Some (hd (inorder t)))"
proof (induction t arbitrary: par p)
  case Leaf
  then show ?case by simp
next
  case (Node l a r)
  from Node.prems(1) obtain n where p: "p = Some a" and n: "nh a = Some n"
    and tl: "tree_at nh (Some a) (left n) l"
    by (auto split: option.splits)
  show ?case
  proof (cases l)
    case Leaf
    with tl have "left n = None" by simp
    then show ?thesis using Leaf by (subst descend_left.simps) (simp add: p n)
  next
    case (Node l1 b l2)
    with tl have ln: "left n \<noteq> None" by auto
    have "descend_left nh (left n) = Some (Some (hd (inorder l)))"
      using Node.IH(1)[OF tl] Node by simp
    moreover have "hd (inorder (tree.Node l a r)) = hd (inorder l)" using Node by (simp add: hd_append)
    ultimately show ?thesis using ln by (subst descend_left.simps) (simp add: p n)
  qed
qed

lemma descend_right_tree:
  "tree_at nh par p t \<Longrightarrow> t \<noteq> Leaf \<Longrightarrow> descend_right nh p = Some (Some (last (inorder t)))"
proof (induction t arbitrary: par p)
  case Leaf
  then show ?case by simp
next
  case (Node l a r)
  from Node.prems(1) obtain n where p: "p = Some a" and n: "nh a = Some n"
    and tr: "tree_at nh (Some a) (right n) r"
    by (auto split: option.splits)
  show ?case
  proof (cases r)
    case Leaf
    with tr have "right n = None" by simp
    then show ?thesis using Leaf by (subst descend_right.simps) (simp add: p n)
  next
    case (Node r1 b r2)
    with tr have rn: "right n \<noteq> None" by auto
    have "descend_right nh (right n) = Some (Some (last (inorder r)))"
      using Node.IH(2)[OF tr] Node by simp
    then show ?thesis using rn Node by (subst descend_right.simps) (simp add: p n)
  qed
qed

lemma tree_at_root_mem:
  "tree_at nh par (Some a) t \<Longrightarrow> a \<in> set_tree t"
  by (cases t) auto

lemma increment_subtree:
  "tree_at nh par p t \<Longrightarrow> distinct (inorder t) \<Longrightarrow> x \<in> set_tree t \<Longrightarrow>
     (case next_in (inorder t) x of
        Some y \<Rightarrow> increment nh (Some x) = Some (Some y)
      | None \<Rightarrow> (\<exists>n. nh x = Some n \<and> right n = None)
                 \<and> ascend_from_right nh (Some x) = ascend_from_right nh p)"
proof (induction t arbitrary: par p)
  case Leaf
  then show ?case by simp
next
  case (Node l a r)
  from Node.prems(1) obtain n where p: "p = Some a" and n: "nh a = Some n"
    and tl: "tree_at nh (Some a) (left n) l" and tr: "tree_at nh (Some a) (right n) r"
    by (auto split: option.splits)
  from Node.prems(2) have dl: "distinct (inorder l)" and dr: "distinct (inorder r)"
    and al: "a \<notin> set (inorder l)" and ar: "a \<notin> set (inorder r)"
    and lr: "set (inorder l) \<inter> set (inorder r) = {}"
    by auto
  consider (root) "x = a" | (inl) "x \<in> set_tree l" | (inr) "x \<in> set_tree r" "x \<noteq> a" "x \<notin> set_tree l"
    using Node.prems(3) by auto
  then show ?case
  proof cases
    case root
    have nx: "next_in (inorder (Node l a r)) x = (case inorder r of [] \<Rightarrow> None | y # _ \<Rightarrow> Some y)"
      using al root by (simp add: next_in_append_notin next_in_Cons)
    show ?thesis
    proof (cases r)
      case Leaf
      with tr have "right n = None" by simp
      then show ?thesis using nx Leaf root p n by simp
    next
      case (Node r1 b r2)
      with tr have rn: "right n \<noteq> None" by auto
      have "descend_left nh (right n) = Some (Some (hd (inorder r)))"
        using descend_left_tree[OF tr] Node by simp
      moreover have "inorder r \<noteq> []" using Node by simp
      ultimately show ?thesis using nx rn root n
        by (auto simp: increment_def split: list.splits)
    qed
  next
    case inl
    then have xa: "x \<noteq> a" and xr: "x \<notin> set (inorder r)" using al lr by auto
    have nx: "next_in (inorder (Node l a r)) x =
        (case next_in (inorder l) x of Some y \<Rightarrow> Some y | None \<Rightarrow> Some a)"
      using inl xa xr next_in_append_in[of x "inorder l" "a # inorder r"]
      by (simp split: option.splits)
    note IH = Node.IH(1)[OF tl dl inl]
    show ?thesis
    proof (cases "next_in (inorder l) x")
      case (Some y)
      then show ?thesis using IH nx by simp
    next
      case None
      with IH obtain nx' where nxx: "nh x = Some nx'" "right nx' = None"
        and asc: "ascend_from_right nh (Some x) = ascend_from_right nh (left n)"
        by auto
      from inl tl obtain b where b: "left n = Some b" by (cases l) auto
      with tl obtain nb where nb: "nh b = Some nb" "parent nb = Some a"
        by (cases l) (auto split: option.splits)
      have bl: "b \<in> set_tree l" using tl b tree_at_root_mem by metis
      have "right n \<noteq> Some b"
      proof
        assume "right n = Some b"
        with tr have "b \<in> set_tree r" using tree_at_root_mem by metis
        with bl lr show False by auto
      qed
      then have "ascend_from_right nh (Some b) = Some (Some b)"
        by (subst ascend_from_right.simps) (simp add: nb n)
      then show ?thesis using nx None asc b nb nxx
        by (simp add: increment_def)
    qed
  next
    case inr
    have nx: "next_in (inorder (Node l a r)) x = next_in (inorder r) x"
      using inr by (simp add: next_in_append_notin next_in_Cons)
    note IH = Node.IH(2)[OF tr dr inr(1)]
    show ?thesis
    proof (cases "next_in (inorder r) x")
      case (Some y)
      then show ?thesis using IH nx by simp
    next
      case None
      with IH obtain nx' where nxx: "nh x = Some nx'" "right nx' = None"
        and asc: "ascend_from_right nh (Some x) = ascend_from_right nh (right n)"
        by auto
      from inr tr obtain b where b: "right n = Some b" by (cases r) auto
      with tr obtain nb where nb: "nh b = Some nb" "parent nb = Some a"
        by (cases r) (auto split: option.splits)
      have "ascend_from_right nh (Some b) = ascend_from_right nh (Some a)"
        by (subst ascend_from_right.simps) (simp add: nb n b)
      then show ?thesis using nx None asc b nxx p by simp
    qed
  qed
qed

subsection \<open>Search, begin and increment under the invariant\<close>

lemma set_invD:
  assumes "set_inv s gk nh t"
  obtains sa ns where "sentinel s = Some sa" "nh sa = Some ns" "parent ns = None"
    "right ns = None" "tree_at nh (Some sa) (left ns) t" "sa \<notin> set_tree t"
    "distinct (inorder t)" "set_tree t \<subseteq> dom gk"
    "sorted_wrt (compare s) (map (key_of gk) (inorder t))" "strict_weak_order (compare s)"
  using assms unfolding set_inv_def by (auto split: option.splits)

lemma find_Some_split:
  "List.find P xs = Some a \<Longrightarrow> \<exists>pre post. xs = pre @ a # post \<and> P a \<and> (\<forall>x\<in>set pre. \<not> P x)"
proof (induction xs)
  case Nil
  then show ?case by simp
next
  case (Cons x xs)
  show ?case
  proof (cases "P x")
    case True
    with Cons.prems have "x = a" by simp
    with True show ?thesis by (intro exI[of _ "[]"] exI[of _ xs]) auto
  next
    case False
    with Cons obtain pre post where "xs = pre @ a # post" "P a" "\<forall>x\<in>set pre. \<not> P x" by auto
    with False show ?thesis by (intro exI[of _ "x # pre"] exI[of _ post]) auto
  qed
qed

lemma lower_bound_correct:
  assumes "set_inv s gk nh t"
  shows "lower_bound s gk nh key
           = Some (bound_of (compare s) (key_of gk) key (sentinel s) (inorder t))"
proof -
  from assms obtain sa ns where s: "sentinel s = Some sa" "nh sa = Some ns"
    "tree_at nh (Some sa) (left ns) t" "sa \<notin> set_tree t" "set_tree t \<subseteq> dom gk"
    "sorted_wrt (compare s) (map (key_of gk) (inorder t))" "strict_weak_order (compare s)"
    by (rule set_invD)
  have "sentinel s \<notin> Some ` set_tree t" using s by auto
  from bound_impl_correct[OF s(7) s(3) s(5) s(6) this]
  show ?thesis by (simp add: lower_bound_def s)
qed

lemma increment_correct:
  assumes "set_inv s gk nh t" "sentinel s = Some sa" "x \<in> set_tree t"
  shows "\<exists>y. next_in (inorder t @ [sa]) x = Some y \<and> increment nh (Some x) = Some (Some y)"
proof -
  from assms(1) obtain sa' ns where s: "sentinel s = Some sa'" "nh sa' = Some ns" "parent ns = None"
    "right ns = None" "tree_at nh (Some sa') (left ns) t" "sa' \<notin> set_tree t"
    "distinct (inorder t)"
    by (rule set_invD)
  have sa: "sa' = sa" using s assms(2) by simp
  have T: "tree_at nh None (Some sa) (Node t sa Leaf)" using s sa by simp
  have d: "distinct (inorder (Node t sa Leaf))" using s sa by simp
  have x: "x \<in> set_tree (Node t sa Leaf)" using assms(3) by simp
  have "x \<noteq> sa" using assms(3) s sa by auto
  then have "next_in (inorder (Node t sa Leaf)) x \<noteq> None"
    using assms(3) next_in_append_in[of x "inorder t" "[sa]"] by (auto split: option.splits)
  then obtain y where y: "next_in (inorder (Node t sa Leaf)) x = Some y" by auto
  with increment_subtree[OF T d x] show ?thesis by auto
qed

lemma begin_set_correct:
  assumes "set_inv s gk nh t" "sentinel s = Some sa"
  shows "begin_set s nh = Some (Some (hd (inorder t @ [sa])))"
proof -
  from assms(1) obtain sa' ns where s: "sentinel s = Some sa'" "nh sa' = Some ns" "parent ns = None"
    "right ns = None" "tree_at nh (Some sa') (left ns) t"
    by (rule set_invD)
  have sa: "sa' = sa" using s assms(2) by simp
  have T: "tree_at nh None (Some sa) (Node t sa Leaf)" using s sa by simp
  from descend_left_tree[OF T] show ?thesis by (simp add: begin_set_def assms(2))
qed

lemma sorted_wrt_split:
  "sorted_wrt R (map f (pre @ a # post)) \<Longrightarrow> (\<forall>z\<in>set post. R (f a) (f z))"
  by (simp add: sorted_wrt_append)

lemma upper_bound_correct:
  assumes "set_inv s gk nh t"
  shows "upper_bound s gk nh key
           = Some (upper_of (compare s) (key_of gk) key (sentinel s) (inorder t))"
proof -
  let ?c = "compare s" and ?kf = "key_of gk"
  from assms obtain sa ns where s: "sentinel s = Some sa" "nh sa = Some ns"
    "tree_at nh (Some sa) (left ns) t" "sa \<notin> set_tree t" "set_tree t \<subseteq> dom gk"
    "sorted_wrt ?c (map ?kf (inorder t))" "strict_weak_order ?c" "distinct (inorder t)"
    by (rule set_invD)
  note swo = s(7)
  have lb: "lower_bound s gk nh key = Some (bound_of ?c ?kf key (sentinel s) (inorder t))"
    by (rule lower_bound_correct[OF assms])
  show ?thesis
  proof (cases "List.find (\<lambda>a. \<not> ?c (?kf a) key) (inorder t)")
    case None
    then have "\<forall>x\<in>set (inorder t). ?c (?kf x) key" by (auto simp: find_None_iff)
    then have "\<forall>x\<in>set (inorder t). \<not> ?c key (?kf x)" using swo_asym[OF swo] by blast
    then have "List.find (\<lambda>a. ?c key (?kf a)) (inorder t) = None" by (auto simp: find_None_iff)
    then show ?thesis using None lb
      by (simp add: upper_bound_def bound_of_def upper_of_def end_set_def)
  next
    case (Some a)
    from find_Some_split[OF Some] obtain pre post where sp: "inorder t = pre @ a # post"
      "\<not> ?c (?kf a) key" "\<forall>x\<in>set pre. ?c (?kf x) key" by auto
    have a_in: "a \<in> set_tree t" using sp(1) by (metis in_set_conv_decomp set_inorder)
    then obtain k where k: "gk a = Some k" using s(5) by auto
    have ka: "?kf a = k" by (simp add: key_of_def k)
    have ne: "Some a \<noteq> end_set s" using a_in s by (auto simp: end_set_def)
    have pre: "\<forall>x\<in>set pre. \<not> ?c key (?kf x)" using sp(3) swo_asym[OF swo] by blast
    have post: "\<forall>z\<in>set post. ?c (?kf a) (?kf z)"
      using s(6) sp(1) sorted_wrt_split[of ?c ?kf pre a post] by simp
    show ?thesis
    proof (cases "?c key k")
      case True
      then have "List.find (\<lambda>a. ?c key (?kf a)) (inorder t) = Some a"
        using pre sp(1) ka by (simp add: find_append find_None_iff[THEN iffD2])
      then show ?thesis using True Some lb ne k swo_asym[OF swo True]
        by (simp add: upper_bound_def bound_of_def upper_of_def equals_set_def
            greater_set_def less_set_def)
    next
      case False
      then have eq: "equals_set s key k" using sp(2) ka
        by (simp add: equals_set_def greater_set_def less_set_def)
      have "\<forall>z\<in>set post. ?c key (?kf z)"
        using post swo_equiv_less[OF swo _ sp(2)] False ka by blast
      then have fp: "List.find (\<lambda>a. ?c key (?kf a)) post = (case post of [] \<Rightarrow> None | z # _ \<Rightarrow> Some z)"
        by (cases post) auto
      have "List.find (\<lambda>a. ?c key (?kf a)) pre = None" using pre by (simp add: find_None_iff)
      then have up: "upper_of ?c ?kf key (sentinel s) (inorder t)
           = (case post of [] \<Rightarrow> Some sa | z # _ \<Rightarrow> Some z)"
        using False ka fp s(1) by (simp add: upper_of_def sp(1) find_append split: list.splits)
      from increment_correct[OF assms s(1) a_in] obtain y where
        y: "next_in (inorder t @ [sa]) a = Some y" "increment nh (Some a) = Some (Some y)" by auto
      have "a \<notin> set pre" using s(8) sp(1) by auto
      then have "next_in (inorder t @ [sa]) a = (case post of [] \<Rightarrow> Some sa | z # _ \<Rightarrow> Some z)"
        by (simp add: sp(1) next_in_append_notin next_in_Cons split: list.splits)
      with y up have "upper_of ?c ?kf key (sentinel s) (inorder t) = Some y"
        by (auto split: list.splits)
      then show ?thesis using eq Some lb ne k y
        by (simp add: upper_bound_def bound_of_def)
    qed
  qed
qed

lemma find_set_correct:
  assumes "set_inv s gk nh t"
  shows "find_set s gk nh key
           = Some (find_of (compare s) (key_of gk) key (sentinel s) (inorder t))"
proof -
  let ?c = "compare s" and ?kf = "key_of gk"
  from assms obtain sa ns where s: "sentinel s = Some sa" "nh sa = Some ns"
    "tree_at nh (Some sa) (left ns) t" "sa \<notin> set_tree t" "set_tree t \<subseteq> dom gk"
    "sorted_wrt ?c (map ?kf (inorder t))" "strict_weak_order ?c" "distinct (inorder t)"
    by (rule set_invD)
  note swo = s(7)
  have lb: "lower_bound s gk nh key = Some (bound_of ?c ?kf key (sentinel s) (inorder t))"
    by (rule lower_bound_correct[OF assms])
  show ?thesis
  proof (cases "List.find (\<lambda>a. \<not> ?c (?kf a) key) (inorder t)")
    case None
    then have "\<forall>x\<in>set (inorder t). ?c (?kf x) key" by (auto simp: find_None_iff)
    then have "List.find (\<lambda>a. \<not> ?c (?kf a) key \<and> \<not> ?c key (?kf a)) (inorder t) = None"
      by (auto simp: find_None_iff)
    then show ?thesis using None lb
      by (simp add: find_set_def bound_of_def find_of_def end_set_def)
  next
    case (Some a)
    from find_Some_split[OF Some] obtain pre post where sp: "inorder t = pre @ a # post"
      "\<not> ?c (?kf a) key" "\<forall>x\<in>set pre. ?c (?kf x) key" by auto
    have a_in: "a \<in> set_tree t" using sp(1) by (metis in_set_conv_decomp set_inorder)
    then obtain k where k: "gk a = Some k" using s(5) by auto
    have ka: "?kf a = k" by (simp add: key_of_def k)
    have ne: "Some a \<noteq> end_set s" using a_in s by (auto simp: end_set_def)
    have pre: "List.find (\<lambda>a. \<not> ?c (?kf a) key \<and> \<not> ?c key (?kf a)) pre = None"
      using sp(3) by (simp add: find_None_iff)
    have post: "\<forall>z\<in>set post. ?c (?kf a) (?kf z)"
      using s(6) sp(1) sorted_wrt_split[of ?c ?kf pre a post] by simp
    show ?thesis
    proof (cases "?c key k")
      case True
      then have "\<forall>z\<in>set post. ?c key (?kf z)" using post swo_trans[OF swo] ka by blast
      then have "List.find (\<lambda>a. \<not> ?c (?kf a) key \<and> \<not> ?c key (?kf a)) post = None"
        by (simp add: find_None_iff)
      then have "find_of ?c ?kf key (sentinel s) (inorder t) = sentinel s"
        using pre True ka by (simp add: find_of_def sp(1) find_append)
      then show ?thesis using True Some lb ne k
        by (simp add: find_set_def bound_of_def equals_set_def greater_set_def less_set_def
            end_set_def)
    next
      case False
      then have eq: "equals_set s key k" using sp(2) ka
        by (simp add: equals_set_def greater_set_def less_set_def)
      have "find_of ?c ?kf key (sentinel s) (inorder t) = Some a"
        using pre False sp(2) ka by (simp add: find_of_def sp(1) find_append)
      then show ?thesis using eq Some lb ne k
        by (simp add: find_set_def bound_of_def)
    qed
  qed
qed

subsection \<open>Insertion into a tree\<close>

lemma set_tree_ins_tree [simp]: "set_tree (ins_tree cmp kf obj t) = insert obj (set_tree t)"
  by (induction t) auto

lemma distinct_ins_tree:
  "distinct (inorder t) \<Longrightarrow> obj \<notin> set_tree t \<Longrightarrow> distinct (inorder (ins_tree cmp kf obj t))"
proof (induction t)
  case Leaf
  then show ?case by simp
next
  case (Node l a r)
  have "set (inorder (ins_tree cmp kf obj l)) = insert obj (set (inorder l))"
    "set (inorder (ins_tree cmp kf obj r)) = insert obj (set (inorder r))"
    using set_tree_ins_tree[of cmp kf obj] by (simp_all only: set_inorder)
  with Node show ?case by auto
qed

lemma sorted_ins_tree:
  assumes "strict_weak_order cmp"
  shows "sorted_wrt cmp (map kf (inorder t)) \<Longrightarrow>
     \<forall>a\<in>set_tree t. cmp (kf obj) (kf a) \<or> cmp (kf a) (kf obj) \<Longrightarrow>
     sorted_wrt cmp (map kf (inorder (ins_tree cmp kf obj t)))"
proof (induction t)
  case Leaf
  then show ?case by simp
next
  case (Node l a r)
  have sets: "set (inorder (ins_tree cmp kf obj l)) = insert obj (set (inorder l))"
    "set (inorder (ins_tree cmp kf obj r)) = insert obj (set (inorder r))"
    using set_tree_ins_tree[of cmp kf obj] by (simp_all only: set_inorder)
  from Node.prems(1) have sl: "sorted_wrt cmp (map kf (inorder l))"
    and sr: "sorted_wrt cmp (map kf (inorder r))"
    and la: "\<forall>x\<in>set (inorder l). cmp (kf x) (kf a)"
    and ar: "\<forall>z\<in>set (inorder r). cmp (kf a) (kf z)"
    and lr: "\<forall>x\<in>set (inorder l). \<forall>z\<in>set (inorder r). cmp (kf x) (kf z)"
    by (auto simp: sorted_wrt_append)
  show ?case
  proof (cases "cmp (kf obj) (kf a)")
    case True
    have "sorted_wrt cmp (map kf (inorder (ins_tree cmp kf obj l)))"
      using Node.IH(1)[OF sl] Node.prems(2) by auto
    moreover have "\<forall>z\<in>set (inorder r). cmp (kf obj) (kf z)"
      using True ar swo_trans[OF assms] by blast
    ultimately show ?thesis using True sr la ar lr sets
      by (auto simp: sorted_wrt_append)
  next
    case False
    then have ao: "cmp (kf a) (kf obj)" using Node.prems(2) by auto
    have "sorted_wrt cmp (map kf (inorder (ins_tree cmp kf obj r)))"
      using Node.IH(2)[OF sr] Node.prems(2) by auto
    moreover have "\<forall>x\<in>set (inorder l). cmp (kf x) (kf obj)"
      using ao la swo_trans[OF assms] by blast
    ultimately show ?thesis using False ao sl la ar lr sets
      by (auto simp: sorted_wrt_append)
  qed
qed

lemma set_left_Some [simp]:
  "nh a = Some n \<Longrightarrow> set_left nh (Some a) v = Some (nh(a \<mapsto> n\<lparr>left := v\<rparr>))"
  by (simp add: set_left_def)

lemma set_right_Some [simp]:
  "nh a = Some n \<Longrightarrow> set_right nh (Some a) v = Some (nh(a \<mapsto> n\<lparr>right := v\<rparr>))"
  by (simp add: set_right_def)

lemma set_parent_Some [simp]:
  "nh a = Some n \<Longrightarrow> set_parent nh (Some a) v = Some (nh(a \<mapsto> n\<lparr>parent := v\<rparr>))"
  by (simp add: set_parent_def)

lemma tree_at_reparent:
  assumes "tree_at nh par (Some a) t" "distinct (inorder t)" "nh a = Some n"
  shows "tree_at (nh(a \<mapsto> n\<lparr>parent := par'\<rparr>)) par' (Some a) t"
proof -
  from assms(1) obtain l r where t: "t = Node l a r" by (cases t) auto
  let ?nh = "nh(a \<mapsto> n\<lparr>parent := par'\<rparr>)"
  from assms t have tl: "tree_at nh (Some a) (left n) l" and tr: "tree_at nh (Some a) (right n) r"
    and al: "a \<notin> set_tree l" and ar: "a \<notin> set_tree r"
    by auto
  have "tree_at ?nh (Some a) (left n) l"
    using tl al by (subst tree_at_cong[of l ?nh nh]) auto
  moreover have "tree_at ?nh (Some a) (right n) r"
    using tr ar by (subst tree_at_cong[of r ?nh nh]) auto
  ultimately show ?thesis by (simp add: t)
qed

lemma add_to_tree_correct:
  assumes obj: "gk obj = Some ko" "nh obj = Some no" "left no = None" "right no = None"
  shows "tree_at nh par p t \<Longrightarrow> distinct (inorder t) \<Longrightarrow> obj \<notin> set_tree t \<Longrightarrow>
     set_tree t \<subseteq> dom gk \<Longrightarrow>
     \<exists>nh' rt n'. add_to_tree s gk obj p nh = Some (Some rt, nh') \<and> nh' rt = Some n'
        \<and> tree_at nh' (parent n') (Some rt) (ins_tree (compare s) (key_of gk) obj t)
        \<and> (\<forall>a. a \<notin> set_tree t \<longrightarrow> a \<noteq> obj \<longrightarrow> nh' a = nh a)
        \<and> dom nh' = dom nh
        \<and> (case p of None \<Rightarrow> rt = obj | Some a \<Rightarrow> rt = a \<and> parent n' = par)"
proof (induction t arbitrary: par p)
  case Leaf
  then have "p = None" by simp
  then show ?case using obj by (subst add_to_tree.simps) simp
next
  case (Node l a r)
  let ?c = "compare s" and ?kf = "key_of gk"
  from Node.prems(1) obtain n where p: "p = Some a" and n: "nh a = Some n" "parent n = par"
    and tl: "tree_at nh (Some a) (left n) l" and tr: "tree_at nh (Some a) (right n) r"
    by (auto split: option.splits)
  from Node.prems(2) have dl: "distinct (inorder l)" and dr: "distinct (inorder r)"
    and al: "a \<notin> set_tree l" and ar: "a \<notin> set_tree r"
    and lr: "set_tree l \<inter> set_tree r = {}"
    by auto
  from Node.prems(3) have ol: "obj \<notin> set_tree l" and or: "obj \<notin> set_tree r" and oa: "obj \<noteq> a"
    by auto
  from Node.prems(4) obtain ka where ka: "gk a = Some ka" and gl: "set_tree l \<subseteq> dom gk"
    and gr: "set_tree r \<subseteq> dom gk" by auto
  have kfs: "?kf obj = ko" "?kf a = ka" by (simp_all add: key_of_def obj ka)
  show ?case
  proof (cases "?c ko ka")
    case True
    from Node.IH(1)[OF tl dl ol gl] obtain nh1 rt n1 where
      r: "add_to_tree s gk obj (left n) nh = Some (Some rt, nh1)" "nh1 rt = Some n1"
      and t1: "tree_at nh1 (parent n1) (Some rt) (ins_tree ?c ?kf obj l)"
      and fr: "\<And>x. x \<notin> set_tree l \<Longrightarrow> x \<noteq> obj \<Longrightarrow> nh1 x = nh x"
      and dm: "dom nh1 = dom nh"
      by blast
    have rt_in: "rt \<in> insert obj (set_tree l)"
      using tree_at_root_mem[OF t1] by simp
    then have rta: "rt \<noteq> a" and rtr: "rt \<notin> set_tree r" using al oa or lr by auto
    have n1a: "nh1 a = Some n" using fr[OF al] oa n by simp
    let ?n' = "n\<lparr>left := Some rt\<rparr>"
    let ?nh2 = "nh1(a \<mapsto> ?n')"
    let ?nh3 = "?nh2(rt \<mapsto> n1\<lparr>parent := Some a\<rparr>)"
    have res: "add_to_tree s gk obj p nh = Some (Some a, ?nh3)"
      using True rta
      by (subst add_to_tree.simps) (simp add: p obj ka less_set_def n r n1a)
    have d1: "distinct (inorder (ins_tree ?c ?kf obj l))"
      by (rule distinct_ins_tree[OF dl ol])
    have "tree_at (nh1(rt \<mapsto> n1\<lparr>parent := Some a\<rparr>)) (Some a) (Some rt) (ins_tree ?c ?kf obj l)"
      by (rule tree_at_reparent[OF t1 d1 r(2)])
    then have tl3: "tree_at ?nh3 (Some a) (Some rt) (ins_tree ?c ?kf obj l)"
      using al oa
      by (subst tree_at_cong[of _ ?nh3 "nh1(rt \<mapsto> n1\<lparr>parent := Some a\<rparr>)"]) auto
    have tr3: "tree_at ?nh3 (Some a) (right n) r"
      using tr ar rtr fr or lr
      by (subst tree_at_cong[of r ?nh3 nh]) auto
    have "tree_at ?nh3 (parent ?n') (Some a) (ins_tree ?c ?kf obj (Node l a r))"
      using True tl3 tr3 rta n by (simp add: kfs)
    moreover have "?nh3 a = Some ?n'" using rta by simp
    moreover have "\<forall>x. x \<notin> set_tree (Node l a r) \<longrightarrow> x \<noteq> obj \<longrightarrow> ?nh3 x = nh x"
      using fr rt_in by auto
    moreover have "dom ?nh3 = dom nh" using dm r(2) n1a by auto
    ultimately show ?thesis using res n by (simp add: p)
  next
    case False
    from Node.IH(2)[OF tr dr or gr] obtain nh1 rt n1 where
      r: "add_to_tree s gk obj (right n) nh = Some (Some rt, nh1)" "nh1 rt = Some n1"
      and t1: "tree_at nh1 (parent n1) (Some rt) (ins_tree ?c ?kf obj r)"
      and fr: "\<And>x. x \<notin> set_tree r \<Longrightarrow> x \<noteq> obj \<Longrightarrow> nh1 x = nh x"
      and dm: "dom nh1 = dom nh"
      by blast
    have rt_in: "rt \<in> insert obj (set_tree r)"
      using tree_at_root_mem[OF t1] by simp
    then have rta: "rt \<noteq> a" and rtl: "rt \<notin> set_tree l" using ar oa ol lr by auto
    have n1a: "nh1 a = Some n" using fr[OF ar] oa n by simp
    let ?n' = "n\<lparr>right := Some rt\<rparr>"
    let ?nh2 = "nh1(a \<mapsto> ?n')"
    let ?nh3 = "?nh2(rt \<mapsto> n1\<lparr>parent := Some a\<rparr>)"
    have res: "add_to_tree s gk obj p nh = Some (Some a, ?nh3)"
      using False rta
      by (subst add_to_tree.simps) (simp add: p obj ka less_set_def n r n1a)
    have d1: "distinct (inorder (ins_tree ?c ?kf obj r))"
      by (rule distinct_ins_tree[OF dr or])
    have "tree_at (nh1(rt \<mapsto> n1\<lparr>parent := Some a\<rparr>)) (Some a) (Some rt) (ins_tree ?c ?kf obj r)"
      by (rule tree_at_reparent[OF t1 d1 r(2)])
    then have tr3: "tree_at ?nh3 (Some a) (Some rt) (ins_tree ?c ?kf obj r)"
      using ar oa
      by (subst tree_at_cong[of _ ?nh3 "nh1(rt \<mapsto> n1\<lparr>parent := Some a\<rparr>)"]) auto
    have tl3: "tree_at ?nh3 (Some a) (left n) l"
      using tl al rtl fr ol lr
      by (subst tree_at_cong[of l ?nh3 nh]) auto
    have "tree_at ?nh3 (parent ?n') (Some a) (ins_tree ?c ?kf obj (Node l a r))"
      using False tl3 tr3 rta n by (simp add: kfs)
    moreover have "?nh3 a = Some ?n'" using rta by simp
    moreover have "\<forall>x. x \<notin> set_tree (Node l a r) \<longrightarrow> x \<noteq> obj \<longrightarrow> ?nh3 x = nh x"
      using fr rt_in by auto
    moreover have "dom ?nh3 = dom nh" using dm r(2) n1a by auto
    ultimately show ?thesis using res n by (simp add: p)
  qed
qed

lemma insert_set_correct:
  assumes inv: "set_inv s gk nh t" and sa: "sentinel s = Some sa"
    and obj: "gk obj = Some ko" "nh obj = Some no" "left no = None" "right no = None"
    and fresh: "obj \<notin> set_tree t" "obj \<noteq> sa"
    and ne: "\<forall>a\<in>set_tree t. compare s ko (key_of gk a) \<or> compare s (key_of gk a) ko"
  shows "\<exists>nh'. insert_set s gk nh obj True = Some (Some obj, nh')
     \<and> set_inv s gk nh' (ins_tree (compare s) (key_of gk) obj t)
     \<and> (\<forall>a. a \<notin> set_tree t \<longrightarrow> a \<noteq> obj \<longrightarrow> a \<noteq> sa \<longrightarrow> nh' a = nh a)
     \<and> dom nh' = dom nh"
proof -
  let ?c = "compare s" and ?kf = "key_of gk"
  let ?t' = "ins_tree ?c ?kf obj t"
  from inv obtain sa' ns where s: "sentinel s = Some sa'" "nh sa' = Some ns" "parent ns = None"
    "right ns = None" "tree_at nh (Some sa') (left ns) t" "sa' \<notin> set_tree t"
    "distinct (inorder t)" "set_tree t \<subseteq> dom gk"
    "sorted_wrt ?c (map ?kf (inorder t))" "strict_weak_order ?c"
    by (rule set_invD)
  have [simp]: "sa' = sa" using s sa by simp
  from add_to_tree_correct[OF obj s(5) s(7) fresh(1) s(8), of s] obtain nh1 rt n1 where
    r: "add_to_tree s gk obj (left ns) nh = Some (Some rt, nh1)" "nh1 rt = Some n1"
    and t1: "tree_at nh1 (parent n1) (Some rt) ?t'"
    and fr: "\<And>x. x \<notin> set_tree t \<Longrightarrow> x \<noteq> obj \<Longrightarrow> nh1 x = nh x"
    and dm: "dom nh1 = dom nh"
    by blast
  have rt_in: "rt \<in> insert obj (set_tree t)" using tree_at_root_mem[OF t1] by simp
  then have rts: "rt \<noteq> sa" using s(6) fresh(2) by auto
  have n1s: "nh1 sa = Some ns" using fr[of sa] s fresh(2) by simp
  let ?ns' = "ns\<lparr>left := Some rt\<rparr>"
  let ?nh3 = "nh1(sa \<mapsto> ?ns', rt \<mapsto> n1\<lparr>parent := Some sa\<rparr>)"
  have res: "insert_set s gk nh obj True = Some (Some obj, ?nh3)"
    using rts s(2) by (simp add: insert_set_def sa r n1s)
  have d1: "distinct (inorder ?t')" by (rule distinct_ins_tree[OF s(7) fresh(1)])
  have "tree_at (nh1(rt \<mapsto> n1\<lparr>parent := Some sa\<rparr>)) (Some sa) (Some rt) ?t'"
    by (rule tree_at_reparent[OF t1 d1 r(2)])
  then have t3: "tree_at ?nh3 (Some sa) (Some rt) ?t'"
    using s(6) fresh(2)
    by (subst tree_at_cong[of _ ?nh3 "nh1(rt \<mapsto> n1\<lparr>parent := Some sa\<rparr>)"]) auto
  have "?kf obj = ko" by (simp add: key_of_def obj)
  then have sorted: "sorted_wrt ?c (map ?kf (inorder ?t'))"
    using sorted_ins_tree[OF s(10) s(9), of obj] ne by simp
  have "set_inv s gk ?nh3 ?t'"
    using t3 rts s(3,4,6,8,10) fresh obj(1) d1 sorted
    by (auto simp: set_inv_def sa)
  moreover have "\<forall>a. a \<notin> set_tree t \<longrightarrow> a \<noteq> obj \<longrightarrow> a \<noteq> sa \<longrightarrow> ?nh3 a = nh a"
    using fr rt_in by auto
  moreover have "dom ?nh3 = dom nh" using dm r(2) n1s by auto
  ultimately show ?thesis using res by blast
qed

subsection \<open>Removal from a tree\<close>

lemma root_ptr_simps [simp]: "root_ptr Leaf = None" "root_ptr (Node l a r) = Some a"
  by (simp_all add: root_ptr_def)

lemma tree_at_root_ptr: "tree_at nh par p t \<Longrightarrow> p = root_ptr t"
  by (cases t) auto

lemma split_max_inorder:
  "t \<noteq> Leaf \<Longrightarrow> split_max t = (t', m) \<Longrightarrow> inorder t' @ [m] = inorder t"
  by (induction t arbitrary: t' m rule: split_max.induct) (auto split: prod.splits if_splits)

lemma split_max_last:
  "t \<noteq> Leaf \<Longrightarrow> snd (split_max t) = last (inorder t)"
  using split_max_inorder[of t "fst (split_max t)" "snd (split_max t)"]
  by (metis last_snoc prod.collapse)

lemma inorder_del_root:
  "inorder (del_root (Node l a r)) = inorder l @ inorder r"
  using split_max_inorder[of l] by (auto split: prod.splits)

lemma inorder_erase_tree:
  "distinct (inorder t) \<Longrightarrow> inorder (erase_tree x t) = filter (\<lambda>y. y \<noteq> x) (inorder t)"
proof (induction t)
  case Leaf
  then show ?case by simp
next
  case (Node l a r)
  show ?case
  proof (cases "a = x")
    case True
    then have "x \<notin> set (inorder l)" "x \<notin> set (inorder r)" using Node.prems by auto
    then have "filter (\<lambda>y. y \<noteq> x) (inorder l) = inorder l"
      "filter (\<lambda>y. y \<noteq> x) (inorder r) = inorder r"
      by (auto simp: filter_id_conv)
    then show ?thesis using True inorder_del_root[of l a r] by simp
  next
    case False
    then show ?thesis using Node by simp
  qed
qed

lemma set_child_correct:
  assumes x: "nh x = Some nx" "parent nx = Some q" and q: "nh q = Some nq" "q \<noteq> x"
    and slot: "if is_left then left nq = Some x else left nq \<noteq> Some x"
    and u: "tree_at nh par' pnew u" "distinct (inorder u)" "q \<notin> set_tree u"
  shows "\<exists>nh1. set_child nh (Some x) pnew = Some nh1
     \<and> nh1 q = Some (if is_left then nq\<lparr>left := pnew\<rparr> else nq\<lparr>right := pnew\<rparr>)
     \<and> tree_at nh1 (Some q) pnew u
     \<and> (\<forall>y. y \<noteq> q \<longrightarrow> Some y \<noteq> pnew \<longrightarrow> nh1 y = nh y)
     \<and> dom nh1 = dom nh"
proof (cases u)
  case Leaf
  with u have "pnew = None" by simp
  then show ?thesis using x q slot Leaf by (auto simp: set_child_def)
next
  case (Node l a r)
  with u obtain n where a: "pnew = Some a" "nh a = Some n" by (auto split: option.splits)
  have aq: "a \<noteq> q" using u(3) Node by auto
  let ?nq' = "if is_left then nq\<lparr>left := pnew\<rparr> else nq\<lparr>right := pnew\<rparr>"
  let ?nh1 = "nh(q \<mapsto> ?nq', a \<mapsto> n\<lparr>parent := Some q\<rparr>)"
  have res: "set_child nh (Some x) pnew = Some ?nh1"
    using x q slot a aq by (auto simp: set_child_def)
  have "tree_at nh par' (Some a) u" using u(1) a(1) by simp
  from tree_at_reparent[OF this u(2) a(2)]
  have "tree_at (nh(a \<mapsto> n\<lparr>parent := Some q\<rparr>)) (Some q) (Some a) u" .
  then have "tree_at ?nh1 (Some q) pnew u"
    using u(3) aq a(1)
    by (subst tree_at_cong[of u ?nh1 "nh(a \<mapsto> n\<lparr>parent := Some q\<rparr>)"]) auto
  moreover have "?nh1 q = Some ?nq'" using aq by simp
  moreover have "\<forall>y. y \<noteq> q \<longrightarrow> Some y \<noteq> pnew \<longrightarrow> ?nh1 y = nh y" using a by auto
  moreover have "dom ?nh1 = dom nh" using q a by auto
  ultimately show ?thesis using res by blast
qed

lemma node_cleared [simp]:
  "(n::node)\<lparr>parent := None, right := None, left := None\<rparr> = default_node"
  by (cases n) (simp add: default_node_def)

lemma splice_max:
  "tree_at nh par (Some b) (Node ll b rr) \<Longrightarrow> rr \<noteq> Leaf \<Longrightarrow>
   distinct (inorder (Node ll b rr)) \<Longrightarrow>
   \<exists>nm nh1. nh (last (inorder rr)) = Some nm
      \<and> parent nm \<in> Some ` set_tree (Node ll b rr)
      \<and> set_child nh (Some (last (inorder rr))) (left nm) = Some nh1
      \<and> tree_at nh1 par (Some b) (fst (split_max (Node ll b rr)))
      \<and> nh1 (last (inorder rr)) = Some nm
      \<and> (\<forall>y. y \<notin> set_tree (Node ll b rr) \<longrightarrow> nh1 y = nh y)
      \<and> dom nh1 = dom nh"
proof (induction rr arbitrary: ll b par)
  case Leaf
  then show ?case by simp
next
  case (Node rl c rrr)
  from Node.prems(1) obtain nb where nb: "nh b = Some nb" "parent nb = par"
    and tl: "tree_at nh (Some b) (left nb) ll"
    and tr: "tree_at nh (Some b) (right nb) (Node rl c rrr)"
    by (auto split: option.splits)
  from tr obtain nc where rb: "right nb = Some c" and nc: "nh c = Some nc" "parent nc = Some b"
    and trl: "tree_at nh (Some c) (left nc) rl" and trr: "tree_at nh (Some c) (right nc) rrr"
    by (auto split: option.splits)
  from Node.prems(3) have d: "distinct (inorder ll)" "distinct (inorder rl)" "distinct (inorder rrr)"
    "b \<notin> set_tree ll" "b \<notin> set_tree rl" "b \<notin> set_tree rrr" "b \<noteq> c"
    "c \<notin> set_tree ll" "c \<notin> set_tree rl" "c \<notin> set_tree rrr"
    "set_tree ll \<inter> set_tree rl = {}" "set_tree ll \<inter> set_tree rrr = {}"
    "set_tree rl \<inter> set_tree rrr = {}"
    by auto
  show ?case
  proof (cases rrr)
    case Leaf
    have m: "last (inorder (Node rl c rrr)) = c" using Leaf by simp
    have slot: "if False then left nb = Some c else left nb \<noteq> Some c"
      using tl d(8) tree_at_root_mem[of nh "Some b" c ll] by auto
    from set_child_correct[OF nc nb(1) d(7) slot trl d(2) d(5)]
    obtain nh1 where r: "set_child nh (Some c) (left nc) = Some nh1"
      "nh1 b = Some (nb\<lparr>right := left nc\<rparr>)" "tree_at nh1 (Some b) (left nc) rl"
      and fr: "\<And>y. y \<noteq> b \<Longrightarrow> Some y \<noteq> left nc \<Longrightarrow> nh1 y = nh y"
      and dm: "dom nh1 = dom nh"
      by auto
    have lnc: "left nc = root_ptr rl" by (rule tree_at_root_ptr[OF trl])
    have frl: "\<And>y. y \<noteq> b \<Longrightarrow> y \<notin> set_tree rl \<Longrightarrow> nh1 y = nh y"
    proof -
      fix y assume "y \<noteq> b" "y \<notin> set_tree rl"
      then have "Some y \<noteq> left nc" using lnc by (cases rl) auto
      with \<open>y \<noteq> b\<close> show "nh1 y = nh y" by (rule fr)
    qed
    have "tree_at nh1 (Some b) (left nb) ll"
      using tl d(4,11) by (subst tree_at_cong[of ll nh1 nh]) (auto intro!: frl)
    then have "tree_at nh1 par (Some b) (fst (split_max (Node ll b (Node rl c rrr))))"
      using Leaf r nb by simp
    moreover have "nh1 c = Some nc" using frl[of c] d nc by simp
    moreover have "\<forall>y. y \<notin> set_tree (Node ll b (Node rl c rrr)) \<longrightarrow> nh1 y = nh y"
      using frl by auto
    moreover have "parent nc \<in> Some ` set_tree (Node ll b (Node rl c rrr))"
      using nc by simp
    ultimately show ?thesis using r(1) nc dm unfolding m by blast
  next
    case Node': (Node r1 e r2)
    then have ne: "rrr \<noteq> Leaf" by simp
    have m: "last (inorder (Node rl c rrr)) = last (inorder rrr)" using Node' by simp
    have tc: "tree_at nh (Some b) (Some c) (Node rl c rrr)" using tr rb by simp
    have dc: "distinct (inorder (Node rl c rrr))" using Node.prems(3) by simp
    from Node.IH(2)[OF tc ne dc] obtain nm nh1 where
      r: "nh (last (inorder rrr)) = Some nm" "parent nm \<in> Some ` set_tree (Node rl c rrr)"
      "set_child nh (Some (last (inorder rrr))) (left nm) = Some nh1"
      "tree_at nh1 (Some b) (Some c) (fst (split_max (Node rl c rrr)))"
      "nh1 (last (inorder rrr)) = Some nm"
      and fr: "\<And>y. y \<notin> set_tree (Node rl c rrr) \<Longrightarrow> nh1 y = nh y"
      and dm: "dom nh1 = dom nh"
      by blast
    have "nh1 b = Some nb" using fr[of b] d nb by simp
    moreover have "tree_at nh1 (Some b) (left nb) ll"
      using tl d by (subst tree_at_cong[of ll nh1 nh]) (auto intro!: fr)
    moreover have sm: "fst (split_max (Node ll b (Node rl c rrr)))
        = Node ll b (fst (split_max (Node rl c rrr)))"
      by (simp split: prod.splits)
    ultimately have "tree_at nh1 par (Some b) (fst (split_max (Node ll b (Node rl c rrr))))"
      unfolding sm using r(4) nb rb by (simp del: split_max.simps)
    moreover have "\<forall>y. y \<notin> set_tree (Node ll b (Node rl c rrr)) \<longrightarrow> nh1 y = nh y"
      using fr by auto
    moreover have "parent nm \<in> Some ` set_tree (Node ll b (Node rl c rrr))"
      using r(2) by auto
    ultimately show ?thesis using r dm unfolding m by blast
  qed
qed

lemma split_max_set:
  "t \<noteq> Leaf \<Longrightarrow> set_tree (fst (split_max t)) = set (butlast (inorder t))"
  using split_max_inorder[of t "fst (split_max t)" "snd (split_max t)"]
  by (metis butlast_snoc prod.collapse set_inorder)

lemma split_max_facts:
  assumes "t \<noteq> Leaf" "distinct (inorder t)"
  shows "distinct (inorder (fst (split_max t)))"
    and "last (inorder t) \<notin> set_tree (fst (split_max t))"
    and "set_tree (fst (split_max t)) \<subseteq> set_tree t"
    and "last (inorder t) \<in> set_tree t"
    and "inorder (fst (split_max t)) @ [last (inorder t)] = inorder t"
proof -
  have e: "inorder (fst (split_max t)) @ [snd (split_max t)] = inorder t"
    using split_max_inorder[OF assms(1), of "fst (split_max t)" "snd (split_max t)"] by simp
  have m: "snd (split_max t) = last (inorder t)" by (rule split_max_last[OF assms(1)])
  show "inorder (fst (split_max t)) @ [last (inorder t)] = inorder t" using e m by simp
  then have e': "inorder t = inorder (fst (split_max t)) @ [last (inorder t)]" by simp
  show "distinct (inorder (fst (split_max t)))" using assms(2) by (subst (asm) e') simp
  show "last (inorder t) \<notin> set_tree (fst (split_max t))"
    using assms(2) by (subst (asm) e') simp
  have "set (inorder t) = set (inorder (fst (split_max t)) @ [last (inorder t)])"
    using e' by simp
  then show "set_tree (fst (split_max t)) \<subseteq> set_tree t" "last (inorder t) \<in> set_tree t"
    by auto
qed

lemma erase_head:
  assumes tl: "tree_at nh (Some x) (Some lb) l" and dl: "distinct (inorder l)"
    and xl: "x \<notin> set_tree l" and nx: "nh x = Some nx" "left nx = Some lb"
  shows "\<exists>nm nm3 nh3. nh (last (inorder l)) = Some nm
     \<and> (if parent nm \<noteq> Some x then do {
           nh1 \<leftarrow> set_child nh (Some (last (inorder l))) (left nm);
           n1 \<leftarrow> deref nh1 (Some x);
           nh2 \<leftarrow> set_left nh1 (Some (last (inorder l))) (left n1);
           nn2 \<leftarrow> deref nh2 (Some (last (inorder l)));
           set_parent nh2 (left nn2) (Some (last (inorder l)))
         } else Some nh) = Some nh3
     \<and> nh3 (last (inorder l)) = Some nm3
     \<and> tree_at nh3 (Some (last (inorder l))) (left nm3) (fst (split_max l))
     \<and> (\<forall>y. y \<notin> set_tree l \<longrightarrow> nh3 y = nh y)
     \<and> dom nh3 = dom nh"
proof -
  from tl obtain l1 l2 nlb where l: "l = Node l1 lb l2" and nlb: "nh lb = Some nlb"
    "parent nlb = Some x" and tl1: "tree_at nh (Some lb) (left nlb) l1"
    and tl2: "tree_at nh (Some lb) (right nlb) l2"
    by (cases l) (auto split: option.splits)
  show ?thesis
  proof (cases l2)
    case Leaf
    then have m: "last (inorder l) = lb" and sm: "fst (split_max l) = l1" using l by simp_all
    show ?thesis unfolding m sm using nlb tl1 by auto
  next
    case (Node l21 c l22)
    then have ne: "l2 \<noteq> Leaf" by simp
    let ?m = "last (inorder l2)"
    have m: "last (inorder l) = ?m" using l Node by simp
    have tl': "tree_at nh (Some x) (Some lb) (Node l1 lb l2)" using tl l by simp
    have dl': "distinct (inorder (Node l1 lb l2))" using dl l by simp
    from splice_max[OF tl' ne dl'] obtain nm nh1 where
      r: "nh ?m = Some nm" "parent nm \<in> Some ` set_tree l"
      "set_child nh (Some ?m) (left nm) = Some nh1"
      "tree_at nh1 (Some x) (Some lb) (fst (split_max l))"
      "nh1 ?m = Some nm"
      and fr: "\<And>y. y \<notin> set_tree l \<Longrightarrow> nh1 y = nh y"
      and dm: "dom nh1 = dom nh"
      unfolding l by blast
    have pm: "parent nm \<noteq> Some x" using r(2) xl by auto
    have lne: "l \<noteq> Leaf" using l by simp
    note sf = split_max_facts[OF lne dl, unfolded m]
    have n1x: "nh1 x = Some nx" using fr[OF xl] nx by simp
    have sml: "fst (split_max l) = Node l1 lb (fst (split_max l2))"
      using l ne by (simp split: prod.splits)
    have lbm: "lb \<noteq> ?m" using sf(2) sml by auto
    obtain nlb1 where nlb1: "nh1 lb = Some nlb1" using r(4) sml by (auto split: option.splits)
    let ?nm3 = "nm\<lparr>left := Some lb\<rparr>"
    let ?nh3 = "nh1(?m \<mapsto> ?nm3, lb \<mapsto> nlb1\<lparr>parent := Some ?m\<rparr>)"
    have res: "(if parent nm \<noteq> Some x then do {
           nh1 \<leftarrow> set_child nh (Some ?m) (left nm);
           n1 \<leftarrow> deref nh1 (Some x);
           nh2 \<leftarrow> set_left nh1 (Some ?m) (left n1);
           nn2 \<leftarrow> deref nh2 (Some ?m);
           set_parent nh2 (left nn2) (Some ?m)
         } else Some nh) = Some ?nh3"
      using pm r(3,5) n1x nx(2) nlb1 lbm by simp
    have "tree_at (nh1(lb \<mapsto> nlb1\<lparr>parent := Some ?m\<rparr>)) (Some ?m) (Some lb) (fst (split_max l))"
      by (rule tree_at_reparent[OF r(4) sf(1) nlb1])
    then have "tree_at ?nh3 (Some ?m) (Some lb) (fst (split_max l))"
      using sf(2)
      by (subst tree_at_cong[of _ ?nh3 "nh1(lb \<mapsto> nlb1\<lparr>parent := Some ?m\<rparr>)"]) auto
    moreover have "?nh3 ?m = Some ?nm3" using lbm by simp
    moreover have "\<forall>y. y \<notin> set_tree l \<longrightarrow> ?nh3 y = nh y"
      using fr sf(4) l by auto
    moreover have "dom ?nh3 = dom nh" using dm r(5) nlb1 by auto
    ultimately show ?thesis unfolding m using r(1) res by (intro exI[of _ nm] exI[of _ ?nm3] exI[of _ ?nh3]) simp
  qed
qed

lemma erase_local:
  assumes tx: "tree_at nh (Some q) (Some x) (Node l x r)"
    and d: "distinct (inorder (Node l x r))"
    and q: "nh q = Some nq" "q \<notin> set_tree (Node l x r)"
    and slot: "if is_left then left nq = Some x else left nq \<noteq> Some x"
  shows "\<exists>nh'. erase_set nh (Some x) = Some (Some x, nh')
     \<and> nh' x = Some default_node
     \<and> nh' q = Some (if is_left then nq\<lparr>left := root_ptr (del_root (Node l x r))\<rparr>
                      else nq\<lparr>right := root_ptr (del_root (Node l x r))\<rparr>)
     \<and> tree_at nh' (Some q) (root_ptr (del_root (Node l x r))) (del_root (Node l x r))
     \<and> (\<forall>y. y \<notin> set_tree (Node l x r) \<longrightarrow> y \<noteq> q \<longrightarrow> nh' y = nh y)
     \<and> dom nh' = dom nh"
proof -
  let ?u = "del_root (Node l x r)"
  from tx obtain nx where nx: "nh x = Some nx" "parent nx = Some q"
    and tl: "tree_at nh (Some x) (left nx) l" and tr: "tree_at nh (Some x) (right nx) r"
    by (auto split: option.splits)
  from d have dl: "distinct (inorder l)" and dr: "distinct (inorder r)"
    and xl: "x \<notin> set_tree l" and xr: "x \<notin> set_tree r"
    and lr: "set_tree l \<inter> set_tree r = {}" by auto
  from q(2) have qx: "q \<noteq> x" and ql: "q \<notin> set_tree l" and qr: "q \<notin> set_tree r" by auto
  have lnx: "left nx = root_ptr l" and rnx: "right nx = root_ptr r"
    using tl tr tree_at_root_ptr by blast+
  show ?thesis
  proof (cases "l \<noteq> Leaf \<and> r \<noteq> Leaf")
    case False
    let ?child = "if left nx \<noteq> None then left nx else right nx"
    have u: "?u = (if l \<noteq> Leaf then l else r)" using False by auto
    have cu: "?child = root_ptr ?u" unfolding u using lnx rnx by (cases l) auto
    have tu: "tree_at nh (Some x) ?child ?u"
      unfolding u using tl tr lnx by (cases l) auto
    have du: "distinct (inorder ?u)" and qu: "q \<notin> set_tree ?u" and xu: "x \<notin> set_tree ?u"
      and us: "set_tree ?u \<subseteq> set_tree (Node l x r)"
      unfolding u using dl dr ql qr xl xr by auto
    from set_child_correct[OF nx q(1) qx slot tu du qu] obtain nh1 where
      r: "set_child nh (Some x) ?child = Some nh1"
      "nh1 q = Some (if is_left then nq\<lparr>left := ?child\<rparr> else nq\<lparr>right := ?child\<rparr>)"
      "tree_at nh1 (Some q) ?child ?u"
      and fr: "\<And>y. y \<noteq> q \<Longrightarrow> Some y \<noteq> ?child \<Longrightarrow> nh1 y = nh y"
      and dm: "dom nh1 = dom nh"
      by blast
    have fru: "\<And>y. y \<noteq> q \<Longrightarrow> y \<notin> set_tree ?u \<Longrightarrow> nh1 y = nh y"
    proof -
      fix y assume "y \<noteq> q" "y \<notin> set_tree ?u"
      then have "Some y \<noteq> root_ptr ?u" by (cases ?u) auto
      with \<open>y \<noteq> q\<close> show "nh1 y = nh y" using fr cu by simp
    qed
    have n1x: "nh1 x = Some nx" using fru[OF qx[symmetric] xu] nx by simp
    let ?nh' = "nh1(x \<mapsto> default_node)"
    have res: "erase_set nh (Some x) = Some (Some x, ?nh')"
      using False lnx rnx r(1) n1x
      by (simp add: erase_set_def nx del: del_root.simps) (cases l; cases r; simp)
    have "tree_at ?nh' (Some q) ?child ?u"
      using r(3) xu by (subst tree_at_cong[of ?u ?nh' nh1]) auto
    moreover have "?nh' q = Some (if is_left then nq\<lparr>left := ?child\<rparr> else nq\<lparr>right := ?child\<rparr>)"
      using r(2) qx by simp
    moreover have "\<forall>y. y \<notin> set_tree (Node l x r) \<longrightarrow> y \<noteq> q \<longrightarrow> ?nh' y = nh y"
      using fru us by auto
    moreover have "dom ?nh' = dom nh" using dm n1x by auto
    ultimately show ?thesis using res unfolding cu by (intro exI[of _ ?nh']) simp
  next
    case True
    then obtain lb rb where lb: "left nx = Some lb" and rb: "right nx = Some rb"
      using lnx rnx by (cases l; cases r) auto
    let ?m = "last (inorder l)"
    let ?l' = "fst (split_max l)"
    have lne: "l \<noteq> Leaf" using True by simp
    note sf = split_max_facts[OF lne dl]
    have u: "?u = Node ?l' ?m r"
      using True split_max_last[OF lne] by (auto split: prod.splits)
    have tl': "tree_at nh (Some x) (Some lb) l" using tl lb by simp
    from erase_head[OF tl' dl xl nx(1) lb] obtain nm nm3 nh3 where
      h: "nh ?m = Some nm"
      "(if parent nm \<noteq> Some x then do {
           nh1 \<leftarrow> set_child nh (Some ?m) (left nm);
           n1 \<leftarrow> deref nh1 (Some x);
           nh2 \<leftarrow> set_left nh1 (Some ?m) (left n1);
           nn2 \<leftarrow> deref nh2 (Some ?m);
           set_parent nh2 (left nn2) (Some ?m)
         } else Some nh) = Some nh3"
      "nh3 ?m = Some nm3" "tree_at nh3 (Some ?m) (left nm3) ?l'"
      and fr3: "\<And>y. y \<notin> set_tree l \<Longrightarrow> nh3 y = nh y"
      and dm3: "dom nh3 = dom nh"
      by blast
    have dr': "descend_right nh (left nx) = Some (Some ?m)"
      using descend_right_tree[OF tl lne] by simp
    have ml: "?m \<in> set_tree l" by (rule sf(4))
    then have mx: "?m \<noteq> x" and mq: "?m \<noteq> q" and mr: "?m \<notin> set_tree r"
      using xl ql lr by auto
    have rbr: "rb \<in> set_tree r" using tr rb tree_at_root_mem by metis
    then have rbl: "rb \<notin> set_tree l" and rbm: "rb \<noteq> ?m" and rbx: "rb \<noteq> x" and rbq: "rb \<noteq> q"
      using lr ml xr qr by auto
    obtain nrb where nrb: "nh rb = Some nrb" using tr rb by (cases r) (auto split: option.splits)
    have n3x: "nh3 x = Some nx" using fr3[OF xl] nx by simp
    have n3q: "nh3 q = Some nq" using fr3[OF ql] q by simp
    have n3rb: "nh3 rb = Some nrb" using fr3[OF rbl] nrb by simp
    let ?nm5 = "nm3\<lparr>right := Some rb\<rparr>"
    let ?nh5 = "nh3(?m \<mapsto> ?nm5, rb \<mapsto> nrb\<lparr>parent := Some ?m\<rparr>)"
    have t5l: "tree_at ?nh5 (Some ?m) (left nm3) ?l'"
      using h(4) sf(2,3) rbl by (subst tree_at_cong[of ?l' ?nh5 nh3]) auto
    have "tree_at nh3 (Some x) (Some rb) r"
      using tr rb lr by (subst tree_at_cong[of r nh3 nh]) (auto intro!: fr3)
    from tree_at_reparent[OF this dr n3rb]
    have "tree_at (nh3(rb \<mapsto> nrb\<lparr>parent := Some ?m\<rparr>)) (Some ?m) (Some rb) r" .
    then have t5r: "tree_at ?nh5 (Some ?m) (Some rb) r"
      using mr by (subst tree_at_cong[of r ?nh5 "nh3(rb \<mapsto> nrb\<lparr>parent := Some ?m\<rparr>)"]) auto
    have t5: "tree_at ?nh5 (parent nm3) (Some ?m) ?u"
      unfolding u using t5l t5r rbm by simp
    have n5x: "?nh5 x = Some nx" using n3x mx rbx by simp
    have n5q: "?nh5 q = Some nq" using n3q mq rbq by simp
    have du: "distinct (inorder ?u)"
      unfolding u using d sf(5)
      by (metis append.assoc append_Cons append_Nil distinct_append inorder.simps(2)
          distinct.simps(2) disjoint_insert(1) list.simps(15))
    have qu: "q \<notin> set_tree ?u" unfolding u using sf(3) ql qr mq by auto
    have xu: "x \<notin> set_tree ?u" unfolding u using sf(3) xl xr mx by auto
    have us: "set_tree ?u \<subseteq> set_tree (Node l x r)" unfolding u using sf(3) ml by auto
    from set_child_correct[OF n5x nx(2) n5q qx slot t5 du qu] obtain nh6 where
      r: "set_child ?nh5 (Some x) (Some ?m) = Some nh6"
      "nh6 q = Some (if is_left then nq\<lparr>left := Some ?m\<rparr> else nq\<lparr>right := Some ?m\<rparr>)"
      "tree_at nh6 (Some q) (Some ?m) ?u"
      and fr6: "\<And>y. y \<noteq> q \<Longrightarrow> Some y \<noteq> Some ?m \<Longrightarrow> ?nh5 y = nh6 y"
      and dm6: "dom nh6 = dom ?nh5"
      by (metis (no_types, lifting))
    have n6x: "nh6 x = Some nx" using fr6[of x] qx mx n5x by simp
    let ?nh' = "nh6(x \<mapsto> default_node)"
    have res: "erase_set nh (Some x) = Some (Some x, ?nh')"
      using lb rb dr' h(1,2,3) n3x mx rbm n3rb r(1) n6x
      by (simp add: erase_set_def nx)
    have "tree_at ?nh' (Some q) (Some ?m) ?u"
      using r(3) xu by (subst tree_at_cong[of ?u ?nh' nh6]) auto
    moreover have "?nh' q = Some (if is_left then nq\<lparr>left := Some ?m\<rparr> else nq\<lparr>right := Some ?m\<rparr>)"
      using r(2) qx by simp
    moreover have "\<forall>y. y \<notin> set_tree (Node l x r) \<longrightarrow> y \<noteq> q \<longrightarrow> ?nh' y = nh y"
    proof (intro allI impI)
      fix y assume y: "y \<notin> set_tree (Node l x r)" "y \<noteq> q"
      then have "y \<noteq> ?m" "y \<noteq> rb" "y \<notin> set_tree l" "y \<noteq> x" using ml rbr by auto
      then show "?nh' y = nh y" using fr6[of y] y(2) fr3[of y] by simp
    qed
    moreover have "dom ?nh' = dom nh" using dm6 dm3 nx(1) h(3) n3rb by auto
    moreover have "root_ptr ?u = Some ?m" unfolding u by simp
    ultimately show ?thesis using res by (intro exI[of _ ?nh']) simp
  qed
qed

lemma erase_tree_notin: "x \<notin> set_tree t \<Longrightarrow> erase_tree x t = t"
  by (induction t) auto

lemma set_erase_tree:
  "distinct (inorder t) \<Longrightarrow> set_tree (erase_tree x t) = set_tree t - {x}"
  using inorder_erase_tree[of t x] by (metis set_inorder set_minus_filter_out)

lemma erase_context:
  "tree_at nh par p T \<Longrightarrow> distinct (inorder T) \<Longrightarrow> x \<in> set_tree T \<Longrightarrow> p \<noteq> Some x \<Longrightarrow>
   \<exists>nh'. erase_set nh (Some x) = Some (Some x, nh') \<and> nh' x = Some default_node
      \<and> tree_at nh' par p (erase_tree x T)
      \<and> (\<forall>y. y \<notin> set_tree T \<longrightarrow> nh' y = nh y)
      \<and> dom nh' = dom nh"
proof (induction T arbitrary: par p)
  case Leaf
  then show ?case by simp
next
  case (Node l a r)
  from Node.prems(1) obtain na where p: "p = Some a" and na: "nh a = Some na" "parent na = par"
    and tl: "tree_at nh (Some a) (left na) l" and tr: "tree_at nh (Some a) (right na) r"
    by (auto split: option.splits)
  from Node.prems(2) have dl: "distinct (inorder l)" and dr: "distinct (inorder r)"
    and al: "a \<notin> set_tree l" and ar: "a \<notin> set_tree r"
    and lr: "set_tree l \<inter> set_tree r = {}" by auto
  have ax: "a \<noteq> x" using Node.prems(4) p by simp
  have lna: "left na = root_ptr l" and rna: "right na = root_ptr r"
    using tl tr tree_at_root_ptr by blast+
  consider (inl) "x \<in> set_tree l" "x \<notin> set_tree r" | (inr) "x \<in> set_tree r" "x \<notin> set_tree l"
    using Node.prems(3) ax lr by auto
  then show ?case
  proof cases
    case inl
    have et: "erase_tree x (Node l a r) = Node (erase_tree x l) a r"
      using ax inl(2) by (simp add: erase_tree_notin)
    have "\<exists>nh'. erase_set nh (Some x) = Some (Some x, nh') \<and> nh' x = Some default_node
      \<and> nh' a = Some (na\<lparr>left := root_ptr (erase_tree x l)\<rparr>)
      \<and> tree_at nh' (Some a) (root_ptr (erase_tree x l)) (erase_tree x l)
      \<and> (\<forall>y. y \<notin> set_tree l \<longrightarrow> y \<noteq> a \<longrightarrow> nh' y = nh y)
      \<and> dom nh' = dom nh"
    proof (cases "left na = Some x")
      case True
      then obtain l1 l2 where l: "l = Node l1 x l2" using lna by (cases l) auto
      have slot: "if True then left na = Some x else left na \<noteq> Some x" using True by simp
      have e: "erase_tree x l = del_root (Node l1 x l2)" using l by simp
      have t': "tree_at nh (Some a) (Some x) (Node l1 x l2)" using tl True l by simp
      have d': "distinct (inorder (Node l1 x l2))" using dl l by simp
      have a': "a \<notin> set_tree (Node l1 x l2)" using al l by simp
      from erase_local[OF t' d' na(1) a' slot] show ?thesis
        unfolding e l by simp
    next
      case False
      from Node.IH(1)[OF tl dl inl(1) False] obtain nh' where
        r: "erase_set nh (Some x) = Some (Some x, nh')" "nh' x = Some default_node"
        "tree_at nh' (Some a) (left na) (erase_tree x l)"
        and fr: "\<And>y. y \<notin> set_tree l \<Longrightarrow> nh' y = nh y" and dm: "dom nh' = dom nh"
        by blast
      have "left na = root_ptr (erase_tree x l)" by (rule tree_at_root_ptr[OF r(3)])
      moreover have "nh' a = Some na" using fr[OF al] na by simp
      ultimately show ?thesis using r fr dm by (intro exI[of _ nh']) simp
    qed
    then obtain nh' where
      r: "erase_set nh (Some x) = Some (Some x, nh')" "nh' x = Some default_node"
      "nh' a = Some (na\<lparr>left := root_ptr (erase_tree x l)\<rparr>)"
      "tree_at nh' (Some a) (root_ptr (erase_tree x l)) (erase_tree x l)"
      and fr: "\<And>y. y \<notin> set_tree l \<Longrightarrow> y \<noteq> a \<Longrightarrow> nh' y = nh y" and dm: "dom nh' = dom nh"
      by blast
    have "tree_at nh' (Some a) (right na) r"
      using tr ar lr by (subst tree_at_cong[of r nh' nh]) (auto intro!: fr)
    then have "tree_at nh' par p (erase_tree x (Node l a r))"
      unfolding et using r(3,4) na(2) p by simp
    moreover have "\<forall>y. y \<notin> set_tree (Node l a r) \<longrightarrow> nh' y = nh y" using fr by auto
    ultimately show ?thesis using r(1,2) dm by blast
  next
    case inr
    have et: "erase_tree x (Node l a r) = Node l a (erase_tree x r)"
      using ax inr(2) by (simp add: erase_tree_notin)
    have lx: "left na \<noteq> Some x" using lna inr(2) by (cases l) auto
    have "\<exists>nh'. erase_set nh (Some x) = Some (Some x, nh') \<and> nh' x = Some default_node
      \<and> nh' a = Some (na\<lparr>right := root_ptr (erase_tree x r)\<rparr>)
      \<and> tree_at nh' (Some a) (root_ptr (erase_tree x r)) (erase_tree x r)
      \<and> (\<forall>y. y \<notin> set_tree r \<longrightarrow> y \<noteq> a \<longrightarrow> nh' y = nh y)
      \<and> dom nh' = dom nh"
    proof (cases "right na = Some x")
      case True
      then obtain r1 r2 where r: "r = Node r1 x r2" using rna by (cases r) auto
      have slot: "if False then left na = Some x else left na \<noteq> Some x" using lx by simp
      have e: "erase_tree x r = del_root (Node r1 x r2)" using r by simp
      have t': "tree_at nh (Some a) (Some x) (Node r1 x r2)" using tr True r by simp
      have d': "distinct (inorder (Node r1 x r2))" using dr r by simp
      have a': "a \<notin> set_tree (Node r1 x r2)" using ar r by simp
      from erase_local[OF t' d' na(1) a' slot] show ?thesis
        unfolding e r by simp
    next
      case False
      from Node.IH(2)[OF tr dr inr(1) False] obtain nh' where
        r: "erase_set nh (Some x) = Some (Some x, nh')" "nh' x = Some default_node"
        "tree_at nh' (Some a) (right na) (erase_tree x r)"
        and fr: "\<And>y. y \<notin> set_tree r \<Longrightarrow> nh' y = nh y" and dm: "dom nh' = dom nh"
        by blast
      have "right na = root_ptr (erase_tree x r)" by (rule tree_at_root_ptr[OF r(3)])
      moreover have "nh' a = Some na" using fr[OF ar] na by simp
      ultimately show ?thesis using r fr dm by (intro exI[of _ nh']) simp
    qed
    then obtain nh' where
      r: "erase_set nh (Some x) = Some (Some x, nh')" "nh' x = Some default_node"
      "nh' a = Some (na\<lparr>right := root_ptr (erase_tree x r)\<rparr>)"
      "tree_at nh' (Some a) (root_ptr (erase_tree x r)) (erase_tree x r)"
      and fr: "\<And>y. y \<notin> set_tree r \<Longrightarrow> y \<noteq> a \<Longrightarrow> nh' y = nh y" and dm: "dom nh' = dom nh"
      by blast
    have "tree_at nh' (Some a) (left na) l"
      using tl al lr by (subst tree_at_cong[of l nh' nh]) (auto intro!: fr)
    then have "tree_at nh' par p (erase_tree x (Node l a r))"
      unfolding et using r(3,4) na(2) p by simp
    moreover have "\<forall>y. y \<notin> set_tree (Node l a r) \<longrightarrow> nh' y = nh y" using fr by auto
    ultimately show ?thesis using r(1,2) dm by blast
  qed
qed

lemma sorted_wrt_map_filter:
  "sorted_wrt R (map f xs) \<Longrightarrow> sorted_wrt R (map f (filter P xs))"
  by (induction xs) auto

lemma erase_set_correct:
  assumes inv: "set_inv s gk nh t" and sa: "sentinel s = Some sa" and x: "x \<in> set_tree t"
  shows "\<exists>nh'. erase_set nh (Some x) = Some (Some x, nh') \<and> nh' x = Some default_node
     \<and> set_inv s gk nh' (erase_tree x t)
     \<and> (\<forall>y. y \<notin> set_tree t \<longrightarrow> y \<noteq> sa \<longrightarrow> nh' y = nh y)
     \<and> dom nh' = dom nh"
proof -
  from inv obtain sa' ns where s: "sentinel s = Some sa'" "nh sa' = Some ns" "parent ns = None"
    "right ns = None" "tree_at nh (Some sa') (left ns) t" "sa' \<notin> set_tree t"
    "distinct (inorder t)" "set_tree t \<subseteq> dom gk"
    "sorted_wrt (compare s) (map (key_of gk) (inorder t))" "strict_weak_order (compare s)"
    by (rule set_invD)
  have [simp]: "sa' = sa" using s sa by simp
  have T: "tree_at nh None (Some sa) (Node t sa Leaf)" using s by simp
  have d: "distinct (inorder (Node t sa Leaf))" using s by simp
  have xs: "x \<noteq> sa" using x s by auto
  have xT: "x \<in> set_tree (Node t sa Leaf)" using x by simp
  have px: "Some sa \<noteq> Some x" using xs by simp
  from erase_context[OF T d xT px] obtain nh' where
    r: "erase_set nh (Some x) = Some (Some x, nh')" "nh' x = Some default_node"
    "tree_at nh' None (Some sa) (erase_tree x (Node t sa Leaf))"
    and fr: "\<And>y. y \<notin> set_tree (Node t sa Leaf) \<Longrightarrow> nh' y = nh y" and dm: "dom nh' = dom nh"
    by blast
  have io: "inorder (erase_tree x t) = filter (\<lambda>y. y \<noteq> x) (inorder t)"
    by (rule inorder_erase_tree[OF s(7)])
  have st: "set_tree (erase_tree x t) = set_tree t - {x}" by (rule set_erase_tree[OF s(7)])
  have "tree_at nh' None (Some sa) (Node (erase_tree x t) sa Leaf)"
    using r(3) xs by simp
  moreover have "sorted_wrt (compare s) (map (key_of gk) (inorder (erase_tree x t)))"
    unfolding io by (rule sorted_wrt_map_filter[OF s(9)])
  moreover have "distinct (inorder (erase_tree x t))" unfolding io using s(7) by simp
  ultimately have "set_inv s gk nh' (erase_tree x t)"
    using s(6,8,10) st by (auto simp: set_inv_def sa)
  moreover have "\<forall>y. y \<notin> set_tree t \<longrightarrow> y \<noteq> sa \<longrightarrow> nh' y = nh y" using fr by simp
  ultimately show ?thesis using r(1,2) dm by blast
qed

section \<open>Correctness of the container operations\<close>

subsection \<open>Lookup and insertion\<close>

lemma tree_at_dom: "tree_at nh par p t \<Longrightarrow> set_tree t \<subseteq> dom nh"
  by (induction t arbitrary: par p) (fastforce split: option.splits)+

lemma set_inv_cong:
  assumes "set_inv s gk nh t" "sentinel s = Some sa"
    and "\<And>a. a \<in> set_tree t \<Longrightarrow> nh' a = nh a" "nh' sa = nh sa"
    and "\<And>a. a \<in> set_tree t \<Longrightarrow> gk' a = gk a"
  shows "set_inv s gk' nh' t"
proof -
  from assms(1) obtain sa' ns where s: "sentinel s = Some sa'" "nh sa' = Some ns" "parent ns = None"
    "right ns = None" "tree_at nh (Some sa') (left ns) t" "sa' \<notin> set_tree t"
    "distinct (inorder t)" "set_tree t \<subseteq> dom gk"
    "sorted_wrt (compare s) (map (key_of gk) (inorder t))" "strict_weak_order (compare s)"
    by (rule set_invD)
  have [simp]: "sa' = sa" using s assms(2) by simp
  have "tree_at nh' (Some sa) (left ns) t"
    using s(5) assms(3) by (subst tree_at_cong[of t nh' nh]) auto
  moreover have "map (key_of gk') (inorder t) = map (key_of gk) (inorder t)"
    using assms(5) by (auto simp: key_of_def)
  then have "sorted_wrt (compare s) (map (key_of gk') (inorder t))"
    using s(9) by (simp only:)
  moreover have "set_tree t \<subseteq> dom gk'" using s(8) assms(5) by (auto simp: dom_def)
  ultimately show ?thesis using s(2,3,4,6,7,10) assms(2,4) by (simp add: set_inv_def)
qed

lemma set_inv_dom: "set_inv s gk nh t \<Longrightarrow> set_tree t \<subseteq> dom nh \<and> set_tree t \<subseteq> dom gk"
  by (erule set_invD) (auto dest: tree_at_dom)

lemma find_of_sentinel:
  "sent \<notin> Some ` set xs \<Longrightarrow>
     (find_of cmp kf key sent xs = sent) = (\<forall>a\<in>set xs. cmp (kf a) key \<or> cmp key (kf a))"
  by (auto simp: find_of_def find_None_iff split: option.splits dest!: find_SomeD)

lemma find_of_cases:
  "find_of cmp kf key sent xs = sent \<or>
   (\<exists>a\<in>set xs. find_of cmp kf key sent xs = Some a \<and> \<not> cmp (kf a) key \<and> \<not> cmp key (kf a))"
  by (auto simp: find_of_def split: option.splits dest!: find_SomeD)

lemma find_left_correct:
  assumes "bimap_inv m b lt rt"
  shows "find_left m b l = Some (Left_iterator
           (find_of (compare (left_set b)) (key_of (left_keys m)) l (sentinel (left_set b)) (inorder lt)))"
  using assms find_set_correct[of "left_set b" "left_keys m" "left_nodes m" lt l]
  by (simp add: find_left_def bimap_inv_def)

lemma find_right_correct:
  assumes "bimap_inv m b lt rt"
  shows "find_right m b r = Some (Right_iterator
           (find_of (compare (right_set b)) (key_of (right_keys m)) r (sentinel (right_set b)) (inorder rt)))"
  using assms find_set_correct[of "right_set b" "right_keys m" "right_nodes m" rt r]
  by (simp add: find_right_def bimap_inv_def)

lemma find_left_end:
  assumes "bimap_inv m b lt rt"
  shows "(find_left m b l = Some (end_left b)) = (\<not> has_left m b lt l)"
proof -
  from assms have "set_inv (left_set b) (left_keys m) (left_nodes m) lt"
    by (simp add: bimap_inv_def)
  then have "sentinel (left_set b) \<notin> Some ` set (inorder lt)"
    by (rule set_invD) auto
  from find_of_sentinel[OF this, of "compare (left_set b)" "key_of (left_keys m)" l]
  show ?thesis
    unfolding find_left_correct[OF assms]
    by (auto simp: end_left_def end_set_def has_left_def equals_set_def greater_set_def less_set_def)
qed

lemma find_right_end:
  assumes "bimap_inv m b lt rt"
  shows "(find_right m b r = Some (end_right b)) = (\<not> has_right m b rt r)"
proof -
  from assms have "set_inv (right_set b) (right_keys m) (right_nodes m) rt"
    by (simp add: bimap_inv_def)
  then have "sentinel (right_set b) \<notin> Some ` set (inorder rt)"
    by (rule set_invD) auto
  from find_of_sentinel[OF this, of "compare (right_set b)" "key_of (right_keys m)" r]
  show ?thesis
    unfolding find_right_correct[OF assms]
    by (auto simp: end_right_def end_set_def has_right_def equals_set_def greater_set_def less_set_def)
qed

lemma insert_present:
  assumes inv: "bimap_inv m b lt rt" and pr: "has_left m b lt l \<or> has_right m b rt r"
  shows "insert_bimap m b l r = Some (m, b, end_left b)"
proof -
  obtain itl where fl: "find_left m b l = Some itl" using find_left_correct[OF inv] by simp
  obtain itr where fr: "find_right m b r = Some itr" using find_right_correct[OF inv] by simp
  show ?thesis
  proof (cases "has_left m b lt l")
    case True
    then have "itl \<noteq> end_left b" using find_left_end[OF inv, of l] fl by auto
    then show ?thesis by (simp add: insert_bimap_def perfect_forwarding_insert_def fl)
  next
    case False
    then have "has_right m b rt r" using pr by simp
    then have "itr \<noteq> end_right b" using find_right_end[OF inv, of r] fr by auto
    then show ?thesis by (simp add: insert_bimap_def perfect_forwarding_insert_def fl fr)
  qed
qed

lemma insert_absent:
  assumes inv: "bimap_inv m b lt rt" and ab: "\<not> has_left m b lt l" "\<not> has_right m b rt r"
  defines "a \<equiv> next_free m"
  shows "\<exists>m'. insert_bimap m b l r = Some (m', b\<lparr>m_size := m_size b + 1\<rparr>, Left_iterator (Some a))
     \<and> left_keys m' = (left_keys m)(a \<mapsto> l) \<and> right_keys m' = (right_keys m)(a \<mapsto> r)
     \<and> next_free m' = Suc a
     \<and> dom (left_nodes m') = insert a (dom (left_nodes m))
     \<and> dom (right_nodes m') = insert a (dom (right_nodes m))
     \<and> (\<forall>x. x \<notin> set_tree lt \<longrightarrow> x \<noteq> a \<longrightarrow> Some x \<noteq> sentinel (left_set b) \<longrightarrow>
           left_nodes m' x = left_nodes m x \<and> right_nodes m' x = right_nodes m x)
     \<and> bimap_inv m' (b\<lparr>m_size := m_size b + 1\<rparr>)
          (ins_tree (compare (left_set b)) (key_of (left_keys m')) a lt)
          (ins_tree (compare (right_set b)) (key_of (right_keys m')) a rt)"
proof -
  let ?b' = "b\<lparr>m_size := m_size b + 1\<rparr>"
  from inv have il: "set_inv (left_set b) (left_keys m) (left_nodes m) lt"
    and ir: "set_inv (right_set b) (right_keys m) (right_nodes m) rt"
    and ss: "sentinel (left_set b) = sentinel (right_set b)"
    and st: "set_tree lt = set_tree rt" and mo: "mem_ok m"
    by (simp_all add: bimap_inv_def)
  from il obtain sa nsl where sl: "sentinel (left_set b) = Some sa" "left_nodes m sa = Some nsl"
    "sa \<notin> set_tree lt"
    by (rule set_invD)
  from ir obtain nsr where sr: "sentinel (right_set b) = Some sa" "right_nodes m sa = Some nsr"
    using ss sl(1) by (auto elim!: set_invD)
  have fresh: "a \<notin> dom (left_nodes m)" "a \<notin> dom (right_nodes m)" "a \<notin> dom (left_keys m)"
    "a \<notin> dom (right_keys m)"
    using mo unfolding mem_ok_def a_def by auto
  have al: "a \<notin> set_tree lt" and ar: "a \<notin> set_tree rt" and asa: "a \<noteq> sa"
    using fresh set_inv_dom[OF il] set_inv_dom[OF ir] sl(2) by auto
  let ?lk = "(left_keys m)(a \<mapsto> l)" and ?rk = "(right_keys m)(a \<mapsto> r)"
  let ?ln1 = "(left_nodes m)(a \<mapsto> default_node)" and ?rn1 = "(right_nodes m)(a \<mapsto> default_node)"
  let ?m1 = "m\<lparr>left_nodes := ?ln1, right_nodes := ?rn1, left_keys := ?lk, right_keys := ?rk,
       next_free := Suc a\<rparr>"
  have nsn: "new_storage_node m l r = (?m1, a)"
    by (simp add: new_storage_node_def a_def Let_def)
  have il1: "set_inv (left_set b) ?lk ?ln1 lt"
    using al asa by (intro set_inv_cong[OF il sl(1)]) auto
  have ir1: "set_inv (right_set b) ?rk ?rn1 rt"
    using ar asa by (intro set_inv_cong[OF ir sr(1)]) auto
  have kl: "\<And>x. x \<in> set_tree lt \<Longrightarrow> key_of ?lk x = key_of (left_keys m) x"
    using al by (auto simp: key_of_def)
  have kr: "\<And>x. x \<in> set_tree rt \<Longrightarrow> key_of ?rk x = key_of (right_keys m) x"
    using ar by (auto simp: key_of_def)
  have nel: "\<forall>x\<in>set_tree lt. compare (left_set b) l (key_of ?lk x)
       \<or> compare (left_set b) (key_of ?lk x) l"
    using ab(1) kl by (auto simp: has_left_def equals_set_def greater_set_def less_set_def)
  have ner: "\<forall>x\<in>set_tree rt. compare (right_set b) r (key_of ?rk x)
       \<or> compare (right_set b) (key_of ?rk x) r"
    using ab(2) kr by (auto simp: has_right_def equals_set_def greater_set_def less_set_def)
  have dn: "left default_node = None" "right default_node = None"
    by (simp_all add: default_node_def)
  from insert_set_correct[OF ir1 sr(1), of a r default_node, OF _ _ dn ar asa ner]
  obtain rn where rn: "insert_set (right_set b) ?rk ?rn1 a True = Some (Some a, rn)"
    "set_inv (right_set b) ?rk rn (ins_tree (compare (right_set b)) (key_of ?rk) a rt)"
    and frr: "\<And>x. x \<notin> set_tree rt \<Longrightarrow> x \<noteq> a \<Longrightarrow> x \<noteq> sa \<Longrightarrow> rn x = ?rn1 x"
    and dmr: "dom rn = dom ?rn1"
    by auto
  from insert_set_correct[OF il1 sl(1), of a l default_node, OF _ _ dn al asa nel]
  obtain ln where ln: "insert_set (left_set b) ?lk ?ln1 a True = Some (Some a, ln)"
    "set_inv (left_set b) ?lk ln (ins_tree (compare (left_set b)) (key_of ?lk) a lt)"
    and frl: "\<And>x. x \<notin> set_tree lt \<Longrightarrow> x \<noteq> a \<Longrightarrow> x \<noteq> sa \<Longrightarrow> ln x = ?ln1 x"
    and dml: "dom ln = dom ?ln1"
    by auto
  let ?m' = "?m1\<lparr>right_nodes := rn, left_nodes := ln\<rparr>"
  have absent: "find_left m b l = Some (end_left b)" "find_right m b r = Some (end_right b)"
    using find_left_end[OF inv] find_right_end[OF inv] ab by auto
  have res: "insert_bimap m b l r = Some (?m', ?b', Left_iterator (Some a))"
    by (simp add: insert_bimap_def perfect_forwarding_insert_def absent nsn rn(1) ln(1))
  have mo': "mem_ok ?m'"
    using mo dml dmr unfolding mem_ok_def a_def by (auto simp: less_Suc_eq)
  have inv': "bimap_inv ?m' ?b'
          (ins_tree (compare (left_set b)) (key_of ?lk) a lt)
          (ins_tree (compare (right_set b)) (key_of ?rk) a rt)"
    using ln(2) rn(2) ss st mo' by (simp add: bimap_inv_def)
  have fr: "\<forall>x. x \<notin> set_tree lt \<longrightarrow> x \<noteq> a \<longrightarrow> Some x \<noteq> sentinel (left_set b) \<longrightarrow>
           left_nodes ?m' x = left_nodes m x \<and> right_nodes ?m' x = right_nodes m x"
    using frl frr st sl(1) by auto
  show ?thesis
    using res inv' fr dml dmr by (intro exI[of _ ?m']) simp
qed

subsection \<open>Erasure\<close>

lemma mem_ok_delete:
  "mem_ok m \<Longrightarrow> mem_ok (m\<lparr>left_nodes := (ln)(a := None), right_nodes := (rn)(a := None),
       left_keys := (left_keys m)(a := None), right_keys := (right_keys m)(a := None)\<rparr>)
   = (dom ln - {a} \<subseteq> {..<next_free m} \<and> dom rn - {a} \<subseteq> {..<next_free m})"
  by (auto simp: mem_ok_def)

lemma sorted_wrt_no_equiv:
  assumes swo: "strict_weak_order cmp" and s: "sorted_wrt cmp (map kf xs)" and x: "x \<in> set xs"
    and y: "y \<in> set xs" "y \<noteq> x"
  shows "cmp (kf y) (kf x) \<or> cmp (kf x) (kf y)"
proof -
  from x obtain pre post where sp: "xs = pre @ x # post" by (meson split_list)
  with y have "y \<in> set pre \<or> y \<in> set post" by auto
  then show ?thesis using s unfolding sp by (auto simp: sorted_wrt_append)
qed

lemma erase_left_correct:
  assumes inv: "bimap_inv m b lt rt" and x: "x \<in> set_tree lt"
    and sa: "sentinel (left_set b) = Some sa"
  shows "\<exists>m' y. erase_left m b (Left_iterator (Some x))
           = Some (m', b\<lparr>m_size := m_size b - 1\<rparr>, Left_iterator (Some y))
     \<and> next_in (inorder lt @ [sa]) x = Some y
     \<and> bimap_inv m' (b\<lparr>m_size := m_size b - 1\<rparr>) (erase_tree x lt) (erase_tree x rt)
     \<and> left_keys m' = (left_keys m)(x := None) \<and> right_keys m' = (right_keys m)(x := None)
     \<and> next_free m' = next_free m
     \<and> dom (left_nodes m') = dom (left_nodes m) - {x}
     \<and> dom (right_nodes m') = dom (right_nodes m) - {x}
     \<and> (\<forall>z. z \<notin> set_tree lt \<longrightarrow> z \<noteq> sa \<longrightarrow>
           left_nodes m' z = left_nodes m z \<and> right_nodes m' z = right_nodes m z)"
proof -
  let ?b' = "b\<lparr>m_size := m_size b - 1\<rparr>"
  from inv have il: "set_inv (left_set b) (left_keys m) (left_nodes m) lt"
    and ir: "set_inv (right_set b) (right_keys m) (right_nodes m) rt"
    and ss: "sentinel (left_set b) = sentinel (right_set b)"
    and st: "set_tree lt = set_tree rt" and mo: "mem_ok m"
    by (simp_all add: bimap_inv_def)
  have sr: "sentinel (right_set b) = Some sa" using ss sa by simp
  have xr: "x \<in> set_tree rt" using x st by simp
  have xs: "x \<noteq> sa" using il sa x by (auto elim!: set_invD)
  from erase_set_correct[OF ir sr xr] obtain rn where
    rn: "erase_set (right_nodes m) (Some x) = Some (Some x, rn)" "rn x = Some default_node"
    "set_inv (right_set b) (right_keys m) rn (erase_tree x rt)"
    and frr: "\<And>z. z \<notin> set_tree rt \<Longrightarrow> z \<noteq> sa \<Longrightarrow> rn z = right_nodes m z"
    and dmr: "dom rn = dom (right_nodes m)"
    by blast
  from erase_set_correct[OF il sa x] obtain ln where
    ln: "erase_set (left_nodes m) (Some x) = Some (Some x, ln)" "ln x = Some default_node"
    "set_inv (left_set b) (left_keys m) ln (erase_tree x lt)"
    and frl: "\<And>z. z \<notin> set_tree lt \<Longrightarrow> z \<noteq> sa \<Longrightarrow> ln z = left_nodes m z"
    and dml: "dom ln = dom (left_nodes m)"
    by blast
  from increment_correct[OF il sa x] obtain y where
    y: "next_in (inorder lt @ [sa]) x = Some y" "increment (left_nodes m) (Some x) = Some (Some y)"
    by blast
  have doms: "x \<in> dom (left_keys m)" "x \<in> dom (right_keys m)"
    using set_inv_dom[OF il] set_inv_dom[OF ir] x xr by auto
  let ?m' = "m\<lparr>right_nodes := rn(x := None), left_nodes := ln(x := None),
       left_keys := (left_keys m)(x := None), right_keys := (right_keys m)(x := None)\<rparr>"
  have res: "erase_left m b (Left_iterator (Some x)) = Some (?m', ?b', Left_iterator (Some y))"
    using doms rn(2) ln(2)
    by (simp add: erase_left_def flip_left_def rn(1) increment_left_def y(2) ln(1)
        delete_storage_node_def domI)
  have dl: "distinct (inorder lt)" and dr: "distinct (inorder rt)"
    using il ir by (auto elim!: set_invD)
  have xl': "x \<notin> set_tree (erase_tree x lt)" and xr': "x \<notin> set_tree (erase_tree x rt)"
    using set_erase_tree[OF dl] set_erase_tree[OF dr] by auto
  have il': "set_inv (left_set b) ((left_keys m)(x := None)) (ln(x := None)) (erase_tree x lt)"
    using xl' xs by (intro set_inv_cong[OF ln(3) sa]) auto
  have ir': "set_inv (right_set b) ((right_keys m)(x := None)) (rn(x := None)) (erase_tree x rt)"
    using xr' xs by (intro set_inv_cong[OF rn(3) sr]) auto
  have mo': "mem_ok ?m'" using mo dml dmr by (auto simp: mem_ok_def)
  have inv': "bimap_inv ?m' ?b' (erase_tree x lt) (erase_tree x rt)"
    using il' ir' ss st mo' set_erase_tree[OF dl] set_erase_tree[OF dr]
    by (simp add: bimap_inv_def)
  have fr: "\<forall>z. z \<notin> set_tree lt \<longrightarrow> z \<noteq> sa \<longrightarrow>
           left_nodes ?m' z = left_nodes m z \<and> right_nodes ?m' z = right_nodes m z"
    using frl frr st x by auto
  show ?thesis
    using res y(1) inv' fr dml dmr
    by (intro exI[of _ ?m'] exI[of _ y]) auto
qed

subsection \<open>Bounds and access\<close>

lemma swo_less: "strict_weak_order ((<) :: 'a::linorder \<Rightarrow> 'a \<Rightarrow> bool)"
  by (auto simp: strict_weak_order_def)

lemma ex_inv: "bimap_inv ex_memory ex_bimap ex_left_tree ex_right_tree"
  by (auto simp: bimap_inv_def set_inv_def mem_ok_def ex_memory_def ex_bimap_def
      ex_left_tree_def ex_right_tree_def key_of_def swo_less)

lemma ex_built:
  "do { let (m0, b0) = bimap_ctor (empty_memory :: (nat, nat) memory) (<) (<);
        (m1, b1, _) \<leftarrow> insert_bimap m0 b0 2 20;
        (m2, b2, _) \<leftarrow> insert_bimap m1 b1 1 30;
        (m3, b3, _) \<leftarrow> insert_bimap m2 b2 3 10;
        Some (map (left_nodes m3) [0, 1, 2, 3], map (right_nodes m3) [0, 1, 2, 3],
              map (left_keys m3) [1, 2, 3], map (right_keys m3) [1, 2, 3], next_free m3,
              m_size b3, sentinel (left_set b3), sentinel (right_set b3)) }
   = Some (map (left_nodes ex_memory) [0, 1, 2, 3], map (right_nodes ex_memory) [0, 1, 2, 3],
           map (left_keys ex_memory) [1, 2, 3], map (right_keys ex_memory) [1, 2, 3],
           next_free ex_memory, m_size ex_bimap, sentinel (left_set ex_bimap),
           sentinel (right_set ex_bimap))"
  by code_simp

lemma find_of_unique:
  assumes swo: "strict_weak_order cmp" and s: "sorted_wrt cmp (map kf xs)"
    and a: "a \<in> set xs" "\<not> cmp (kf a) key" "\<not> cmp key (kf a)"
  shows "find_of cmp kf key sent xs = Some a"
proof -
  have "List.find (\<lambda>a. \<not> cmp (kf a) key \<and> \<not> cmp key (kf a)) xs \<noteq> None"
    using a by (auto simp: find_None_iff)
  then obtain a' where f: "List.find (\<lambda>a. \<not> cmp (kf a) key \<and> \<not> cmp key (kf a)) xs = Some a'"
    by auto
  from find_SomeD[OF f] have a': "a' \<in> set xs" "\<not> cmp (kf a') key" "\<not> cmp key (kf a')" by auto
  have "a' = a"
  proof (rule ccontr)
    assume "a' \<noteq> a"
    from sorted_wrt_no_equiv[OF swo s a(1) a'(1) this]
    have "cmp (kf a') (kf a) \<or> cmp (kf a) (kf a')" .
    then show False
      using swo_less_equiv[OF swo, of "kf a'" "kf a" key] swo_less_equiv[OF swo, of "kf a" "kf a'" key]
        a a' by auto
  qed
  then show ?thesis using f by (simp add: find_of_def)
qed

lemma find_left_present:
  assumes inv: "bimap_inv m b lt rt" and a: "a \<in> set_tree lt"
    "equals_set (left_set b) l (key_of (left_keys m) a)"
  shows "find_left m b l = Some (Left_iterator (Some a))"
proof -
  from inv have il: "set_inv (left_set b) (left_keys m) (left_nodes m) lt"
    by (simp add: bimap_inv_def)
  then have s: "sorted_wrt (compare (left_set b)) (map (key_of (left_keys m)) (inorder lt))"
    "strict_weak_order (compare (left_set b))" by (auto elim!: set_invD)
  show ?thesis unfolding find_left_correct[OF inv]
    using find_of_unique[OF s(2) s(1), of a l] a
    by (simp add: equals_set_def greater_set_def less_set_def)
qed

lemma find_right_present:
  assumes inv: "bimap_inv m b lt rt" and a: "a \<in> set_tree rt"
    "equals_set (right_set b) r (key_of (right_keys m) a)"
  shows "find_right m b r = Some (Right_iterator (Some a))"
proof -
  from inv have ir: "set_inv (right_set b) (right_keys m) (right_nodes m) rt"
    by (simp add: bimap_inv_def)
  then have s: "sorted_wrt (compare (right_set b)) (map (key_of (right_keys m)) (inorder rt))"
    "strict_weak_order (compare (right_set b))" by (auto elim!: set_invD)
  show ?thesis unfolding find_right_correct[OF inv]
    using find_of_unique[OF s(2) s(1), of a r] a
    by (simp add: equals_set_def greater_set_def less_set_def)
qed

lemma bimap_inv_keys:
  assumes "bimap_inv m b lt rt" "a \<in> set_tree lt"
  shows "left_keys m a = Some (key_of (left_keys m) a)"
    and "right_keys m a = Some (key_of (right_keys m) a)"
    and "a \<in> set_tree rt" and "sentinel (left_set b) \<noteq> Some a"
    and "sentinel (right_set b) \<noteq> Some a"
proof -
  from assms have il: "set_inv (left_set b) (left_keys m) (left_nodes m) lt"
    and ir: "set_inv (right_set b) (right_keys m) (right_nodes m) rt"
    and st: "set_tree lt = set_tree rt" and ss: "sentinel (left_set b) = sentinel (right_set b)"
    by (simp_all add: bimap_inv_def)
  show "a \<in> set_tree rt" using st assms(2) by simp
  show "left_keys m a = Some (key_of (left_keys m) a)"
    using set_inv_dom[OF il] assms(2) by (auto simp: key_of_def)
  show "right_keys m a = Some (key_of (right_keys m) a)"
    using set_inv_dom[OF ir] assms(2) st by (auto simp: key_of_def)
  show "sentinel (left_set b) \<noteq> Some a" using il assms(2) by (auto elim!: set_invD)
  then show "sentinel (right_set b) \<noteq> Some a" using ss by simp
qed

lemma lower_bound_left_correct:
  assumes "bimap_inv m b lt rt"
  shows "lower_bound_left m b l = Some (Left_iterator
     (bound_of (compare (left_set b)) (key_of (left_keys m)) l (sentinel (left_set b)) (inorder lt)))"
  using assms lower_bound_correct[of "left_set b" "left_keys m" "left_nodes m" lt l]
  by (simp add: lower_bound_left_def bimap_inv_def)

lemma upper_bound_left_correct:
  assumes "bimap_inv m b lt rt"
  shows "upper_bound_left m b l = Some (Left_iterator
     (upper_of (compare (left_set b)) (key_of (left_keys m)) l (sentinel (left_set b)) (inorder lt)))"
  using assms upper_bound_correct[of "left_set b" "left_keys m" "left_nodes m" lt l]
  by (simp add: upper_bound_left_def bimap_inv_def)

lemma lower_bound_right_correct:
  assumes "bimap_inv m b lt rt"
  shows "lower_bound_right m b r = Some (Right_iterator
     (bound_of (compare (right_set b)) (key_of (right_keys m)) r (sentinel (right_set b)) (inorder rt)))"
  using assms lower_bound_correct[of "right_set b" "right_keys m" "right_nodes m" rt r]
  by (simp add: lower_bound_right_def bimap_inv_def)

lemma upper_bound_right_correct:
  assumes "bimap_inv m b lt rt"
  shows "upper_bound_right m b r = Some (Right_iterator
     (upper_of (compare (right_set b)) (key_of (right_keys m)) r (sentinel (right_set b)) (inorder rt)))"
  using assms upper_bound_correct[of "right_set b" "right_keys m" "right_nodes m" rt r]
  by (simp add: upper_bound_right_def bimap_inv_def)

lemma bound_of_end:
  "(\<forall>a\<in>set xs. cmp (kf a) key) \<Longrightarrow> bound_of cmp kf key sent xs = sent"
  by (simp add: bound_of_def find_None_iff[THEN iffD2])

lemma upper_of_end:
  "(\<forall>a\<in>set xs. \<not> cmp key (kf a)) \<Longrightarrow> upper_of cmp kf key sent xs = sent"
  by (simp add: upper_of_def find_None_iff[THEN iffD2])

lemma at_left_absent:
  assumes inv: "bimap_inv m b lt rt"
  shows "(at_left m b l = Some (Inl (Out_of_range ''element doesn't exist'')))
           = (\<not> has_left m b lt l)"
proof (cases "has_left m b lt l")
  case True
  then obtain a where a: "a \<in> set_tree lt" "equals_set (left_set b) l (key_of (left_keys m) a)"
    by (auto simp: has_left_def)
  from find_left_present[OF inv a] bimap_inv_keys[OF inv a(1)]
  show ?thesis using True
    by (auto simp: at_left_def end_left_def end_set_def flip_left_def deref_right_def)
next
  case False
  then show ?thesis using find_left_end[OF inv, of l] by (simp add: at_left_def)
qed

lemma at_right_absent:
  assumes inv: "bimap_inv m b lt rt"
  shows "(at_right m b r = Some (Inl (Out_of_range ''element doesn't exist'')))
           = (\<not> has_right m b rt r)"
proof (cases "has_right m b rt r")
  case True
  then obtain a where a: "a \<in> set_tree rt" "equals_set (right_set b) r (key_of (right_keys m) a)"
    by (auto simp: has_right_def)
  have al: "a \<in> set_tree lt" using inv a(1) by (simp add: bimap_inv_def)
  from find_right_present[OF inv a] bimap_inv_keys[OF inv al]
  show ?thesis using True
    by (auto simp: at_right_def end_right_def end_set_def flip_right_def deref_left_def)
next
  case False
  then show ?thesis using find_right_end[OF inv, of r] by (simp add: at_right_def)
qed

lemma at_left_present:
  assumes inv: "bimap_inv m b lt rt" and a: "a \<in> set_tree lt"
    "equals_set (left_set b) l (key_of (left_keys m) a)"
  shows "at_left m b l = Some (Inr (key_of (right_keys m) a))"
  using find_left_present[OF inv a] bimap_inv_keys[OF inv a(1)]
  by (auto simp: at_left_def end_left_def end_set_def flip_left_def deref_right_def)

lemma at_right_present:
  assumes inv: "bimap_inv m b lt rt" and a: "a \<in> set_tree rt"
    "equals_set (right_set b) r (key_of (right_keys m) a)"
  shows "at_right m b r = Some (Inr (key_of (left_keys m) a))"
proof -
  have al: "a \<in> set_tree lt" using inv a(1) by (simp add: bimap_inv_def)
  show ?thesis
    using find_right_present[OF inv a] bimap_inv_keys[OF inv al]
    by (auto simp: at_right_def end_right_def end_set_def flip_right_def deref_left_def)
qed

subsection \<open>Erasure through the right view\<close>

lemma ex_set_inv:
  "set_inv (left_set ex_bimap) (left_keys ex_memory) (left_nodes ex_memory) ex_left_tree"
  using ex_inv by (simp add: bimap_inv_def)

lemma erase_right_correct:
  assumes inv: "bimap_inv m b lt rt" and x: "x \<in> set_tree rt"
    and sa: "sentinel (right_set b) = Some sa"
  shows "\<exists>m' y. erase_right m b (Right_iterator (Some x))
           = Some (m', b\<lparr>m_size := m_size b - 1\<rparr>, Right_iterator (Some y))
     \<and> next_in (inorder rt @ [sa]) x = Some y
     \<and> bimap_inv m' (b\<lparr>m_size := m_size b - 1\<rparr>) (erase_tree x lt) (erase_tree x rt)
     \<and> left_keys m' = (left_keys m)(x := None) \<and> right_keys m' = (right_keys m)(x := None)
     \<and> next_free m' = next_free m
     \<and> dom (left_nodes m') = dom (left_nodes m) - {x}
     \<and> dom (right_nodes m') = dom (right_nodes m) - {x}
     \<and> (\<forall>z. z \<notin> set_tree rt \<longrightarrow> z \<noteq> sa \<longrightarrow>
           left_nodes m' z = left_nodes m z \<and> right_nodes m' z = right_nodes m z)"
proof -
  let ?b' = "b\<lparr>m_size := m_size b - 1\<rparr>"
  from inv have il: "set_inv (left_set b) (left_keys m) (left_nodes m) lt"
    and ir: "set_inv (right_set b) (right_keys m) (right_nodes m) rt"
    and ss: "sentinel (left_set b) = sentinel (right_set b)"
    and st: "set_tree lt = set_tree rt" and mo: "mem_ok m"
    by (simp_all add: bimap_inv_def)
  have sl: "sentinel (left_set b) = Some sa" using ss sa by simp
  have xl: "x \<in> set_tree lt" using x st by simp
  have xs: "x \<noteq> sa" using ir sa x by (auto elim!: set_invD)
  from erase_set_correct[OF il sl xl] obtain ln where
    ln: "erase_set (left_nodes m) (Some x) = Some (Some x, ln)" "ln x = Some default_node"
    "set_inv (left_set b) (left_keys m) ln (erase_tree x lt)"
    and frl: "\<And>z. z \<notin> set_tree lt \<Longrightarrow> z \<noteq> sa \<Longrightarrow> ln z = left_nodes m z"
    and dml: "dom ln = dom (left_nodes m)"
    by blast
  from erase_set_correct[OF ir sa x] obtain rn where
    rn: "erase_set (right_nodes m) (Some x) = Some (Some x, rn)" "rn x = Some default_node"
    "set_inv (right_set b) (right_keys m) rn (erase_tree x rt)"
    and frr: "\<And>z. z \<notin> set_tree rt \<Longrightarrow> z \<noteq> sa \<Longrightarrow> rn z = right_nodes m z"
    and dmr: "dom rn = dom (right_nodes m)"
    by blast
  from increment_correct[OF ir sa x] obtain y where
    y: "next_in (inorder rt @ [sa]) x = Some y" "increment (right_nodes m) (Some x) = Some (Some y)"
    by blast
  have doms: "x \<in> dom (left_keys m)" "x \<in> dom (right_keys m)"
    using set_inv_dom[OF il] set_inv_dom[OF ir] x xl by auto
  let ?m' = "m\<lparr>left_nodes := ln(x := None), right_nodes := rn(x := None),
       left_keys := (left_keys m)(x := None), right_keys := (right_keys m)(x := None)\<rparr>"
  have res: "erase_right m b (Right_iterator (Some x)) = Some (?m', ?b', Right_iterator (Some y))"
    using doms rn(2) ln(2)
    by (simp add: erase_right_def flip_right_def rn(1) increment_right_def y(2) ln(1)
        delete_storage_node_def domI)
  have dl: "distinct (inorder lt)" and dr: "distinct (inorder rt)"
    using il ir by (auto elim!: set_invD)
  have xl': "x \<notin> set_tree (erase_tree x lt)" and xr': "x \<notin> set_tree (erase_tree x rt)"
    using set_erase_tree[OF dl] set_erase_tree[OF dr] by auto
  have il': "set_inv (left_set b) ((left_keys m)(x := None)) (ln(x := None)) (erase_tree x lt)"
    using xl' xs by (intro set_inv_cong[OF ln(3) sl]) auto
  have ir': "set_inv (right_set b) ((right_keys m)(x := None)) (rn(x := None)) (erase_tree x rt)"
    using xr' xs by (intro set_inv_cong[OF rn(3) sa]) auto
  have mo': "mem_ok ?m'" using mo dml dmr by (auto simp: mem_ok_def)
  have inv': "bimap_inv ?m' ?b' (erase_tree x lt) (erase_tree x rt)"
    using il' ir' ss st mo' set_erase_tree[OF dl] set_erase_tree[OF dr]
    by (simp add: bimap_inv_def)
  have fr: "\<forall>z. z \<notin> set_tree rt \<longrightarrow> z \<noteq> sa \<longrightarrow>
           left_nodes ?m' z = left_nodes m z \<and> right_nodes ?m' z = right_nodes m z"
    using frl frr st x by auto
  show ?thesis
    using res y(1) inv' fr dml dmr
    by (intro exI[of _ ?m'] exI[of _ y]) auto
qed

text \<open>After a record has left both trees, neither of its keys is found.\<close>

lemma erased_keys_absent:
  assumes inv: "bimap_inv m b lt rt" and x: "x \<in> set_tree lt"
    and inv': "bimap_inv m' b' (erase_tree x lt) (erase_tree x rt)"
    and k: "left_keys m' = (left_keys m)(x := None)" "right_keys m' = (right_keys m)(x := None)"
    and c: "compare (left_set b') = compare (left_set b)"
       "compare (right_set b') = compare (right_set b)"
  shows "\<not> has_left m' b' (erase_tree x lt) (key_of (left_keys m) x)"
    and "\<not> has_right m' b' (erase_tree x rt) (key_of (right_keys m) x)"
proof -
  from inv have il: "set_inv (left_set b) (left_keys m) (left_nodes m) lt"
    and ir: "set_inv (right_set b) (right_keys m) (right_nodes m) rt"
    and st: "set_tree lt = set_tree rt"
    by (simp_all add: bimap_inv_def)
  have dl: "distinct (inorder lt)" and dr: "distinct (inorder rt)"
    and sl: "sorted_wrt (compare (left_set b)) (map (key_of (left_keys m)) (inorder lt))"
    and sr: "sorted_wrt (compare (right_set b)) (map (key_of (right_keys m)) (inorder rt))"
    and wl: "strict_weak_order (compare (left_set b))"
    and wr: "strict_weak_order (compare (right_set b))"
    using il ir by (auto elim!: set_invD)
  have xr: "x \<in> set_tree rt" using x st by simp
  show "\<not> has_left m' b' (erase_tree x lt) (key_of (left_keys m) x)"
  proof
    assume "has_left m' b' (erase_tree x lt) (key_of (left_keys m) x)"
    then obtain a where a: "a \<in> set_tree lt" "a \<noteq> x"
      "equals_set (left_set b') (key_of (left_keys m) x) (key_of (left_keys m') a)"
      unfolding has_left_def set_erase_tree[OF dl] by auto
    have "key_of (left_keys m') a = key_of (left_keys m) a" using a(2) k by (simp add: key_of_def)
    moreover from sorted_wrt_no_equiv[OF wl sl, of x a] x a
    have "compare (left_set b) (key_of (left_keys m) a) (key_of (left_keys m) x)
        \<or> compare (left_set b) (key_of (left_keys m) x) (key_of (left_keys m) a)" by simp
    ultimately show False using a(3) c
      by (auto simp: equals_set_def greater_set_def less_set_def)
  qed
  show "\<not> has_right m' b' (erase_tree x rt) (key_of (right_keys m) x)"
  proof
    assume "has_right m' b' (erase_tree x rt) (key_of (right_keys m) x)"
    then obtain a where a: "a \<in> set_tree rt" "a \<noteq> x"
      "equals_set (right_set b') (key_of (right_keys m) x) (key_of (right_keys m') a)"
      unfolding has_right_def set_erase_tree[OF dr] by auto
    have "key_of (right_keys m') a = key_of (right_keys m) a" using a(2) k by (simp add: key_of_def)
    moreover from sorted_wrt_no_equiv[OF wr sr, of x a] xr a
    have "compare (right_set b) (key_of (right_keys m) a) (key_of (right_keys m) x)
        \<or> compare (right_set b) (key_of (right_keys m) x) (key_of (right_keys m) a)" by simp
    ultimately show False using a(3) c
      by (auto simp: equals_set_def greater_set_def less_set_def)
  qed
qed

lemma bimap_inv_sentinel:
  assumes "bimap_inv m b lt rt"
  obtains sa where "sentinel (left_set b) = Some sa" "sentinel (right_set b) = Some sa"
    "sa \<notin> set_tree lt" "sa \<notin> set_tree rt"
proof -
  from assms have il: "set_inv (left_set b) (left_keys m) (left_nodes m) lt"
    and ss: "sentinel (left_set b) = sentinel (right_set b)"
    and st: "set_tree lt = set_tree rt"
    by (simp_all add: bimap_inv_def)
  from il obtain sa where "sentinel (left_set b) = Some sa" "sa \<notin> set_tree lt"
    by (rule set_invD)
  then show ?thesis using ss st that by auto
qed

lemma next_in_map: "inj f \<Longrightarrow> next_in (map f xs) (f a) = map_option f (next_in xs a)"
  by (induction xs a rule: next_in.induct) (auto dest: injD)

lemma next_in_cursors:
  "next_in (inorder t @ [sa]) x = Some y \<Longrightarrow>
     next_in (map Some (inorder t) @ [Some sa]) (Some x) = Some (Some y)"
  using next_in_map[of Some "inorder t @ [sa]" x] by simp

lemma equals_set_sym: "equals_set s x y = equals_set s y x"
  by (auto simp: equals_set_def greater_set_def less_set_def)

lemma swo_equiv_trans:
  "strict_weak_order cmp \<Longrightarrow> \<not> cmp x y \<Longrightarrow> \<not> cmp y x \<Longrightarrow> \<not> cmp y z \<Longrightarrow> \<not> cmp z y \<Longrightarrow>
     \<not> cmp x z \<and> \<not> cmp z x"
  unfolding strict_weak_order_def by blast

subsection \<open>Access with a default\<close>

lemma at_left_or_default_present:
  assumes inv: "bimap_inv m b lt rt" and rd: "kref m = Some key" and a: "a \<in> set_tree lt"
    "equals_set (left_set b) key (key_of (left_keys m) a)"
  shows "at_left_or_default m b dflt kref = Some (m, b, key_of (right_keys m) a)"
  using find_left_present[OF inv a] bimap_inv_keys[OF inv a(1)] rd
  by (auto simp: at_left_or_default_def end_left_def end_set_def flip_left_def deref_right_def)

lemma at_right_or_default_present:
  assumes inv: "bimap_inv m b lt rt" and rd: "kref m = Some key" and a: "a \<in> set_tree rt"
    "equals_set (right_set b) key (key_of (right_keys m) a)"
  shows "at_right_or_default m b dflt kref = Some (m, b, key_of (left_keys m) a)"
proof -
  have al: "a \<in> set_tree lt" using inv a(1) by (simp add: bimap_inv_def)
  show ?thesis
    using find_right_present[OF inv a] bimap_inv_keys[OF inv al] rd
    by (auto simp: at_right_or_default_def end_right_def end_set_def flip_right_def deref_left_def)
qed

lemma at_left_or_default_fresh:
  assumes inv: "bimap_inv m b lt rt" and rd: "kref m = Some key"
    and ab: "\<not> has_left m b lt key" "\<not> has_right m b rt dflt"
  shows "\<exists>m' b' it. insert_bimap m b key dflt = Some (m', b', it) \<and> it \<noteq> end_left b
     \<and> at_left_or_default m b dflt kref = Some (m', b', dflt)"
proof -
  let ?b' = "b\<lparr>m_size := m_size b + 1\<rparr>"
  from insert_absent[OF inv ab] obtain m' where
    r: "insert_bimap m b key dflt = Some (m', ?b', Left_iterator (Some (next_free m)))"
    "right_keys m' = (right_keys m)(next_free m \<mapsto> dflt)"
    "bimap_inv m' ?b' (ins_tree (compare (left_set b)) (key_of (left_keys m')) (next_free m) lt)
        (ins_tree (compare (right_set b)) (key_of (right_keys m')) (next_free m) rt)"
    by blast
  have ne: "Left_iterator (Some (next_free m)) \<noteq> end_left b"
    using bimap_inv_keys(4)[OF r(3), of "next_free m"] by (auto simp: end_left_def end_set_def)
  have "at_left_or_default m b dflt kref = Some (m', ?b', dflt)"
    using find_left_end[OF inv, of key] find_right_end[OF inv, of dflt] ab r(1,2) rd
    by (simp add: at_left_or_default_def flip_left_def deref_right_def)
  then show ?thesis using r(1) ne by blast
qed

lemma at_right_or_default_fresh:
  assumes inv: "bimap_inv m b lt rt" and rd: "kref m = Some key"
    and ab: "\<not> has_right m b rt key" "\<not> has_left m b lt dflt"
  shows "\<exists>m' b' it. insert_bimap m b dflt key = Some (m', b', it) \<and> it \<noteq> end_left b
     \<and> at_right_or_default m b dflt kref = Some (m', b', dflt)"
proof -
  let ?b' = "b\<lparr>m_size := m_size b + 1\<rparr>"
  from insert_absent[OF inv ab(2) ab(1)] obtain m' where
    r: "insert_bimap m b dflt key = Some (m', ?b', Left_iterator (Some (next_free m)))"
    "left_keys m' = (left_keys m)(next_free m \<mapsto> dflt)"
    "bimap_inv m' ?b' (ins_tree (compare (left_set b)) (key_of (left_keys m')) (next_free m) lt)
        (ins_tree (compare (right_set b)) (key_of (right_keys m')) (next_free m) rt)"
    by blast
  have ne: "Left_iterator (Some (next_free m)) \<noteq> end_left b"
    using bimap_inv_keys(4)[OF r(3), of "next_free m"] by (auto simp: end_left_def end_set_def)
  have "at_right_or_default m b dflt kref = Some (m', ?b', dflt)"
    using find_left_end[OF inv, of dflt] find_right_end[OF inv, of key] ab r(1,2) rd
    by (simp add: at_right_or_default_def deref_left_def)
  then show ?thesis using r(1) ne by blast
qed

text \<open>The state after a record has been erased and a new pair inserted.\<close>

lemma erase_then_insert:
  assumes inv: "bimap_inv m b lt rt" and x: "x \<in> set_tree lt"
    and inv1: "bimap_inv m1 b1 (erase_tree x lt) (erase_tree x rt)"
    and k1: "left_keys m1 = (left_keys m)(x := None)" "right_keys m1 = (right_keys m)(x := None)"
    and c1: "left_set b1 = left_set b" "right_set b1 = right_set b"
    and nf: "next_free m1 = next_free m"
    and nl: "\<forall>a\<in>set_tree lt. a \<noteq> x \<longrightarrow> \<not> equals_set (left_set b) l (key_of (left_keys m) a)"
    and nr: "\<forall>a\<in>set_tree rt. a \<noteq> x \<longrightarrow> \<not> equals_set (right_set b) r (key_of (right_keys m) a)"
  shows "\<exists>m2 lt2 rt2. insert_bimap m1 b1 l r
            = Some (m2, b1\<lparr>m_size := m_size b1 + 1\<rparr>, Left_iterator (Some (next_free m)))
     \<and> bimap_inv m2 (b1\<lparr>m_size := m_size b1 + 1\<rparr>) lt2 rt2
     \<and> left_keys m2 (next_free m) = Some l \<and> right_keys m2 (next_free m) = Some r
     \<and> set_tree lt2 = insert (next_free m) (set_tree lt - {x})
     \<and> (\<not> equals_set (left_set b) l (key_of (left_keys m) x)
           \<longrightarrow> \<not> has_left m2 (b1\<lparr>m_size := m_size b1 + 1\<rparr>) lt2 (key_of (left_keys m) x))
     \<and> (\<not> equals_set (right_set b) r (key_of (right_keys m) x)
           \<longrightarrow> \<not> has_right m2 (b1\<lparr>m_size := m_size b1 + 1\<rparr>) rt2 (key_of (right_keys m) x))"
proof -
  let ?b2 = "b1\<lparr>m_size := m_size b1 + 1\<rparr>"
  let ?a = "next_free m"
  from inv have il: "set_inv (left_set b) (left_keys m) (left_nodes m) lt"
    and ir: "set_inv (right_set b) (right_keys m) (right_nodes m) rt"
    and st: "set_tree lt = set_tree rt" and mo: "mem_ok m"
    by (simp_all add: bimap_inv_def)
  have dl: "distinct (inorder lt)" and dr: "distinct (inorder rt)"
    and sl: "sorted_wrt (compare (left_set b)) (map (key_of (left_keys m)) (inorder lt))"
    and sr: "sorted_wrt (compare (right_set b)) (map (key_of (right_keys m)) (inorder rt))"
    and wl: "strict_weak_order (compare (left_set b))"
    and wr: "strict_weak_order (compare (right_set b))"
    using il ir by (auto elim!: set_invD)
  have xr: "x \<in> set_tree rt" using x st by simp
  note se = set_erase_tree[OF dl, of x] set_erase_tree[OF dr, of x]
  have kl1: "\<And>a. a \<noteq> x \<Longrightarrow> key_of (left_keys m1) a = key_of (left_keys m) a"
    and kr1: "\<And>a. a \<noteq> x \<Longrightarrow> key_of (right_keys m1) a = key_of (right_keys m) a"
    using k1 by (simp_all add: key_of_def)
  have ab1: "\<not> has_left m1 b1 (erase_tree x lt) l" "\<not> has_right m1 b1 (erase_tree x rt) r"
    using nl nr kl1 kr1 c1 unfolding has_left_def has_right_def se
    by (auto simp: equals_set_def greater_set_def less_set_def)
  from insert_absent[OF inv1 ab1] obtain m2 where
    r: "insert_bimap m1 b1 l r = Some (m2, ?b2, Left_iterator (Some (next_free m1)))"
    "left_keys m2 = (left_keys m1)(next_free m1 \<mapsto> l)"
    "right_keys m2 = (right_keys m1)(next_free m1 \<mapsto> r)"
    "bimap_inv m2 ?b2
        (ins_tree (compare (left_set b1)) (key_of (left_keys m2)) (next_free m1) (erase_tree x lt))
        (ins_tree (compare (right_set b1)) (key_of (right_keys m2)) (next_free m1) (erase_tree x rt))"
    by blast
  let ?lt2 = "ins_tree (compare (left_set b1)) (key_of (left_keys m2)) ?a (erase_tree x lt)"
  let ?rt2 = "ins_tree (compare (right_set b1)) (key_of (right_keys m2)) ?a (erase_tree x rt)"
  have fresh: "?a \<notin> set_tree lt"
  proof
    assume "?a \<in> set_tree lt"
    then have "?a \<in> dom (left_keys m)" using set_inv_dom[OF il] by auto
    then have "?a < ?a" using mo unfolding mem_ok_def by blast
    then show False by simp
  qed
  then have ax: "?a \<noteq> x" using x by auto
  have kl2: "\<And>a. a \<noteq> x \<Longrightarrow> a \<noteq> ?a \<Longrightarrow> key_of (left_keys m2) a = key_of (left_keys m) a"
    and kr2: "\<And>a. a \<noteq> x \<Longrightarrow> a \<noteq> ?a \<Longrightarrow> key_of (right_keys m2) a = key_of (right_keys m) a"
    and ka: "key_of (left_keys m2) ?a = l" "key_of (right_keys m2) ?a = r"
    using r(2,3) k1 nf by (simp_all add: key_of_def)
  have L: "\<not> equals_set (left_set b) l (key_of (left_keys m) x)
           \<Longrightarrow> \<not> has_left m2 ?b2 ?lt2 (key_of (left_keys m) x)"
  proof
    assume ne: "\<not> equals_set (left_set b) l (key_of (left_keys m) x)"
    assume "has_left m2 ?b2 ?lt2 (key_of (left_keys m) x)"
    then obtain a where a: "a = ?a \<or> (a \<in> set_tree lt \<and> a \<noteq> x)"
      "equals_set (left_set b) (key_of (left_keys m) x) (key_of (left_keys m2) a)"
      unfolding has_left_def using se c1 by auto
    show False
    proof (cases "a = ?a")
      case True
      then show ?thesis using a(2) ka ne equals_set_sym by metis
    next
      case False
      then have a': "a \<in> set_tree lt" "a \<noteq> x" using a(1) by auto
      from sorted_wrt_no_equiv[OF wl sl, of x a] x a'
      have "compare (left_set b) (key_of (left_keys m) a) (key_of (left_keys m) x)
        \<or> compare (left_set b) (key_of (left_keys m) x) (key_of (left_keys m) a)" by simp
      then show ?thesis using a(2) kl2[OF a'(2) False]
        by (auto simp: equals_set_def greater_set_def less_set_def)
    qed
  qed
  have R: "\<not> equals_set (right_set b) r (key_of (right_keys m) x)
           \<Longrightarrow> \<not> has_right m2 ?b2 ?rt2 (key_of (right_keys m) x)"
  proof
    assume ne: "\<not> equals_set (right_set b) r (key_of (right_keys m) x)"
    assume "has_right m2 ?b2 ?rt2 (key_of (right_keys m) x)"
    then obtain a where a: "a = ?a \<or> (a \<in> set_tree rt \<and> a \<noteq> x)"
      "equals_set (right_set b) (key_of (right_keys m) x) (key_of (right_keys m2) a)"
      unfolding has_right_def using se c1 by auto
    show False
    proof (cases "a = ?a")
      case True
      then show ?thesis using a(2) ka ne equals_set_sym by metis
    next
      case False
      then have a': "a \<in> set_tree rt" "a \<noteq> x" using a(1) by auto
      from sorted_wrt_no_equiv[OF wr sr, of x a] xr a'
      have "compare (right_set b) (key_of (right_keys m) a) (key_of (right_keys m) x)
        \<or> compare (right_set b) (key_of (right_keys m) x) (key_of (right_keys m) a)" by simp
      then show ?thesis using a(2) kr2[OF a'(2) False]
        by (auto simp: equals_set_def greater_set_def less_set_def)
    qed
  qed
  have "set_tree ?lt2 = insert ?a (set_tree lt - {x})" using se by simp
  moreover have "left_keys m2 ?a = Some l" "right_keys m2 ?a = Some r" using r(2,3) nf by simp_all
  ultimately show ?thesis
    using r(1,4) L R unfolding nf
    by (intro exI[of _ m2] exI[of _ ?lt2] exI[of _ ?rt2]) simp
qed

text \<open>At most one record has a key equivalent to a given key.\<close>

lemma equiv_unique:
  assumes swo: "strict_weak_order (compare s)"
    and s: "sorted_wrt (compare s) (map kf xs)"
    and x: "x \<in> set xs" "equals_set s k (kf x)"
  shows "\<forall>a\<in>set xs. a \<noteq> x \<longrightarrow> \<not> equals_set s k (kf a)"
proof (intro ballI impI notI)
  fix a assume a: "a \<in> set xs" "a \<noteq> x" "equals_set s k (kf a)"
  from sorted_wrt_no_equiv[OF swo s x(1) a(1) a(2)]
  have "compare s (kf a) (kf x) \<or> compare s (kf x) (kf a)" .
  moreover have "\<not> compare s (kf a) (kf x) \<and> \<not> compare s (kf x) (kf a)"
    using swo_equiv_trans[OF swo, of "kf a" k "kf x"] a(3) x(2)
    by (auto simp: equals_set_def greater_set_def less_set_def)
  ultimately show False by simp
qed

lemma at_left_or_default_steal:
  assumes inv: "bimap_inv m b lt rt" and rd: "kref m = Some key" and ol: "outlives kref m x key"
    and ab: "\<not> has_left m b lt key"
    and x: "x \<in> set_tree rt" "equals_set (right_set b) dflt (key_of (right_keys m) x)"
  shows "\<exists>m1 b1 c m2 b2 lt2 rt2.
       erase_right m b (Right_iterator (Some x)) = Some (m1, b1, c)
     \<and> insert_bimap m1 b1 key dflt = Some (m2, b2, Left_iterator (Some (next_free m)))
     \<and> at_left_or_default m b dflt kref = Some (m2, b2, dflt)
     \<and> bimap_inv m2 b2 lt2 rt2
     \<and> set_tree lt2 = insert (next_free m) (set_tree lt - {x})
     \<and> left_keys m2 (next_free m) = Some key \<and> right_keys m2 (next_free m) = Some dflt
     \<and> size_bimap b2 = size_bimap b
     \<and> \<not> has_left m2 b2 lt2 (key_of (left_keys m) x)
     \<and> find_left m2 b2 (key_of (left_keys m) x) = Some (end_left b2)"
proof -
  from inv obtain sa where sa: "sentinel (left_set b) = Some sa" "sentinel (right_set b) = Some sa"
    by (rule bimap_inv_sentinel)
  from inv have il: "set_inv (left_set b) (left_keys m) (left_nodes m) lt"
    and ir: "set_inv (right_set b) (right_keys m) (right_nodes m) rt"
    and st: "set_tree lt = set_tree rt"
    by (simp_all add: bimap_inv_def)
  have sr: "sorted_wrt (compare (right_set b)) (map (key_of (right_keys m)) (inorder rt))"
    and wr: "strict_weak_order (compare (right_set b))"
    using ir by (auto elim!: set_invD)
  have xl: "x \<in> set_tree lt" using x(1) st by simp
  let ?b1 = "b\<lparr>m_size := m_size b - 1\<rparr>"
  let ?b2 = "?b1\<lparr>m_size := m_size ?b1 + 1\<rparr>"
  from erase_right_correct[OF inv x(1) sa(2)] obtain m1 y where
    e: "erase_right m b (Right_iterator (Some x)) = Some (m1, ?b1, Right_iterator (Some y))"
    "next_in (inorder rt @ [sa]) x = Some y"
    "bimap_inv m1 ?b1 (erase_tree x lt) (erase_tree x rt)"
    "left_keys m1 = (left_keys m)(x := None)" "right_keys m1 = (right_keys m)(x := None)"
    "next_free m1 = next_free m"
    "dom (left_nodes m1) = dom (left_nodes m) - {x}"
    "dom (right_nodes m1) = dom (right_nodes m) - {x}"
    "\<forall>z. z \<notin> set_tree rt \<longrightarrow> z \<noteq> sa \<longrightarrow>
           left_nodes m1 z = left_nodes m z \<and> right_nodes m1 z = right_nodes m z"
    by (elim exE conjE) (rule that)
  have nl: "\<forall>a\<in>set_tree lt. a \<noteq> x \<longrightarrow> \<not> equals_set (left_set b) key (key_of (left_keys m) a)"
    using ab by (auto simp: has_left_def)
  have nr: "\<forall>a\<in>set_tree rt. a \<noteq> x \<longrightarrow> \<not> equals_set (right_set b) dflt (key_of (right_keys m) a)"
    using equiv_unique[OF wr sr, of x dflt] x by simp
  have nx: "\<not> equals_set (left_set b) key (key_of (left_keys m) x)"
    using ab xl by (auto simp: has_left_def)
  from erase_then_insert[OF inv xl e(3) e(4) e(5) _ _ e(6) nl nr, of ] nx
  obtain m2 lt2 rt2 where
    i: "insert_bimap m1 ?b1 key dflt = Some (m2, ?b2, Left_iterator (Some (next_free m)))"
    "bimap_inv m2 ?b2 lt2 rt2"
    "left_keys m2 (next_free m) = Some key" "right_keys m2 (next_free m) = Some dflt"
    "set_tree lt2 = insert (next_free m) (set_tree lt - {x})"
    "\<not> has_left m2 ?b2 lt2 (key_of (left_keys m) x)"
    by auto
  have fr: "find_right m b dflt = Some (Right_iterator (Some x))"
    by (rule find_right_present[OF inv x])
  have ne: "Right_iterator (Some x) \<noteq> end_right b"
    using bimap_inv_keys(5)[OF inv xl] by (auto simp: end_right_def end_set_def)
  have rd1: "kref m1 = Some key" using ol e(4,5) by (simp add: outlives_def)
  have res: "at_left_or_default m b dflt kref = Some (m2, ?b2, dflt)"
    using find_left_end[OF inv, of key] ab fr ne e(1) i(1,4) rd rd1
    by (simp add: at_left_or_default_def flip_left_def deref_right_def)
  have fl: "find_left m2 ?b2 (key_of (left_keys m) x) = Some (end_left ?b2)"
    using find_left_end[OF i(2)] i(6) by simp
  have sz: "size_bimap ?b2 = size_bimap b" by (simp add: size_bimap_def)
  show ?thesis
    using e(1) i res fl sz
    by (intro exI[of _ m1] exI[of _ ?b1] exI[of _ "Right_iterator (Some y)"] exI[of _ m2]
        exI[of _ ?b2] exI[of _ lt2] exI[of _ rt2]) simp
qed

lemma at_right_or_default_steal:
  assumes inv: "bimap_inv m b lt rt" and rd: "kref m = Some key" and ol: "outlives kref m x key"
    and ab: "\<not> has_right m b rt key"
    and x: "x \<in> set_tree lt" "equals_set (left_set b) dflt (key_of (left_keys m) x)"
  shows "\<exists>m1 b1 c m2 b2 lt2 rt2.
       erase_left m b (Left_iterator (Some x)) = Some (m1, b1, c)
     \<and> insert_bimap m1 b1 dflt key = Some (m2, b2, Left_iterator (Some (next_free m)))
     \<and> at_right_or_default m b dflt kref = Some (m2, b2, dflt)
     \<and> bimap_inv m2 b2 lt2 rt2
     \<and> set_tree lt2 = insert (next_free m) (set_tree lt - {x})
     \<and> left_keys m2 (next_free m) = Some dflt \<and> right_keys m2 (next_free m) = Some key
     \<and> size_bimap b2 = size_bimap b
     \<and> \<not> has_right m2 b2 rt2 (key_of (right_keys m) x)
     \<and> find_right m2 b2 (key_of (right_keys m) x) = Some (end_right b2)"
proof -
  from inv obtain sa where sa: "sentinel (left_set b) = Some sa" "sentinel (right_set b) = Some sa"
    by (rule bimap_inv_sentinel)
  from inv have il: "set_inv (left_set b) (left_keys m) (left_nodes m) lt"
    and ir: "set_inv (right_set b) (right_keys m) (right_nodes m) rt"
    and st: "set_tree lt = set_tree rt"
    by (simp_all add: bimap_inv_def)
  have sl: "sorted_wrt (compare (left_set b)) (map (key_of (left_keys m)) (inorder lt))"
    and wl: "strict_weak_order (compare (left_set b))"
    using il by (auto elim!: set_invD)
  have xr: "x \<in> set_tree rt" using x(1) st by simp
  let ?b1 = "b\<lparr>m_size := m_size b - 1\<rparr>"
  let ?b2 = "?b1\<lparr>m_size := m_size ?b1 + 1\<rparr>"
  from erase_left_correct[OF inv x(1) sa(1)] obtain m1 y where
    e: "erase_left m b (Left_iterator (Some x)) = Some (m1, ?b1, Left_iterator (Some y))"
    "next_in (inorder lt @ [sa]) x = Some y"
    "bimap_inv m1 ?b1 (erase_tree x lt) (erase_tree x rt)"
    "left_keys m1 = (left_keys m)(x := None)" "right_keys m1 = (right_keys m)(x := None)"
    "next_free m1 = next_free m"
    "dom (left_nodes m1) = dom (left_nodes m) - {x}"
    "dom (right_nodes m1) = dom (right_nodes m) - {x}"
    "\<forall>z. z \<notin> set_tree lt \<longrightarrow> z \<noteq> sa \<longrightarrow>
           left_nodes m1 z = left_nodes m z \<and> right_nodes m1 z = right_nodes m z"
    by (elim exE conjE) (rule that)
  have nr: "\<forall>a\<in>set_tree rt. a \<noteq> x \<longrightarrow> \<not> equals_set (right_set b) key (key_of (right_keys m) a)"
    using ab by (auto simp: has_right_def)
  have nl: "\<forall>a\<in>set_tree lt. a \<noteq> x \<longrightarrow> \<not> equals_set (left_set b) dflt (key_of (left_keys m) a)"
    using equiv_unique[OF wl sl, of x dflt] x by simp
  have nx: "\<not> equals_set (right_set b) key (key_of (right_keys m) x)"
    using ab xr by (auto simp: has_right_def)
  from erase_then_insert[OF inv x(1) e(3) e(4) e(5) _ _ e(6) nl nr, of ] nx
  obtain m2 lt2 rt2 where
    i: "insert_bimap m1 ?b1 dflt key = Some (m2, ?b2, Left_iterator (Some (next_free m)))"
    "bimap_inv m2 ?b2 lt2 rt2"
    "left_keys m2 (next_free m) = Some dflt" "right_keys m2 (next_free m) = Some key"
    "set_tree lt2 = insert (next_free m) (set_tree lt - {x})"
    "\<not> has_right m2 ?b2 rt2 (key_of (right_keys m) x)"
    by auto
  have fl: "find_left m b dflt = Some (Left_iterator (Some x))"
    by (rule find_left_present[OF inv x])
  have ne: "Left_iterator (Some x) \<noteq> end_left b"
    using bimap_inv_keys(4)[OF inv x(1)] by (auto simp: end_left_def end_set_def)
  have rd1: "kref m1 = Some key" using ol e(4,5) by (simp add: outlives_def)
  have res: "at_right_or_default m b dflt kref = Some (m2, ?b2, dflt)"
    using find_right_end[OF inv, of key] ab fl ne e(1) i(1,3) rd rd1
    by (simp add: at_right_or_default_def deref_left_def)
  have fr: "find_right m2 ?b2 (key_of (right_keys m) x) = Some (end_right ?b2)"
    using find_right_end[OF i(2)] i(6) by simp
  have sz: "size_bimap ?b2 = size_bimap b" by (simp add: size_bimap_def)
  show ?thesis
    using e(1) i res fr sz
    by (intro exI[of _ m1] exI[of _ ?b1] exI[of _ "Left_iterator (Some y)"] exI[of _ m2]
        exI[of _ ?b2] exI[of _ lt2] exI[of _ rt2]) simp
qed

lemma ex_string_inv:
  "bimap_inv ex_string_memory ex_string_bimap (Node Leaf 1 Leaf) (Node Leaf 1 Leaf)"
  by (auto simp: bimap_inv_def set_inv_def mem_ok_def ex_string_memory_def ex_string_bimap_def
      key_of_def swo_less)

subsection \<open>Construction and the cursors returned by find\<close>

lemma bimap_ctor_inv:
  assumes "mem_ok m" "strict_weak_order cl" "strict_weak_order cr"
  shows "bimap_inv (fst (bimap_ctor m cl cr)) (snd (bimap_ctor m cl cr)) Leaf Leaf"
  using assms
  by (auto simp: bimap_ctor_def Let_def bimap_inv_def set_inv_def intrusive_set_ctor_def
      default_node_def mem_ok_def less_Suc_eq)


lemma find_left_cursor:
  assumes inv: "bimap_inv m b lt rt" and f: "find_left m b l = Some it" "it \<noteq> end_left b"
  shows "\<exists>x\<in>set_tree lt. it = Left_iterator (Some x)"
  using find_of_cases[of "compare (left_set b)" "key_of (left_keys m)" l "sentinel (left_set b)"
      "inorder lt"] f
  unfolding find_left_correct[OF inv] by (auto simp: end_left_def end_set_def)

lemma find_right_cursor:
  assumes inv: "bimap_inv m b lt rt" and f: "find_right m b r = Some it" "it \<noteq> end_right b"
  shows "\<exists>x\<in>set_tree rt. it = Right_iterator (Some x)"
  using find_of_cases[of "compare (right_set b)" "key_of (right_keys m)" r "sentinel (right_set b)"
      "inorder rt"] f
  unfolding find_right_correct[OF inv] by (auto simp: end_right_def end_set_def)








subsection \<open>Correctness of traversal\<close>

lemma traverse_left_suffix:
  assumes inv: "bimap_inv m b lt rt" and sa: "sentinel (left_set b) = Some sa"
  shows "inorder lt = pre @ suf \<Longrightarrow>
     traverse_left m b (Left_iterator (Some (hd (suf @ [sa]))))
       = Some (map (key_of (left_keys m)) suf)"
proof (induction suf arbitrary: pre)
  case Nil
  then show ?case by (subst traverse_left.simps) (simp add: end_left_def end_set_def sa)
next
  case (Cons x suf)
  from inv have il: "set_inv (left_set b) (left_keys m) (left_nodes m) lt"
    by (simp add: bimap_inv_def)
  have x: "x \<in> set_tree lt" using Cons.prems by (metis in_set_conv_decomp set_inorder)
  have d: "distinct (inorder lt)" using il by (rule set_invD)
  then have xp: "x \<notin> set pre" using Cons.prems by auto
  from increment_correct[OF il sa x] obtain y where
    y: "next_in (inorder lt @ [sa]) x = Some y" "increment (left_nodes m) (Some x) = Some (Some y)"
    by blast
  have "next_in (inorder lt @ [sa]) x = Some (hd (suf @ [sa]))"
    using xp by (cases suf) (simp_all add: Cons.prems next_in_append_notin)
  with y have yy: "y = hd (suf @ [sa])" by simp
  have IH: "traverse_left m b (Left_iterator (Some (hd (suf @ [sa]))))
       = Some (map (key_of (left_keys m)) suf)"
    using Cons.IH[of "pre @ [x]"] Cons.prems by simp
  have ne: "Left_iterator (Some x) \<noteq> end_left b"
    using bimap_inv_keys(4)[OF inv x] by (auto simp: end_left_def end_set_def)
  show ?case
    using ne bimap_inv_keys(1)[OF inv x] y(2) yy IH
    by (subst traverse_left.simps) (simp add: deref_left_def increment_left_def)
qed

lemma traverse_right_suffix:
  assumes inv: "bimap_inv m b lt rt" and sa: "sentinel (right_set b) = Some sa"
  shows "inorder rt = pre @ suf \<Longrightarrow>
     traverse_right m b (Right_iterator (Some (hd (suf @ [sa]))))
       = Some (map (key_of (right_keys m)) suf)"
proof (induction suf arbitrary: pre)
  case Nil
  then show ?case by (subst traverse_right.simps) (simp add: end_right_def end_set_def sa)
next
  case (Cons x suf)
  from inv have ir: "set_inv (right_set b) (right_keys m) (right_nodes m) rt"
    and st: "set_tree lt = set_tree rt"
    by (simp_all add: bimap_inv_def)
  have x: "x \<in> set_tree rt" using Cons.prems by (metis in_set_conv_decomp set_inorder)
  then have xl: "x \<in> set_tree lt" using st by simp
  have d: "distinct (inorder rt)" using ir by (rule set_invD)
  then have xp: "x \<notin> set pre" using Cons.prems by auto
  from increment_correct[OF ir sa x] obtain y where
    y: "next_in (inorder rt @ [sa]) x = Some y" "increment (right_nodes m) (Some x) = Some (Some y)"
    by blast
  have "next_in (inorder rt @ [sa]) x = Some (hd (suf @ [sa]))"
    using xp by (cases suf) (simp_all add: Cons.prems next_in_append_notin)
  with y have yy: "y = hd (suf @ [sa])" by simp
  have IH: "traverse_right m b (Right_iterator (Some (hd (suf @ [sa]))))
       = Some (map (key_of (right_keys m)) suf)"
    using Cons.IH[of "pre @ [x]"] Cons.prems by simp
  have ne: "Right_iterator (Some x) \<noteq> end_right b"
    using bimap_inv_keys(5)[OF inv xl] by (auto simp: end_right_def end_set_def)
  show ?case
    using ne bimap_inv_keys(2)[OF inv xl] y(2) yy IH
    by (subst traverse_right.simps) (simp add: deref_right_def increment_right_def)
qed

lemma traversal_correct:
  assumes inv: "bimap_inv m b lt rt"
  shows "\<exists>itl itr. begin_left m b = Some itl
     \<and> traverse_left m b itl = Some (map (key_of (left_keys m)) (inorder lt))
     \<and> sorted_wrt (compare (left_set b)) (map (key_of (left_keys m)) (inorder lt))
     \<and> begin_right m b = Some itr
     \<and> traverse_right m b itr = Some (map (key_of (right_keys m)) (inorder rt))
     \<and> sorted_wrt (compare (right_set b)) (map (key_of (right_keys m)) (inorder rt))"
proof -
  from inv obtain sa where sa: "sentinel (left_set b) = Some sa" "sentinel (right_set b) = Some sa"
    by (rule bimap_inv_sentinel)
  from inv have il: "set_inv (left_set b) (left_keys m) (left_nodes m) lt"
    and ir: "set_inv (right_set b) (right_keys m) (right_nodes m) rt"
    by (simp_all add: bimap_inv_def)
  have bl: "begin_left m b = Some (Left_iterator (Some (hd (inorder lt @ [sa]))))"
    using begin_set_correct[OF il sa(1)] by (simp add: begin_left_def)
  have br: "begin_right m b = Some (Right_iterator (Some (hd (inorder rt @ [sa]))))"
    using begin_set_correct[OF ir sa(2)] by (simp add: begin_right_def)
  have sl: "sorted_wrt (compare (left_set b)) (map (key_of (left_keys m)) (inorder lt))"
    using il by (rule set_invD)
  have sr: "sorted_wrt (compare (right_set b)) (map (key_of (right_keys m)) (inorder rt))"
    using ir by (rule set_invD)
  show ?thesis
    using bl br sl sr traverse_left_suffix[OF inv sa(1), of "[]" "inorder lt"]
      traverse_right_suffix[OF inv sa(2), of "[]" "inorder rt"]
    by simp
qed

lemma mem_ok_empty: "mem_ok empty_memory"
  by (simp add: mem_ok_def empty_memory_def)


lemma ex_reached_value:
  "(case ex_reached of None \<Rightarrow> None
    | Some (m, b) \<Rightarrow> do {
        itl \<leftarrow> begin_left m b; ls \<leftarrow> traverse_left m b itl;
        itr \<leftarrow> begin_right m b; rs \<leftarrow> traverse_right m b itr;
        Some (itl, ls, itr, rs) })
   = Some (Left_iterator (Some 2), [1, 2, 3], Right_iterator (Some 3), [10, 20, 30])"
  by code_simp

subsection \<open>Correctness of structural equality\<close>

lemma equal_loop_suffix:
  assumes inva: "bimap_inv m a lta rta" and invb: "bimap_inv m b ltb rtb"
    and sa: "sentinel (left_set a) = Some sa" and sb: "sentinel (left_set b) = Some sb"
  shows "length s1 = length s2 \<Longrightarrow> inorder lta = p1 @ s1 \<Longrightarrow> inorder ltb = p2 @ s2 \<Longrightarrow>
     equal_loop m a b (Left_iterator (Some (hd (s1 @ [sa])))) (Left_iterator (Some (hd (s2 @ [sb]))))
       = Some (list_all2 (\<lambda>x y.
            equivalent (compare (left_set a)) (key_of (left_keys m) x) (key_of (left_keys m) y)
          \<and> equivalent (compare (right_set a)) (key_of (right_keys m) x) (key_of (right_keys m) y))
          s1 s2)"
proof (induction s1 s2 arbitrary: p1 p2 rule: list_induct2)
  case Nil
  then show ?case by (subst equal_loop.simps) (simp add: end_left_def end_set_def sb)
next
  case (Cons x s1 y s2)
  from inva have ila: "set_inv (left_set a) (left_keys m) (left_nodes m) lta"
    by (simp add: bimap_inv_def)
  from invb have ilb: "set_inv (left_set b) (left_keys m) (left_nodes m) ltb"
    by (simp add: bimap_inv_def)
  have x: "x \<in> set_tree lta" using Cons.prems(1) by (metis in_set_conv_decomp set_inorder)
  have y: "y \<in> set_tree ltb" using Cons.prems(2) by (metis in_set_conv_decomp set_inorder)
  have da: "distinct (inorder lta)" using ila by (rule set_invD)
  have db: "distinct (inorder ltb)" using ilb by (rule set_invD)
  have xp: "x \<notin> set p1" using da Cons.prems(1) by auto
  have yp: "y \<notin> set p2" using db Cons.prems(2) by auto
  from increment_correct[OF ila sa x] obtain x' where
    x': "next_in (inorder lta @ [sa]) x = Some x'" "increment (left_nodes m) (Some x) = Some (Some x')"
    by blast
  from increment_correct[OF ilb sb y] obtain y' where
    y': "next_in (inorder ltb @ [sb]) y = Some y'" "increment (left_nodes m) (Some y) = Some (Some y')"
    by blast
  have "next_in (inorder lta @ [sa]) x = Some (hd (s1 @ [sa]))"
    using xp by (cases s1) (simp_all add: Cons.prems next_in_append_notin)
  with x' have xx: "x' = hd (s1 @ [sa])" by simp
  have "next_in (inorder ltb @ [sb]) y = Some (hd (s2 @ [sb]))"
    using yp by (cases s2) (simp_all add: Cons.prems next_in_append_notin)
  with y' have yy: "y' = hd (s2 @ [sb])" by simp
  have IH: "equal_loop m a b (Left_iterator (Some (hd (s1 @ [sa])))) (Left_iterator (Some (hd (s2 @ [sb]))))
       = Some (list_all2 (\<lambda>x y.
            equivalent (compare (left_set a)) (key_of (left_keys m) x) (key_of (left_keys m) y)
          \<and> equivalent (compare (right_set a)) (key_of (right_keys m) x) (key_of (right_keys m) y))
          s1 s2)"
    using Cons.IH[of "p1 @ [x]" "p2 @ [y]"] Cons.prems by simp
  have ne: "Left_iterator (Some y) \<noteq> end_left b"
    using bimap_inv_keys(4)[OF invb y] by (auto simp: end_left_def end_set_def)
  note kx = bimap_inv_keys(1,2)[OF inva x] and ky = bimap_inv_keys(1,2)[OF invb y]
  show ?case
    using ne kx ky x'(2) y'(2) xx yy IH
    by (subst equal_loop.simps)
       (auto simp: deref_left_def deref_right_def flip_left_def increment_left_def equivalent_def
          Let_def)
qed

lemma equal_bimap_correct:
  assumes inva: "bimap_inv m a lta rta" and invb: "bimap_inv m b ltb rtb"
    and za: "size_inv a lta" and zb: "size_inv b ltb"
  shows "equal_bimap m a b = Some (structurally_equal (compare (left_set a))
           (compare (right_set a)) (pairs_of m lta) (pairs_of m ltb))"
proof -
  from inva obtain sa where sa: "sentinel (left_set a) = Some sa" by (rule bimap_inv_sentinel)
  from invb obtain sb where sb: "sentinel (left_set b) = Some sb" by (rule bimap_inv_sentinel)
  from inva have ila: "set_inv (left_set a) (left_keys m) (left_nodes m) lta"
    by (simp add: bimap_inv_def)
  from invb have ilb: "set_inv (left_set b) (left_keys m) (left_nodes m) ltb"
    by (simp add: bimap_inv_def)
  have ba: "begin_left m a = Some (Left_iterator (Some (hd (inorder lta @ [sa]))))"
    using begin_set_correct[OF ila sa] by (simp add: begin_left_def)
  have bb: "begin_left m b = Some (Left_iterator (Some (hd (inorder ltb @ [sb]))))"
    using begin_set_correct[OF ilb sb] by (simp add: begin_left_def)
  have sz: "(size_bimap a = size_bimap b) = (length (inorder lta) = length (inorder ltb))"
    using za zb by (simp add: size_inv_def size_bimap_def word_unat_eq_iff)
  let ?P = "\<lambda>x y.
            equivalent (compare (left_set a)) (key_of (left_keys m) x) (key_of (left_keys m) y)
          \<and> equivalent (compare (right_set a)) (key_of (right_keys m) x) (key_of (right_keys m) y)"
  have se: "structurally_equal (compare (left_set a)) (compare (right_set a)) (pairs_of m lta)
       (pairs_of m ltb) = (length (inorder lta) = length (inorder ltb)
          \<and> list_all2 ?P (inorder lta) (inorder ltb))"
    by (simp add: structurally_equal_def pairs_of_def list_all2_map1 list_all2_map2)
  show ?thesis
  proof (cases "length (inorder lta) = length (inorder ltb)")
    case True
    from equal_loop_suffix[OF inva invb sa sb True, of "[]" "[]"] True sz ba bb se
    show ?thesis by (simp add: equal_bimap_def)
  next
    case False
    then show ?thesis using sz se by (simp add: equal_bimap_def)
  qed
qed

lemma sorted_wrt_unique:
  assumes irr: "\<And>x. \<not> R x x" and tr: "\<And>x y z. R x y \<Longrightarrow> R y z \<Longrightarrow> R x z"
  shows "sorted_wrt R xs \<Longrightarrow> sorted_wrt R ys \<Longrightarrow> set xs = set ys \<Longrightarrow> xs = ys"
proof (induction xs arbitrary: ys)
  case Nil
  then show ?case by simp
next
  case (Cons x xs)
  then obtain y ys' where ys: "ys = y # ys'" by (cases ys) auto
  have sx: "\<forall>z\<in>set xs. R x z" and sy: "\<forall>z\<in>set ys'. R y z"
    using Cons.prems ys by auto
  have xy: "x = y"
  proof (rule ccontr)
    assume ne: "x \<noteq> y"
    have "x \<in> set ys'" using Cons.prems(3) ys ne by auto
    then have 1: "R y x" using sy by simp
    have "y \<in> set xs" using Cons.prems(3) ys ne by auto
    then have "R x y" using sx by simp
    with 1 show False using tr irr by blast
  qed
  have "x \<notin> set xs" "y \<notin> set ys'" using sx sy irr by auto
  then have "set xs = set ys'" using Cons.prems(3) ys xy by auto
  then have "xs = ys'" using Cons.IH[of ys'] Cons.prems ys by simp
  then show ?case using xy ys by simp
qed

lemma structurally_equal_refl:
  assumes "strict_weak_order cl" "strict_weak_order cr"
  shows "structurally_equal cl cr ps ps"
  using swo_irrefl[OF assms(1)] swo_irrefl[OF assms(2)]
  by (simp add: structurally_equal_def equivalent_def list_all2_same)

lemma structurally_equal_sym:
  "structurally_equal cl cr ps qs = structurally_equal cl cr qs ps"
proof -
  have "list_all2 (\<lambda>p q. equivalent cl (fst p) (fst q) \<and> equivalent cr (snd p) (snd q)) ps qs
      = list_all2 (\<lambda>p q. equivalent cl (fst p) (fst q) \<and> equivalent cr (snd p) (snd q)) qs ps"
    by (auto simp: list_all2_conv_all_nth equivalent_def)
  then show ?thesis by (auto simp: structurally_equal_def)
qed

lemma pairs_of_sorted:
  assumes "bimap_inv m b lt rt"
  shows "sorted_wrt (\<lambda>p q. compare (left_set b) (fst p) (fst q)) (pairs_of m lt)"
proof -
  from assms have "set_inv (left_set b) (left_keys m) (left_nodes m) lt"
    by (simp add: bimap_inv_def)
  then have "sorted_wrt (compare (left_set b)) (map (key_of (left_keys m)) (inorder lt))"
    by (rule set_invD)
  then show ?thesis by (simp add: pairs_of_def sorted_wrt_map)
qed

lemma same_pairs_same_sequence:
  assumes inva: "bimap_inv m a lta rta" and invb: "bimap_inv m b ltb rtb"
    and c: "compare (left_set b) = compare (left_set a)"
    and s: "set (pairs_of m lta) = set (pairs_of m ltb)"
  shows "pairs_of m lta = pairs_of m ltb"
proof -
  have w: "strict_weak_order (compare (left_set a))"
    using inva by (auto simp: bimap_inv_def elim!: set_invD)
  show ?thesis
  proof (rule sorted_wrt_unique[where R = "\<lambda>p q. compare (left_set a) (fst p) (fst q)"])
    show "\<And>x. \<not> compare (left_set a) (fst x) (fst x)" using swo_irrefl[OF w] by simp
    show "\<And>x y z. compare (left_set a) (fst x) (fst y) \<Longrightarrow> compare (left_set a) (fst y) (fst z)
        \<Longrightarrow> compare (left_set a) (fst x) (fst z)"
      using swo_trans[OF w] by blast
    show "sorted_wrt (\<lambda>p q. compare (left_set a) (fst p) (fst q)) (pairs_of m lta)"
      by (rule pairs_of_sorted[OF inva])
    show "sorted_wrt (\<lambda>p q. compare (left_set a) (fst p) (fst q)) (pairs_of m ltb)"
      using pairs_of_sorted[OF invb] c by simp
    show "set (pairs_of m lta) = set (pairs_of m ltb)" by (rule s)
  qed
qed

text \<open>The loop of \<^verbatim>\<open>operator==\<close> reads its second operand's end cursor only.\<close>

lemma equal_loop_Some_cong_all:
  "equal_loop m a b it1 it2 = Some r \<Longrightarrow>
     \<forall>b'. end_left b' = end_left b \<longrightarrow> equal_loop m a b' it1 it2 = Some r"
  apply (rule equal_loop.raw_induct[where
        P = "\<lambda>m a b it1 it2 r. \<forall>b'. end_left b' = end_left b
               \<longrightarrow> equal_loop m a b' it1 it2 = Some r"])
  subgoal for f m a b it1 it2 r
    apply (intro allI impI)
    apply (subst equal_loop.simps)
    apply (auto simp: Let_def split: bind_splits if_splits)
    done
  apply assumption
  done

lemma equal_loop_Some_cong:
  "equal_loop m a b it1 it2 = Some r \<Longrightarrow> end_left b' = end_left b \<Longrightarrow>
     equal_loop m a b' it1 it2 = Some r"
  using equal_loop_Some_cong_all by blast

lemma equal_loop_cong:
  assumes "end_left b' = end_left b"
  shows "equal_loop m a b' it1 it2 = equal_loop m a b it1 it2"
proof (cases "equal_loop m a b it1 it2")
  case None
  show ?thesis
  proof (cases "equal_loop m a b' it1 it2")
    case None
    then show ?thesis using \<open>equal_loop m a b it1 it2 = None\<close> by simp
  next
    case (Some r)
    from equal_loop_Some_cong[OF Some assms[symmetric]] have "equal_loop m a b it1 it2 = Some r" .
    then show ?thesis using None by simp
  qed
next
  case (Some r)
  from equal_loop_Some_cong[OF Some assms] show ?thesis using Some by simp
qed

lemma equal_bimap_ignores_compare:
  "equal_bimap m a (b\<lparr>left_set := (left_set b)\<lparr>compare := c1\<rparr>,
                      right_set := (right_set b)\<lparr>compare := c2\<rparr>\<rparr>) = equal_bimap m a b"
proof -
  let ?b' = "b\<lparr>left_set := (left_set b)\<lparr>compare := c1\<rparr>, right_set := (right_set b)\<lparr>compare := c2\<rparr>\<rparr>"
  have e: "end_left ?b' = end_left b" by (simp add: end_left_def end_set_def)
  have b: "begin_left m ?b' = begin_left m b" by (simp add: begin_left_def begin_set_def)
  have s: "size_bimap ?b' = size_bimap b" by (simp add: size_bimap_def)
  have l: "equal_loop m a ?b' = equal_loop m a b"
    by (intro ext) (rule equal_loop_cong[OF e])
  show ?thesis unfolding equal_bimap_def b s l by simp
qed

lemma swo_mod: "strict_weak_order (\<lambda>x y :: nat. x mod 10 < y mod 10)"
  by (auto simp: strict_weak_order_def)

lemma ex_two_inv_a:
  "bimap_inv ex_two_memory ex_two_a (Node Leaf 2 (Node Leaf 3 Leaf)) (Node Leaf 2 (Node Leaf 3 Leaf))"
  by (auto simp: bimap_inv_def set_inv_def mem_ok_def ex_two_memory_def ex_two_a_def
      key_of_def swo_less)

lemma ex_two_inv_b:
  "bimap_inv ex_two_memory ex_two_b (Node (Node Leaf 5 Leaf) 4 Leaf) (Node (Node Leaf 5 Leaf) 4 Leaf)"
  by (auto simp: bimap_inv_def set_inv_def mem_ok_def ex_two_memory_def ex_two_b_def
      key_of_def swo_less)

lemma ex_mod_inv_a:
  "bimap_inv ex_mod_memory ex_mod_a (Node Leaf 2 Leaf) (Node Leaf 2 Leaf)"
  by (auto simp: bimap_inv_def set_inv_def mem_ok_def ex_mod_memory_def ex_mod_a_def
      key_of_def swo_less)

lemma ex_mod_inv_b:
  "bimap_inv ex_mod_memory ex_mod_b (Node Leaf 3 Leaf) (Node Leaf 3 Leaf)"
  by (auto simp: bimap_inv_def set_inv_def mem_ok_def ex_mod_memory_def ex_mod_b_def
      key_of_def swo_less swo_mod)

subsection \<open>Swap, copy construction, destruction and assignment\<close>

lemma unchanged_on_refl [simp]: "unchanged_on A m m"
  by (simp add: unchanged_on_def)

lemma unchanged_on_trans:
  "unchanged_on A m m1 \<Longrightarrow> unchanged_on B m1 m2 \<Longrightarrow> C \<subseteq> A \<Longrightarrow> C \<subseteq> B \<Longrightarrow> unchanged_on C m m2"
  by (auto simp: unchanged_on_def subset_iff)

lemma unchanged_on_mono: "unchanged_on A m m' \<Longrightarrow> B \<subseteq> A \<Longrightarrow> unchanged_on B m m'"
  by (auto simp: unchanged_on_def)

lemma cells_bound:
  assumes "bimap_inv m b lt rt"
  shows "cells b lt \<subseteq> {..<next_free m}"
proof -
  from assms have il: "set_inv (left_set b) (left_keys m) (left_nodes m) lt" and ok: "mem_ok m"
    by (simp_all add: bimap_inv_def)
  from il obtain sa ns where "sentinel (left_set b) = Some sa" "left_nodes m sa = Some ns"
    by (rule set_invD)
  moreover have "set_tree lt \<subseteq> dom (left_nodes m)" using set_inv_dom[OF il] by simp
  ultimately have "cells b lt \<subseteq> dom (left_nodes m)" by (auto simp: cells_def)
  with ok show ?thesis by (auto simp: mem_ok_def)
qed

lemma bimap_inv_frame:
  assumes inv: "bimap_inv m b lt rt" and u: "unchanged_on (cells b lt) m m'" and ok: "mem_ok m'"
  shows "bimap_inv m' b lt rt"
proof -
  from inv have il: "set_inv (left_set b) (left_keys m) (left_nodes m) lt"
    and ir: "set_inv (right_set b) (right_keys m) (right_nodes m) rt"
    and ss: "sentinel (left_set b) = sentinel (right_set b)"
    and st: "set_tree lt = set_tree rt"
    by (simp_all add: bimap_inv_def)
  from il obtain sa where sa: "sentinel (left_set b) = Some sa" by (rule set_invD)
  have un: "\<And>x. x \<in> set_tree lt \<Longrightarrow>
      left_nodes m' x = left_nodes m x \<and> right_nodes m' x = right_nodes m x
        \<and> left_keys m' x = left_keys m x \<and> right_keys m' x = right_keys m x"
    using u by (auto simp: unchanged_on_def cells_def)
  have us: "left_nodes m' sa = left_nodes m sa" "right_nodes m' sa = right_nodes m sa"
    using u sa by (auto simp: unchanged_on_def cells_def)
  have sr: "sentinel (right_set b) = Some sa" using ss sa by simp
  have "set_inv (left_set b) (left_keys m') (left_nodes m') lt"
    by (rule set_inv_cong[OF il sa]) (simp_all add: un us)
  moreover have "set_inv (right_set b) (right_keys m') (right_nodes m') rt"
    by (rule set_inv_cong[OF ir sr]) (simp_all add: un us st[symmetric])
  ultimately show ?thesis using ss st ok by (simp add: bimap_inv_def)
qed

lemma pairs_of_frame:
  "unchanged_on A m m' \<Longrightarrow> set_tree lt \<subseteq> A \<Longrightarrow> pairs_of m' lt = pairs_of m lt"
  by (auto simp: pairs_of_def unchanged_on_def key_of_def subset_iff)

lemma reparent_opt:
  assumes t: "tree_at nh par p t" and d: "distinct (inorder t)"
  shows "\<exists>nh'. (if p \<noteq> None then set_parent nh p q else Some nh) = Some nh'
     \<and> tree_at nh' q p t \<and> (\<forall>x. Some x \<noteq> p \<longrightarrow> nh' x = nh x) \<and> dom nh' = dom nh"
proof (cases t)
  case Leaf
  then show ?thesis using t by simp
next
  case (Node l a r)
  with t obtain n where p: "p = Some a" and n: "nh a = Some n"
    by (auto split: option.splits)
  have ta: "tree_at nh par (Some a) t" using t p by simp
  have "tree_at (nh(a \<mapsto> n\<lparr>parent := q\<rparr>)) q (Some a) t"
    by (rule tree_at_reparent[OF ta d n])
  moreover have "dom (nh(a \<mapsto> n\<lparr>parent := q\<rparr>)) = dom nh" using n by auto
  ultimately show ?thesis using p n by simp
qed

lemma swap_set_correct:
  assumes i1: "set_inv s1 gk nh t1" and i2: "set_inv s2 gk nh t2"
    and sa1: "sentinel s1 = Some sa1" and sa2: "sentinel s2 = Some sa2"
    and ne: "sa1 \<noteq> sa2" and n12: "sa1 \<notin> set_tree t2" and n21: "sa2 \<notin> set_tree t1"
    and dj: "set_tree t1 \<inter> set_tree t2 = {}"
  shows "\<exists>nh'. swap_set nh s1 s2
        = Some (nh', s1\<lparr>compare := compare s2\<rparr>, s2\<lparr>compare := compare s1\<rparr>)
     \<and> set_inv (s1\<lparr>compare := compare s2\<rparr>) gk nh' t2
     \<and> set_inv (s2\<lparr>compare := compare s1\<rparr>) gk nh' t1
     \<and> (\<forall>x. x \<notin> set_tree t1 \<longrightarrow> x \<notin> set_tree t2 \<longrightarrow> x \<noteq> sa1 \<longrightarrow> x \<noteq> sa2 \<longrightarrow> nh' x = nh x)
     \<and> dom nh' = dom nh"
proof -
  from i1 sa1 obtain ns1 where ns1: "nh sa1 = Some ns1" "parent ns1 = None" "right ns1 = None"
    "tree_at nh (Some sa1) (left ns1) t1" and n11: "sa1 \<notin> set_tree t1"
    and d1: "distinct (inorder t1)" and k1: "set_tree t1 \<subseteq> dom gk"
    and so1: "sorted_wrt (compare s1) (map (key_of gk) (inorder t1))"
    and sw1: "strict_weak_order (compare s1)"
    by (elim set_invD) simp
  from i2 sa2 obtain ns2 where ns2: "nh sa2 = Some ns2" "parent ns2 = None" "right ns2 = None"
    "tree_at nh (Some sa2) (left ns2) t2" and n22: "sa2 \<notin> set_tree t2"
    and d2: "distinct (inorder t2)" and k2: "set_tree t2 \<subseteq> dom gk"
    and so2: "sorted_wrt (compare s2) (map (key_of gk) (inorder t2))"
    and sw2: "strict_weak_order (compare s2)"
    by (elim set_invD) simp
  define nh2 where "nh2 = nh(sa1 \<mapsto> ns1\<lparr>left := left ns2\<rparr>, sa2 \<mapsto> ns2\<lparr>left := left ns1\<rparr>)"
  have r1: "left ns1 = root_ptr t1" by (rule tree_at_root_ptr[OF ns1(4)])
  have r2: "left ns2 = root_ptr t2" by (rule tree_at_root_ptr[OF ns2(4)])
  have r1n: "left ns1 \<noteq> Some sa1" "left ns1 \<noteq> Some sa2"
    using tree_at_root_mem[of nh "Some sa1" _ t1] ns1(4) n11 n21 by auto
  have r2n: "left ns2 \<noteq> Some sa1" "left ns2 \<noteq> Some sa2"
    using tree_at_root_mem[of nh "Some sa2" _ t2] ns2(4) n12 n22 by auto
  have a2: "tree_at nh2 (Some sa2) (left ns2) t2"
    using ns2(4) n12 n22 by (subst tree_at_cong[of t2 nh2 nh]) (auto simp: nh2_def)
  from reparent_opt[OF a2 d2, of "Some sa1"] obtain nh3 where
    nh3: "(if left ns2 \<noteq> None then set_parent nh2 (left ns2) (Some sa1) else Some nh2) = Some nh3"
      "tree_at nh3 (Some sa1) (left ns2) t2" "\<And>x. Some x \<noteq> left ns2 \<Longrightarrow> nh3 x = nh2 x"
      "dom nh3 = dom nh2"
    by blast
  have f3: "\<And>x. x \<in> set_tree t1 \<Longrightarrow> nh3 x = nh x"
  proof -
    fix x assume x: "x \<in> set_tree t1"
    have "Some x \<noteq> left ns2"
      using tree_at_root_mem[of nh "Some sa2" x t2] ns2(4) dj x by auto
    then have "nh3 x = nh2 x" by (rule nh3(3))
    also have "\<dots> = nh x" using x n11 n21 by (auto simp: nh2_def)
    finally show "nh3 x = nh x" .
  qed
  have a1: "tree_at nh3 (Some sa1) (left ns1) t1"
    using ns1(4) by (subst tree_at_cong[of t1 nh3 nh]) (auto simp: f3)
  from reparent_opt[OF a1 d1, of "Some sa2"] obtain nh4 where
    nh4: "(if left ns1 \<noteq> None then set_parent nh3 (left ns1) (Some sa2) else Some nh3) = Some nh4"
      "tree_at nh4 (Some sa2) (left ns1) t1" "\<And>x. Some x \<noteq> left ns1 \<Longrightarrow> nh4 x = nh3 x"
      "dom nh4 = dom nh3"
    by blast
  have f4: "\<And>x. x \<in> set_tree t2 \<Longrightarrow> nh4 x = nh3 x"
  proof -
    fix x assume x: "x \<in> set_tree t2"
    have "Some x \<noteq> left ns1"
      using tree_at_root_mem[of nh "Some sa1" x t1] ns1(4) dj x by auto
    then show "nh4 x = nh3 x" by (rule nh4(3))
  qed
  have b2: "tree_at nh4 (Some sa1) (left ns2) t2"
    using nh3(2) by (subst tree_at_cong[of t2 nh4 nh3]) (auto simp: f4)
  have s1: "nh4 sa1 = Some (ns1\<lparr>left := left ns2\<rparr>)"
    using nh4(3)[of sa1] nh3(3)[of sa1] r1n r2n ne by (auto simp: nh2_def)
  have s2: "nh4 sa2 = Some (ns2\<lparr>left := left ns1\<rparr>)"
    using nh4(3)[of sa2] nh3(3)[of sa2] r1n r2n ne by (auto simp: nh2_def)
  have s13: "nh3 sa2 = Some (ns2\<lparr>left := left ns1\<rparr>)"
    using nh3(3)[of sa2] r2n ne by (auto simp: nh2_def)
  have s12: "nh2 sa1 = Some (ns1\<lparr>left := left ns2\<rparr>)"
    using ne by (auto simp: nh2_def)
  have run: "swap_set nh s1 s2
        = Some (nh4, s1\<lparr>compare := compare s2\<rparr>, s2\<lparr>compare := compare s1\<rparr>)"
    using ns1(1) ns2(1) ne nh3(1) nh4(1) s12 s13 unfolding nh2_def
    by (simp add: swap_set_def sa1 sa2 Let_def split del: if_split cong: if_cong)
  have inv1: "set_inv (s1\<lparr>compare := compare s2\<rparr>) gk nh4 t2"
    using s1 b2 ns1 n12 d2 k2 so2 sw2 by (simp add: set_inv_def sa1)
  have inv2: "set_inv (s2\<lparr>compare := compare s1\<rparr>) gk nh4 t1"
    using s2 nh4(2) ns2 n21 d1 k1 so1 sw1 by (simp add: set_inv_def sa2)
  have fr: "\<forall>x. x \<notin> set_tree t1 \<longrightarrow> x \<notin> set_tree t2 \<longrightarrow> x \<noteq> sa1 \<longrightarrow> x \<noteq> sa2 \<longrightarrow> nh4 x = nh x"
  proof (intro allI impI)
    fix x assume x: "x \<notin> set_tree t1" "x \<notin> set_tree t2" "x \<noteq> sa1" "x \<noteq> sa2"
    have "Some x \<noteq> left ns1"
      using tree_at_root_mem[of nh "Some sa1" x t1] ns1(4) x by auto
    moreover have "Some x \<noteq> left ns2"
      using tree_at_root_mem[of nh "Some sa2" x t2] ns2(4) x by auto
    ultimately show "nh4 x = nh x" using nh4(3)[of x] nh3(3)[of x] x by (simp add: nh2_def)
  qed
  have dm: "dom nh4 = dom nh" using nh4(4) nh3(4) ns1(1) ns2(1) by (auto simp: nh2_def)
  from run inv1 inv2 fr dm show ?thesis by blast
qed

lemma cells_disjointD:
  assumes ia: "bimap_inv m a lta rta" and ib: "bimap_inv m b ltb rtb"
    and dj: "cells a lta \<inter> cells b ltb = {}"
  obtains sa sb where "sentinel (left_set a) = Some sa" "sentinel (right_set a) = Some sa"
    "sentinel (left_set b) = Some sb" "sentinel (right_set b) = Some sb"
    "sa \<noteq> sb" "sa \<notin> set_tree lta" "sa \<notin> set_tree ltb" "sb \<notin> set_tree lta" "sb \<notin> set_tree ltb"
    "set_tree lta \<inter> set_tree ltb = {}" "set_tree rta = set_tree lta" "set_tree rtb = set_tree ltb"
proof -
  from ia obtain sa where sa: "sentinel (left_set a) = Some sa" "sentinel (right_set a) = Some sa"
    "sa \<notin> set_tree lta" by (rule bimap_inv_sentinel)
  from ib obtain sb where sb: "sentinel (left_set b) = Some sb" "sentinel (right_set b) = Some sb"
    "sb \<notin> set_tree ltb" by (rule bimap_inv_sentinel)
  have "sa \<noteq> sb" "sa \<notin> set_tree ltb" "sb \<notin> set_tree lta" "set_tree lta \<inter> set_tree ltb = {}"
    using dj sa(1) sb(1) by (auto simp: cells_def)
  moreover have "set_tree rta = set_tree lta" "set_tree rtb = set_tree ltb"
    using ia ib by (simp_all add: bimap_inv_def)
  ultimately show thesis using sa sb by (intro that)
qed

lemma swap_bimap_correct:
  assumes ia: "bimap_inv m a lta rta" and ib: "bimap_inv m b ltb rtb"
    and dj: "cells a lta \<inter> cells b ltb = {}"
  defines "a' \<equiv> \<lparr>m_size = m_size b, left_set = (left_set a)\<lparr>compare := compare (left_set b)\<rparr>,
          right_set = (right_set a)\<lparr>compare := compare (right_set b)\<rparr>\<rparr>"
    and "b' \<equiv> \<lparr>m_size = m_size a, left_set = (left_set b)\<lparr>compare := compare (left_set a)\<rparr>,
          right_set = (right_set b)\<lparr>compare := compare (right_set a)\<rparr>\<rparr>"
  shows "\<exists>m'. swap_bimap m a b = Some (m', a', b')
     \<and> bimap_inv m' a' ltb rtb \<and> bimap_inv m' b' lta rta
     \<and> unchanged_on (- (cells a lta \<union> cells b ltb)) m m'
     \<and> left_keys m' = left_keys m \<and> right_keys m' = right_keys m
     \<and> next_free m' = next_free m"
proof -
  from ia ib dj obtain sa sb where s: "sentinel (left_set a) = Some sa"
    "sentinel (right_set a) = Some sa" "sentinel (left_set b) = Some sb"
    "sentinel (right_set b) = Some sb" and ne: "sa \<noteq> sb"
    and n: "sa \<notin> set_tree lta" "sa \<notin> set_tree ltb" "sb \<notin> set_tree lta" "sb \<notin> set_tree ltb"
    and d: "set_tree lta \<inter> set_tree ltb = {}"
    and st: "set_tree rta = set_tree lta" "set_tree rtb = set_tree ltb"
    by (rule cells_disjointD)
  from ia have la: "set_inv (left_set a) (left_keys m) (left_nodes m) lta"
    and ra: "set_inv (right_set a) (right_keys m) (right_nodes m) rta" and ok: "mem_ok m"
    by (simp_all add: bimap_inv_def)
  from ib have lb: "set_inv (left_set b) (left_keys m) (left_nodes m) ltb"
    and rb: "set_inv (right_set b) (right_keys m) (right_nodes m) rtb"
    by (simp_all add: bimap_inv_def)
  have nr: "sa \<notin> set_tree rtb" "sb \<notin> set_tree rta" "set_tree rta \<inter> set_tree rtb = {}"
    using n d st by simp_all
  from swap_set_correct[OF la lb s(1) s(3) ne n(2) n(3) d] obtain ln where
    ln: "swap_set (left_nodes m) (left_set a) (left_set b)
          = Some (ln, (left_set a)\<lparr>compare := compare (left_set b)\<rparr>,
                  (left_set b)\<lparr>compare := compare (left_set a)\<rparr>)"
      "set_inv ((left_set a)\<lparr>compare := compare (left_set b)\<rparr>) (left_keys m) ln ltb"
      "set_inv ((left_set b)\<lparr>compare := compare (left_set a)\<rparr>) (left_keys m) ln lta"
      "\<forall>x. x \<notin> set_tree lta \<longrightarrow> x \<notin> set_tree ltb \<longrightarrow> x \<noteq> sa \<longrightarrow> x \<noteq> sb \<longrightarrow> ln x = left_nodes m x"
      "dom ln = dom (left_nodes m)"
    by (elim exE conjE) (rule that)
  from swap_set_correct[OF ra rb s(2) s(4) ne nr(1) nr(2) nr(3)] obtain rn where
    rn: "swap_set (right_nodes m) (right_set a) (right_set b)
          = Some (rn, (right_set a)\<lparr>compare := compare (right_set b)\<rparr>,
                  (right_set b)\<lparr>compare := compare (right_set a)\<rparr>)"
      "set_inv ((right_set a)\<lparr>compare := compare (right_set b)\<rparr>) (right_keys m) rn rtb"
      "set_inv ((right_set b)\<lparr>compare := compare (right_set a)\<rparr>) (right_keys m) rn rta"
      "\<forall>x. x \<notin> set_tree rta \<longrightarrow> x \<notin> set_tree rtb \<longrightarrow> x \<noteq> sa \<longrightarrow> x \<noteq> sb \<longrightarrow> rn x = right_nodes m x"
      "dom rn = dom (right_nodes m)"
    by (elim exE conjE) (rule that)
  define m' where "m' = m\<lparr>left_nodes := ln, right_nodes := rn\<rparr>"
  have run: "swap_bimap m a b = Some (m', a', b')"
    by (simp add: swap_bimap_def ln(1) rn(1) m'_def a'_def b'_def)
  have ok': "mem_ok m'" using ok ln(5) rn(5) by (simp add: mem_ok_def m'_def)
  have i1: "bimap_inv m' a' ltb rtb"
    using ln(2) rn(2) s st ok' by (simp add: bimap_inv_def a'_def m'_def)
  have i2: "bimap_inv m' b' lta rta"
    using ln(3) rn(3) s st ok' by (simp add: bimap_inv_def b'_def m'_def)
  have u: "unchanged_on (- (cells a lta \<union> cells b ltb)) m m'"
    using ln(4) rn(4) s st by (auto simp: unchanged_on_def cells_def m'_def)
  show ?thesis using run i1 i2 u by (auto simp: m'_def)
qed

lemma insert_absent_frame:
  assumes inv: "bimap_inv m b lt rt" and ab: "\<not> has_left m b lt l" "\<not> has_right m b rt r"
  shows "\<exists>m' lt' rt'. insert_bimap m b l r
        = Some (m', b\<lparr>m_size := m_size b + 1\<rparr>, Left_iterator (Some (next_free m)))
     \<and> bimap_inv m' (b\<lparr>m_size := m_size b + 1\<rparr>) lt' rt'
     \<and> set_tree lt' = insert (next_free m) (set_tree lt)
     \<and> unchanged_on ({..<next_free m} - cells b lt) m m'
     \<and> next_free m' = Suc (next_free m)
     \<and> left_keys m' = (left_keys m)(next_free m \<mapsto> l)
     \<and> right_keys m' = (right_keys m)(next_free m \<mapsto> r)"
proof -
  from insert_absent[OF inv ab] obtain m' where
    m': "insert_bimap m b l r
          = Some (m', b\<lparr>m_size := m_size b + 1\<rparr>, Left_iterator (Some (next_free m)))"
      "left_keys m' = (left_keys m)(next_free m \<mapsto> l)"
      "right_keys m' = (right_keys m)(next_free m \<mapsto> r)"
      "next_free m' = Suc (next_free m)"
      "dom (left_nodes m') = insert (next_free m) (dom (left_nodes m))"
      "dom (right_nodes m') = insert (next_free m) (dom (right_nodes m))"
      "\<forall>x. x \<notin> set_tree lt \<longrightarrow> x \<noteq> next_free m \<longrightarrow> Some x \<noteq> sentinel (left_set b) \<longrightarrow>
           left_nodes m' x = left_nodes m x \<and> right_nodes m' x = right_nodes m x"
      "bimap_inv m' (b\<lparr>m_size := m_size b + 1\<rparr>)
          (ins_tree (compare (left_set b)) (key_of (left_keys m')) (next_free m) lt)
          (ins_tree (compare (right_set b)) (key_of (right_keys m')) (next_free m) rt)"
    by (elim exE conjE) (rule that)
  have u: "unchanged_on ({..<next_free m} - cells b lt) m m'"
    using m'(2,3,7) by (auto simp: unchanged_on_def cells_def)
  show ?thesis
    using m'(1,2,3,4,8) u
    by (intro exI[of _ m']
        exI[of _ "ins_tree (compare (left_set b)) (key_of (left_keys m')) (next_free m) lt"]
        exI[of _ "ins_tree (compare (right_set b)) (key_of (right_keys m')) (next_free m) rt"])
      simp
qed

lemma keys_not_equiv:
  assumes i: "set_inv s gk nh t" and p: "p \<in> set_tree t" and x: "x \<in> set_tree t"
    and ne: "p \<noteq> x" and c: "compare s' = compare s"
  shows "\<not> equals_set s' (key_of gk x) (key_of gk p)"
proof -
  from i have so: "sorted_wrt (compare s) (map (key_of gk) (inorder t))"
    and sw: "strict_weak_order (compare s)"
    by (simp_all add: set_inv_def)
  have xx: "equals_set s (key_of gk x) (key_of gk x)"
    using swo_irrefl[OF sw] by (simp add: equals_set_def greater_set_def less_set_def)
  have xs: "x \<in> set (inorder t)" using x by simp
  from equiv_unique[OF sw so xs xx] p ne have "\<not> equals_set s (key_of gk x) (key_of gk p)"
    by simp
  then show ?thesis using c by (simp add: equals_set_def greater_set_def less_set_def)
qed

lemma copy_loop_correct:
  assumes so: "sentinel (left_set other) = Some so"
  shows "bimap_inv m other lto rto \<Longrightarrow> bimap_inv m c lt rt \<Longrightarrow>
     compare (left_set c) = compare (left_set other) \<Longrightarrow>
     compare (right_set c) = compare (right_set other) \<Longrightarrow>
     cells c lt \<inter> A = {} \<Longrightarrow> A \<subseteq> {..<next_free m} \<Longrightarrow> cells other lto \<subseteq> A \<Longrightarrow>
     inorder lto = pre @ suf \<Longrightarrow>
     set (pairs_of m lt) = (\<lambda>a. (key_of (left_keys m) a, key_of (right_keys m) a)) ` set pre \<Longrightarrow>
     \<exists>m' c' lt' rt'. copy_loop m c other (Left_iterator (Some (hd (suf @ [so])))) = Some (m', c')
       \<and> bimap_inv m' c' lt' rt' \<and> cells c' lt' \<inter> A = {} \<and> unchanged_on A m m'
       \<and> next_free m \<le> next_free m'
       \<and> set (pairs_of m' lt') = set (pairs_of m lto)
       \<and> left_set c' = left_set c \<and> right_set c' = right_set c
       \<and> m_size c' = m_size c + of_nat (length suf)"
proof (induction suf arbitrary: m c lt rt pre)
  case Nil
  have "copy_loop m c other (Left_iterator (Some so)) = Some (m, c)"
    by (subst copy_loop.simps) (simp add: end_left_def end_set_def so)
  moreover have "set (pairs_of m lt) = set (pairs_of m lto)"
    using Nil.prems(8,9) by (simp add: pairs_of_def)
  ultimately show ?case using Nil.prems(2,5) by auto
next
  case (Cons x suf)
  note io = Cons.prems(1) and ic = Cons.prems(2) and cl = Cons.prems(3) and cr = Cons.prems(4)
    and dj = Cons.prems(5) and Ab = Cons.prems(6) and oA = Cons.prems(7) and sp = Cons.prems(8)
    and ps = Cons.prems(9)
  let ?kl = "key_of (left_keys m)" and ?kr = "key_of (right_keys m)"
  let ?a = "next_free m"
  from io have il: "set_inv (left_set other) (left_keys m) (left_nodes m) lto"
    and ir: "set_inv (right_set other) (right_keys m) (right_nodes m) rto"
    and st: "set_tree lto = set_tree rto"
    by (simp_all add: bimap_inv_def)
  have x: "x \<in> set_tree lto" using sp by (metis in_set_conv_decomp set_inorder)
  have d: "distinct (inorder lto)" using il by (rule set_invD)
  then have xp: "x \<notin> set pre" using sp by auto
  have pre: "set pre \<subseteq> set_tree lto"
  proof -
    have "set pre \<subseteq> set (inorder lto)" by (subst sp) auto
    then show ?thesis by simp
  qed
  have stc: "set_tree lt = set_tree rt" using ic by (simp add: bimap_inv_def)
  have inps: "\<And>a. a \<in> set_tree lt \<Longrightarrow> \<exists>p\<in>set pre. ?kl a = ?kl p \<and> ?kr a = ?kr p"
  proof -
    fix a assume "a \<in> set_tree lt"
    then have "a \<in> set (inorder lt)" by simp
    then have "(?kl a, ?kr a) \<in> set (pairs_of m lt)" by (auto simp: pairs_of_def)
    with ps show "\<exists>p\<in>set pre. ?kl a = ?kl p \<and> ?kr a = ?kr p" by auto
  qed
  have al: "\<not> has_left m c lt (?kl x)"
  proof
    assume "has_left m c lt (?kl x)"
    then obtain a where a: "a \<in> set_tree lt" "equals_set (left_set c) (?kl x) (?kl a)"
      by (auto simp: has_left_def)
    from inps[OF a(1)] obtain p where p: "p \<in> set pre" "?kl a = ?kl p" by auto
    have pl: "p \<in> set_tree lto" and px: "p \<noteq> x" using p(1) pre xp by auto
    from keys_not_equiv[OF il pl x px cl] a(2) p(2) show False by simp
  qed
  have ar: "\<not> has_right m c rt (?kr x)"
  proof
    assume "has_right m c rt (?kr x)"
    then obtain a where a: "a \<in> set_tree rt" "equals_set (right_set c) (?kr x) (?kr a)"
      by (auto simp: has_right_def)
    from a(1) stc have "a \<in> set_tree lt" by simp
    from inps[OF this] obtain p where p: "p \<in> set pre" "?kr a = ?kr p" by auto
    have pl: "p \<in> set_tree rto" and px: "p \<noteq> x" using p(1) pre xp st by auto
    have xr: "x \<in> set_tree rto" using x st by simp
    from keys_not_equiv[OF ir pl xr px cr] a(2) p(2) show False by simp
  qed
  define c1 where "c1 = c\<lparr>m_size := m_size c + 1\<rparr>"
  from insert_absent_frame[OF ic al ar, folded c1_def] obtain m1 lt1 rt1 where
    m1: "insert_bimap m c (?kl x) (?kr x) = Some (m1, c1, Left_iterator (Some ?a))"
      "bimap_inv m1 c1 lt1 rt1" "set_tree lt1 = insert ?a (set_tree lt)"
      "unchanged_on ({..<?a} - cells c lt) m m1" "next_free m1 = Suc ?a"
      "left_keys m1 = (left_keys m)(?a \<mapsto> ?kl x)" "right_keys m1 = (right_keys m)(?a \<mapsto> ?kr x)"
    by (elim exE conjE) (rule that)
  have ok1: "mem_ok m1" using m1(2) by (simp add: bimap_inv_def)
  have sub: "A \<subseteq> {..<?a} - cells c lt" using dj Ab by auto
  have u1: "unchanged_on A m m1" by (rule unchanged_on_mono[OF m1(4) sub])
  have io1: "bimap_inv m1 other lto rto"
    by (rule bimap_inv_frame[OF io unchanged_on_mono[OF u1 oA] ok1])
  then have il1: "set_inv (left_set other) (left_keys m1) (left_nodes m1) lto"
    by (simp add: bimap_inv_def)
  from increment_correct[OF il1 so x] obtain y where
    y: "next_in (inorder lto @ [so]) x = Some y" "increment (left_nodes m1) (Some x) = Some (Some y)"
    by blast
  have "next_in (inorder lto @ [so]) x = Some (hd (suf @ [so]))"
    using xp by (cases suf) (simp_all add: sp next_in_append_notin)
  with y have yy: "y = hd (suf @ [so])" by simp
  have cb: "cells c lt \<subseteq> {..<?a}" by (rule cells_bound[OF ic])
  have ob: "set_tree lto \<subseteq> {..<?a}" using oA Ab by (auto simp: cells_def)
  have k1: "\<And>z. z < ?a \<Longrightarrow> key_of (left_keys m1) z = ?kl z \<and> key_of (right_keys m1) z = ?kr z"
    by (simp add: m1(6,7) key_of_def)
  have ka: "key_of (left_keys m1) ?a = ?kl x" "key_of (right_keys m1) ?a = ?kr x"
    by (simp_all add: m1(6,7) key_of_def)
  have ltb: "\<And>z. z \<in> set_tree lt \<Longrightarrow> z < ?a" using cb by (auto simp: cells_def)
  have prb: "\<And>z. z \<in> set pre \<Longrightarrow> z < ?a" using pre ob by auto
  have xb: "x < ?a" using x ob by auto
  have ps1: "set (pairs_of m1 lt1)
      = (\<lambda>a. (key_of (left_keys m1) a, key_of (right_keys m1) a)) ` set (pre @ [x])"
  proof -
    have "set (pairs_of m1 lt1)
        = (\<lambda>a. (key_of (left_keys m1) a, key_of (right_keys m1) a)) ` set_tree lt1"
      by (simp add: pairs_of_def)
    also have "\<dots> = insert (?kl x, ?kr x) ((\<lambda>a. (?kl a, ?kr a)) ` set_tree lt)"
      using ltb by (auto simp: m1(3) ka k1 image_iff)
    also have "(\<lambda>a. (?kl a, ?kr a)) ` set_tree lt = set (pairs_of m lt)"
      by (simp add: pairs_of_def)
    also have "insert (?kl x, ?kr x) (set (pairs_of m lt))
        = (\<lambda>a. (key_of (left_keys m1) a, key_of (right_keys m1) a)) ` set (pre @ [x])"
      using prb xb by (auto simp: ps k1 image_iff)
    finally show ?thesis .
  qed
  have dj1: "cells c1 lt1 \<inter> A = {}"
    using dj Ab by (auto simp: cells_def c1_def m1(3))
  have Ab1: "A \<subseteq> {..<next_free m1}" using Ab by (auto simp: m1(5))
  have sp1: "inorder lto = (pre @ [x]) @ suf" using sp by simp
  have cl1: "compare (left_set c1) = compare (left_set other)"
    and cr1: "compare (right_set c1) = compare (right_set other)"
    using cl cr by (simp_all add: c1_def)
  from Cons.IH[OF io1 m1(2) cl1 cr1 dj1 Ab1 oA sp1 ps1] obtain m' c' lt' rt' where
    r: "copy_loop m1 c1 other (Left_iterator (Some (hd (suf @ [so])))) = Some (m', c')"
      "bimap_inv m' c' lt' rt'" "cells c' lt' \<inter> A = {}" "unchanged_on A m1 m'"
      "next_free m1 \<le> next_free m'" "set (pairs_of m' lt') = set (pairs_of m1 lto)"
      "left_set c' = left_set c1" "right_set c' = right_set c1"
      "m_size c' = m_size c1 + of_nat (length suf)"
    by (elim exE conjE) (rule that)
  have ne: "Left_iterator (Some x) \<noteq> end_left other"
    using bimap_inv_keys(4)[OF io x] by (auto simp: end_left_def end_set_def)
  have run: "copy_loop m c other (Left_iterator (Some (hd ((x # suf) @ [so])))) = Some (m', c')"
    using ne bimap_inv_keys(1,2)[OF io x] m1(1) y(2) yy r(1)
    by (subst copy_loop.simps)
      (simp add: deref_left_def deref_right_def flip_left_def increment_left_def)
  have u: "unchanged_on A m m'" by (rule unchanged_on_trans[OF u1 r(4)]) simp_all
  have pq: "pairs_of m1 lto = pairs_of m lto"
    by (rule pairs_of_frame[OF u1]) (use oA in \<open>auto simp: cells_def\<close>)
  have sz: "m_size c' = m_size c + of_nat (length (x # suf))"
    using r(9) by (simp add: c1_def)
  have "next_free m \<le> next_free m'" using r(5) m1(5) by simp
  with run r(2,3) u r(6) pq r(7,8) sz show ?case
    by (intro exI[of _ m'] exI[of _ c'] exI[of _ lt'] exI[of _ rt']) (simp add: c1_def)
qed

lemma begin_left_correct:
  assumes inv: "bimap_inv m b lt rt" and sa: "sentinel (left_set b) = Some sa"
  shows "begin_left m b = Some (Left_iterator (Some (hd (inorder lt @ [sa]))))"
proof -
  from inv have il: "set_inv (left_set b) (left_keys m) (left_nodes m) lt"
    by (simp add: bimap_inv_def)
  show ?thesis by (simp add: begin_left_def begin_set_correct[OF il sa])
qed

lemma bimap_copy_ctor_correct:
  assumes io: "bimap_inv m other lto rto"
  shows "\<exists>m' c lt rt. bimap_copy_ctor m other = Some (m', c)
     \<and> bimap_inv m' c lt rt \<and> cells c lt \<inter> {..<next_free m} = {}
     \<and> unchanged_on {..<next_free m} m m' \<and> next_free m \<le> next_free m'
     \<and> pairs_of m' lt = pairs_of m lto
     \<and> compare (left_set c) = compare (left_set other)
     \<and> compare (right_set c) = compare (right_set other)
     \<and> sentinel (left_set c) = Some (next_free m)
     \<and> m_size c = of_nat (length (inorder lto))"
proof -
  let ?cl = "compare (left_set other)" and ?cr = "compare (right_set other)"
  let ?s = "next_free m"
  from io have il: "set_inv (left_set other) (left_keys m) (left_nodes m) lto"
    and ir: "set_inv (right_set other) (right_keys m) (right_nodes m) rto" and ok: "mem_ok m"
    by (simp_all add: bimap_inv_def)
  from il have swl: "strict_weak_order ?cl" by (simp add: set_inv_def)
  from ir have swr: "strict_weak_order ?cr" by (simp add: set_inv_def)
  from io obtain so where so: "sentinel (left_set other) = Some so" by (rule bimap_inv_sentinel)
  define m1 where "m1 = fst (bimap_ctor m ?cl ?cr)"
  define c0 where "c0 = snd (bimap_ctor m ?cl ?cr)"
  have bc: "bimap_ctor m ?cl ?cr = (m1, c0)" by (simp add: m1_def c0_def)
  have ic0: "bimap_inv m1 c0 Leaf Leaf"
    unfolding m1_def c0_def by (rule bimap_ctor_inv[OF ok swl swr])
  have c0: "left_set c0 = \<lparr>compare = ?cl, sentinel = Some ?s\<rparr>"
    "right_set c0 = \<lparr>compare = ?cr, sentinel = Some ?s\<rparr>" "m_size c0 = 0"
    by (simp_all add: c0_def bimap_ctor_def Let_def intrusive_set_ctor_def)
  have nf1: "next_free m1 = Suc ?s" by (simp add: m1_def bimap_ctor_def Let_def)
  have u1: "unchanged_on {..<?s} m m1"
    by (auto simp: unchanged_on_def m1_def bimap_ctor_def Let_def)
  have ok1: "mem_ok m1" using ic0 by (simp add: bimap_inv_def)
  have ob: "cells other lto \<subseteq> {..<?s}" by (rule cells_bound[OF io])
  have io1: "bimap_inv m1 other lto rto"
    by (rule bimap_inv_frame[OF io unchanged_on_mono[OF u1 ob] ok1])
  have bg: "begin_left m1 other = Some (Left_iterator (Some (hd (inorder lto @ [so]))))"
    by (rule begin_left_correct[OF io1 so])
  have cl: "compare (left_set c0) = ?cl" and cr: "compare (right_set c0) = ?cr"
    by (simp_all add: c0)
  have dj: "cells c0 Leaf \<inter> {..<?s} = {}" by (simp add: cells_def c0)
  have Ab: "{..<?s} \<subseteq> {..<next_free m1}" by (auto simp: nf1)
  have sp: "inorder lto = [] @ inorder lto" by simp
  have ps: "set (pairs_of m1 Leaf)
      = (\<lambda>a. (key_of (left_keys m1) a, key_of (right_keys m1) a)) ` set []"
    by (simp add: pairs_of_def)
  from copy_loop_correct[OF so io1 ic0 cl cr dj Ab ob sp ps] obtain m' c' lt' rt' where
    r: "copy_loop m1 c0 other (Left_iterator (Some (hd (inorder lto @ [so])))) = Some (m', c')"
      "bimap_inv m' c' lt' rt'" "cells c' lt' \<inter> {..<?s} = {}" "unchanged_on {..<?s} m1 m'"
      "next_free m1 \<le> next_free m'" "set (pairs_of m' lt') = set (pairs_of m1 lto)"
      "left_set c' = left_set c0" "right_set c' = right_set c0"
      "m_size c' = m_size c0 + of_nat (length (inorder lto))"
    by (elim exE conjE) (rule that)
  have run: "bimap_copy_ctor m other = Some (m', c')"
    by (simp add: bimap_copy_ctor_def bc bg r(1))
  have u: "unchanged_on {..<?s} m m'" by (rule unchanged_on_trans[OF u1 r(4)]) simp_all
  have ok': "mem_ok m'" using r(2) by (simp add: bimap_inv_def)
  have io': "bimap_inv m' other lto rto"
    by (rule bimap_inv_frame[OF io unchanged_on_mono[OF u ob] ok'])
  have ot: "set_tree lto \<subseteq> {..<?s}" using ob by (auto simp: cells_def)
  have p1: "pairs_of m1 lto = pairs_of m' lto"
    by (rule pairs_of_frame[OF r(4) ot, symmetric])
  have p0: "pairs_of m' lto = pairs_of m lto" by (rule pairs_of_frame[OF u ot])
  have cc: "compare (left_set other) = compare (left_set c')" by (simp add: r(7) c0)
  have "pairs_of m' lt' = pairs_of m' lto"
    by (rule same_pairs_same_sequence[OF r(2) io' cc]) (simp add: r(6) p1)
  with p0 have pp: "pairs_of m' lt' = pairs_of m lto" by simp
  have "next_free m \<le> next_free m'" using r(5) nf1 by simp
  with run r(2,3) u pp show ?thesis
    by (intro exI[of _ m'] exI[of _ c'] exI[of _ lt'] exI[of _ rt']) (simp add: r(7,8,9) c0)
qed

lemma erase_all_correct:
  "length (inorder lt) = n \<Longrightarrow> bimap_inv m b lt rt \<Longrightarrow> sentinel (left_set b) = Some sa \<Longrightarrow>
     \<exists>m' b'. erase_left_range m b (Left_iterator (Some (hd (inorder lt @ [sa]))))
           (Left_iterator (Some sa)) = Some (m', b', Left_iterator (Some sa))
       \<and> bimap_inv m' b' Leaf Leaf \<and> unchanged_on (- cells b lt) m m'
       \<and> left_set b' = left_set b \<and> right_set b' = right_set b
       \<and> m_size b' = m_size b - of_nat n
       \<and> next_free m' = next_free m
       \<and> dom (left_nodes m') = dom (left_nodes m) - set_tree lt
       \<and> dom (right_nodes m') = dom (right_nodes m) - set_tree lt
       \<and> dom (left_keys m') = dom (left_keys m) - set_tree lt
       \<and> dom (right_keys m') = dom (right_keys m) - set_tree lt"
proof (induction n arbitrary: m b lt rt)
  case 0
  then have lt: "lt = Leaf" by simp
  from 0(2) have "set_tree rt = set_tree lt" by (simp add: bimap_inv_def)
  with lt have rt: "rt = Leaf" by simp
  have "erase_left_range m b (Left_iterator (Some sa)) (Left_iterator (Some sa))
      = Some (m, b, Left_iterator (Some sa))"
    by (subst erase_left_range.simps) simp
  then show ?case using 0(2) lt rt by auto
next
  case (Suc n)
  note inv = Suc.prems(2) and sa = Suc.prems(3)
  from Suc.prems(1) obtain x xs where xs: "inorder lt = x # xs" "length xs = n"
    by (cases "inorder lt") auto
  have x: "x \<in> set_tree lt"
  proof -
    have "x \<in> set (inorder lt)" by (simp add: xs)
    then show ?thesis by simp
  qed
  from inv have il: "set_inv (left_set b) (left_keys m) (left_nodes m) lt"
    by (simp add: bimap_inv_def)
  have d: "distinct (inorder lt)" using il by (rule set_invD)
  then have xn: "x \<notin> set xs" by (simp add: xs)
  define b1 where "b1 = b\<lparr>m_size := m_size b - 1\<rparr>"
  from erase_left_correct[OF inv x sa, folded b1_def] obtain m1 y where
    e: "erase_left m b (Left_iterator (Some x)) = Some (m1, b1, Left_iterator (Some y))"
      "next_in (inorder lt @ [sa]) x = Some y"
      "bimap_inv m1 b1 (erase_tree x lt) (erase_tree x rt)"
      "left_keys m1 = (left_keys m)(x := None)" "right_keys m1 = (right_keys m)(x := None)"
      "next_free m1 = next_free m"
      "dom (left_nodes m1) = dom (left_nodes m) - {x}"
      "dom (right_nodes m1) = dom (right_nodes m) - {x}"
      "\<forall>z. z \<notin> set_tree lt \<longrightarrow> z \<noteq> sa \<longrightarrow>
           left_nodes m1 z = left_nodes m z \<and> right_nodes m1 z = right_nodes m z"
    by (elim exE conjE) (rule that)
  have io: "inorder (erase_tree x lt) = xs"
  proof -
    have "filter (\<lambda>y. y \<noteq> x) xs = xs" using xn by (induction xs) auto
    then show ?thesis by (simp add: inorder_erase_tree[OF d] xs)
  qed
  have yy: "y = hd (xs @ [sa])" using e(2) by (cases xs) (simp_all add: xs)
  have st1: "set_tree (erase_tree x lt) = set_tree lt - {x}" by (rule set_erase_tree[OF d])
  have sa1: "sentinel (left_set b1) = Some sa" using sa by (simp add: b1_def)
  have len: "length (inorder (erase_tree x lt)) = n" by (simp add: io xs)
  from Suc.IH[OF len e(3) sa1] obtain m' b' where
    r: "erase_left_range m1 b1 (Left_iterator (Some (hd (xs @ [sa])))) (Left_iterator (Some sa))
          = Some (m', b', Left_iterator (Some sa))"
      "bimap_inv m' b' Leaf Leaf" "unchanged_on (- cells b1 (erase_tree x lt)) m1 m'"
      "left_set b' = left_set b1" "right_set b' = right_set b1"
      "m_size b' = m_size b1 - of_nat n" "next_free m' = next_free m1"
      "dom (left_nodes m') = dom (left_nodes m1) - set_tree (erase_tree x lt)"
      "dom (right_nodes m') = dom (right_nodes m1) - set_tree (erase_tree x lt)"
      "dom (left_keys m') = dom (left_keys m1) - set_tree (erase_tree x lt)"
      "dom (right_keys m') = dom (right_keys m1) - set_tree (erase_tree x lt)"
    unfolding io by (elim exE conjE) (rule that)
  have ne: "x \<noteq> sa" using bimap_inv_keys(4)[OF inv x] sa by auto
  have run: "erase_left_range m b (Left_iterator (Some (hd (inorder lt @ [sa]))))
      (Left_iterator (Some sa)) = Some (m', b', Left_iterator (Some sa))"
    using ne e(1) r(1) yy by (subst erase_left_range.simps) (simp add: xs)
  have u1: "unchanged_on (- cells b lt) m m1"
    using e(4,5,9) x sa by (auto simp: unchanged_on_def cells_def)
  have sub: "- cells b lt \<subseteq> - cells b1 (erase_tree x lt)"
    by (auto simp: cells_def b1_def st1)
  have u: "unchanged_on (- cells b lt) m m'"
    by (rule unchanged_on_trans[OF u1 r(3) _ sub]) simp
  have sz: "m_size b' = m_size b - of_nat (Suc n)" using r(6) by (simp add: b1_def)
  have dl: "dom (left_nodes m') = dom (left_nodes m) - set_tree lt"
    and dr: "dom (right_nodes m') = dom (right_nodes m) - set_tree lt"
    and kl: "dom (left_keys m') = dom (left_keys m) - set_tree lt"
    and kr: "dom (right_keys m') = dom (right_keys m) - set_tree lt"
    using r(8,9,10,11) e(4,5,7,8) x by (auto simp: st1)
  show ?case
    using run r(2) u r(4,5) sz r(7) e(6) dl dr kl kr
    by (intro exI[of _ m'] exI[of _ b']) (simp add: b1_def)
qed

lemma bimap_dtor_correct:
  assumes inv: "bimap_inv m b lt rt"
  shows "\<exists>m'. bimap_dtor m b = Some m' \<and> unchanged_on (- cells b lt) m m' \<and> mem_ok m'
     \<and> next_free m' = next_free m
     \<and> dom (left_nodes m') = dom (left_nodes m) - cells b lt
     \<and> dom (right_nodes m') = dom (right_nodes m) - cells b lt
     \<and> dom (left_keys m') = dom (left_keys m) - set_tree lt
     \<and> dom (right_keys m') = dom (right_keys m) - set_tree lt"
proof -
  from inv obtain sa where sa: "sentinel (left_set b) = Some sa" by (rule bimap_inv_sentinel)
  have bg: "begin_left m b = Some (Left_iterator (Some (hd (inorder lt @ [sa]))))"
    by (rule begin_left_correct[OF inv sa])
  from erase_all_correct[OF refl inv sa] obtain m1 b1 where
    r: "erase_left_range m b (Left_iterator (Some (hd (inorder lt @ [sa]))))
          (Left_iterator (Some sa)) = Some (m1, b1, Left_iterator (Some sa))"
      "bimap_inv m1 b1 Leaf Leaf" "unchanged_on (- cells b lt) m m1"
      "next_free m1 = next_free m"
      "dom (left_nodes m1) = dom (left_nodes m) - set_tree lt"
      "dom (right_nodes m1) = dom (right_nodes m) - set_tree lt"
      "dom (left_keys m1) = dom (left_keys m) - set_tree lt"
      "dom (right_keys m1) = dom (right_keys m) - set_tree lt"
    by (elim exE conjE) (rule that)
  define m' where "m' = m1\<lparr>left_nodes := (left_nodes m1)(sa := None),
                          right_nodes := (right_nodes m1)(sa := None)\<rparr>"
  have run: "bimap_dtor m b = Some m'"
    by (simp add: bimap_dtor_def bg end_left_def end_set_def sa r(1) m'_def)
  have ok1: "mem_ok m1" using r(2) by (simp add: bimap_inv_def)
  have ok': "mem_ok m'" using ok1 by (auto simp: mem_ok_def m'_def)
  have u: "unchanged_on (- cells b lt) m m'"
    using r(3) sa by (auto simp: unchanged_on_def m'_def cells_def)
  have "dom (left_nodes m') = dom (left_nodes m) - cells b lt"
    "dom (right_nodes m') = dom (right_nodes m) - cells b lt"
    using r(5,6) sa by (auto simp: m'_def cells_def)
  with run u ok' r(4,7,8) show ?thesis by (intro exI[of _ m']) (simp add: m'_def)
qed

lemma pairs_from_suffix:
  assumes inv: "bimap_inv m b lt rt" and sa: "sentinel (left_set b) = Some sa"
  shows "inorder lt = pre @ suf \<Longrightarrow>
     pairs_from m b (Left_iterator (Some (hd (suf @ [sa]))))
       = Some (map (\<lambda>a. (key_of (left_keys m) a, key_of (right_keys m) a)) suf)"
proof (induction suf arbitrary: pre)
  case Nil
  then show ?case by (subst pairs_from.simps) (simp add: end_left_def end_set_def sa)
next
  case (Cons x suf)
  from inv have il: "set_inv (left_set b) (left_keys m) (left_nodes m) lt"
    by (simp add: bimap_inv_def)
  have x: "x \<in> set_tree lt" using Cons.prems by (metis in_set_conv_decomp set_inorder)
  have d: "distinct (inorder lt)" using il by (rule set_invD)
  then have xp: "x \<notin> set pre" using Cons.prems by auto
  from increment_correct[OF il sa x] obtain y where
    y: "next_in (inorder lt @ [sa]) x = Some y" "increment (left_nodes m) (Some x) = Some (Some y)"
    by blast
  have "next_in (inorder lt @ [sa]) x = Some (hd (suf @ [sa]))"
    using xp by (cases suf) (simp_all add: Cons.prems next_in_append_notin)
  with y have yy: "y = hd (suf @ [sa])" by simp
  have IH: "pairs_from m b (Left_iterator (Some (hd (suf @ [sa]))))
       = Some (map (\<lambda>a. (key_of (left_keys m) a, key_of (right_keys m) a)) suf)"
    using Cons.IH[of "pre @ [x]"] Cons.prems by simp
  have ne: "Left_iterator (Some x) \<noteq> end_left b"
    using bimap_inv_keys(4)[OF inv x] by (auto simp: end_left_def end_set_def)
  show ?case
    using ne bimap_inv_keys(1,2)[OF inv x] y(2) yy IH
    by (subst pairs_from.simps)
      (simp add: deref_left_def deref_right_def flip_left_def increment_left_def)
qed

lemma contents_correct:
  assumes inv: "bimap_inv m b lt rt"
  shows "contents m b = Some (pairs_of m lt)"
proof -
  from inv obtain sa where sa: "sentinel (left_set b) = Some sa" by (rule bimap_inv_sentinel)
  have "inorder lt = [] @ inorder lt" by simp
  from pairs_from_suffix[OF inv sa this] show ?thesis
    by (simp add: contents_def begin_left_correct[OF inv sa] pairs_of_def)
qed

lemma assign_bimap_correct:
  assumes it: "bimap_inv m t ltt rtt" and io: "bimap_inv m other lto rto"
    and dj: "cells t ltt \<inter> cells other lto = {}"
  shows "\<exists>m' t' lt' rt'. assign_bimap m t other = Some (m', t', other)
     \<and> bimap_inv m' t' lt' rt' \<and> bimap_inv m' other lto rto
     \<and> cells t' lt' \<inter> cells other lto = {}
     \<and> pairs_of m' lt' = pairs_of m lto \<and> pairs_of m' lto = pairs_of m lto
     \<and> compare (left_set t') = compare (left_set other)
     \<and> compare (right_set t') = compare (right_set other)
     \<and> sentinel (left_set t') = sentinel (left_set t)
     \<and> m_size t' = of_nat (length (inorder lto))
     \<and> set_tree ltt \<inter> dom (left_keys m') = {} \<and> set_tree ltt \<inter> dom (right_keys m') = {}
     \<and> unchanged_on ({..<next_free m} - cells t ltt) m m'
     \<and> set_tree lt' \<inter> {..<next_free m} = {} \<and> next_free m \<le> next_free m'"
proof -
  from it io dj obtain st so where s: "sentinel (left_set t) = Some st"
    "sentinel (left_set other) = Some so" "st \<noteq> so" "st \<notin> set_tree ltt"
    by (rule cells_disjointD)
  from bimap_copy_ctor_correct[OF io] obtain m1 c ltc rtc where
    c: "bimap_copy_ctor m other = Some (m1, c)" "bimap_inv m1 c ltc rtc"
      "cells c ltc \<inter> {..<next_free m} = {}" "unchanged_on {..<next_free m} m m1"
      "pairs_of m1 ltc = pairs_of m lto"
      "compare (left_set c) = compare (left_set other)"
      "compare (right_set c) = compare (right_set other)"
      "sentinel (left_set c) = Some (next_free m)"
      "m_size c = of_nat (length (inorder lto))" "next_free m \<le> next_free m1"
    by (elim exE conjE) (rule that)
  have ok1: "mem_ok m1" using c(2) by (simp add: bimap_inv_def)
  have tb: "cells t ltt \<subseteq> {..<next_free m}" by (rule cells_bound[OF it])
  have ob: "cells other lto \<subseteq> {..<next_free m}" by (rule cells_bound[OF io])
  have it1: "bimap_inv m1 t ltt rtt"
    by (rule bimap_inv_frame[OF it unchanged_on_mono[OF c(4) tb] ok1])
  have io1: "bimap_inv m1 other lto rto"
    by (rule bimap_inv_frame[OF io unchanged_on_mono[OF c(4) ob] ok1])
  have dct: "cells c ltc \<inter> cells t ltt = {}" using c(3) tb by auto
  have dco: "cells c ltc \<inter> cells other lto = {}" using c(3) ob by auto
  define c' where "c' = \<lparr>m_size = m_size t,
      left_set = (left_set c)\<lparr>compare := compare (left_set t)\<rparr>,
      right_set = (right_set c)\<lparr>compare := compare (right_set t)\<rparr>\<rparr>"
  define t' where "t' = \<lparr>m_size = m_size c,
      left_set = (left_set t)\<lparr>compare := compare (left_set c)\<rparr>,
      right_set = (right_set t)\<lparr>compare := compare (right_set c)\<rparr>\<rparr>"
  from swap_bimap_correct[OF c(2) it1 dct, folded c'_def t'_def] obtain m2 where
    w: "swap_bimap m1 c t = Some (m2, c', t')" "bimap_inv m2 c' ltt rtt" "bimap_inv m2 t' ltc rtc"
      "unchanged_on (- (cells c ltc \<union> cells t ltt)) m1 m2"
      "left_keys m2 = left_keys m1" "right_keys m2 = right_keys m1"
      "next_free m2 = next_free m1"
    by (elim exE conjE) (rule that)
  have ok2: "mem_ok m2" using w(2) by (simp add: bimap_inv_def)
  have so2: "cells other lto \<subseteq> - (cells c ltc \<union> cells t ltt)" using dj dco by auto
  have io2: "bimap_inv m2 other lto rto"
    by (rule bimap_inv_frame[OF io1 unchanged_on_mono[OF w(4) so2] ok2])
  from bimap_dtor_correct[OF w(2)] obtain m3 where
    d: "bimap_dtor m2 c' = Some m3" "unchanged_on (- cells c' ltt) m2 m3" "mem_ok m3"
      "dom (left_keys m3) = dom (left_keys m2) - set_tree ltt"
      "dom (right_keys m3) = dom (right_keys m2) - set_tree ltt"
      "next_free m3 = next_free m2"
    by (elim exE conjE) (rule that)
  have cc': "cells c' ltt = insert (next_free m) (set_tree ltt)"
    by (simp add: cells_def c'_def c(8))
  have ct': "cells t' ltc = insert st (set_tree ltc)" by (simp add: cells_def t'_def s(1))
  have stb: "st < next_free m" using tb s(1) by (auto simp: cells_def)
  have sob: "so < next_free m" using ob s(2) by (auto simp: cells_def)
  have nfc: "next_free m \<notin> set_tree ltc"
    using bimap_inv_sentinel[OF c(2)] c(8) by (metis option.inject)
  have ltcd: "set_tree ltc \<inter> set_tree ltt = {}" using dct by (auto simp: cells_def)
  have sub3: "cells t' ltc \<subseteq> - cells c' ltt"
    using stb s(4) nfc ltcd by (auto simp: cc' ct')
  have it3: "bimap_inv m3 t' ltc rtc"
    by (rule bimap_inv_frame[OF w(3) unchanged_on_mono[OF d(2) sub3] d(3)])
  have nfo: "next_free m \<notin> cells other lto" using ob by auto
  have lto: "set_tree ltt \<inter> cells other lto = {}" using dj by (auto simp: cells_def)
  have sub3o: "cells other lto \<subseteq> - cells c' ltt"
    unfolding cc' using nfo lto by auto
  have io3: "bimap_inv m3 other lto rto"
    by (rule bimap_inv_frame[OF io2 unchanged_on_mono[OF d(2) sub3o] d(3)])
  have k21: "\<And>lt. pairs_of m2 lt = pairs_of m1 lt" by (simp add: pairs_of_def w(5,6))
  have p1: "pairs_of m3 ltc = pairs_of m lto"
  proof -
    have "set_tree ltc \<subseteq> - cells c' ltt" using sub3 by (auto simp: ct')
    from pairs_of_frame[OF d(2) this] show ?thesis by (simp add: k21 c(5))
  qed
  have p2: "pairs_of m3 lto = pairs_of m lto"
  proof -
    have a: "set_tree lto \<subseteq> - cells c' ltt" using sub3o by (auto simp: cells_def)
    have b: "set_tree lto \<subseteq> {..<next_free m}" using ob by (auto simp: cells_def)
    from pairs_of_frame[OF d(2) a] pairs_of_frame[OF c(4) b] show ?thesis by (simp add: k21)
  qed
  have dj3: "cells t' ltc \<inter> cells other lto = {}"
  proof -
    have "st \<notin> cells other lto" using dj s(1) by (auto simp: cells_def)
    moreover have "set_tree ltc \<inter> cells other lto = {}" using dco by (auto simp: cells_def)
    ultimately show ?thesis by (auto simp: ct')
  qed
  have ne: "sentinel (left_set other) \<noteq> sentinel (left_set t)" using s by simp
  have run: "assign_bimap m t other = Some (m3, t', other)"
    using ne by (simp add: assign_bimap_def c(1) w(1) d(1))
  have rel: "set_tree ltt \<inter> dom (left_keys m3) = {}" "set_tree ltt \<inter> dom (right_keys m3) = {}"
    using d(4,5) by auto
  have fr: "unchanged_on ({..<next_free m} - cells t ltt) m m3"
  proof -
    let ?A = "{..<next_free m} - cells t ltt"
    have a1: "?A \<subseteq> - (cells c ltc \<union> cells t ltt)" using c(3) by auto
    have a2: "?A \<subseteq> - cells c' ltt" unfolding cc' by (auto simp: cells_def)
    have u12: "unchanged_on ?A m m2"
      by (rule unchanged_on_trans[OF c(4) w(4) _ a1]) auto
    show ?thesis by (rule unchanged_on_trans[OF u12 d(2) _ a2]) simp
  qed
  have nw: "set_tree ltc \<inter> {..<next_free m} = {}" using c(3) by (auto simp: cells_def)
  have nf: "next_free m \<le> next_free m3" using c(10) w(7) d(6) by simp
  show ?thesis
    using run it3 io3 dj3 p1 p2 rel fr nw nf
    by (rule_tac x = m3 in exI, rule_tac x = t' in exI, rule_tac x = ltc in exI,
        rule_tac x = rtc in exI) (simp add: t'_def c(6,7,9) s(1))
qed

lemma intrusive_set_move_ctor_undefined: "intrusive_set_move_ctor nh other = None"
  by (cases "deref nh (sentinel other)") (simp_all add: intrusive_set_move_ctor_def set_left_def)

lemma ex_assign_inv_dst:
  "bimap_inv ex_assign_memory ex_dst (Node Leaf 2 Leaf) (Node Leaf 2 Leaf)"
  by (auto simp: bimap_inv_def set_inv_def mem_ok_def ex_assign_memory_def ex_dst_def
      key_of_def swo_less)

lemma ex_assign_inv_src:
  "bimap_inv ex_assign_memory ex_src (Node Leaf 3 (Node Leaf 4 Leaf)) (Node Leaf 3 (Node Leaf 4 Leaf))"
  by (auto simp: bimap_inv_def set_inv_def mem_ok_def ex_assign_memory_def ex_src_def
      key_of_def swo_less)

lemma ex_assign_contents:
  "contents ex_assign_memory ex_src = Some [(1, 10), (2, 20)]"
  "contents ex_assign_memory ex_dst = Some [(7, 70)]"
  unfolding contents_correct[OF ex_assign_inv_src] contents_correct[OF ex_assign_inv_dst]
  by (simp_all add: pairs_of_def key_of_def ex_assign_memory_def)

subsection \<open>The invariant of reachable worlds\<close>

lemma cursors_from_left_suffix:
  assumes inv: "bimap_inv m b lt rt" and sa: "sentinel (left_set b) = Some sa"
  shows "inorder lt = pre @ suf \<Longrightarrow>
     cursors_from_left m b (Left_iterator (Some (hd (suf @ [sa]))))
       = Some (map (\<lambda>x. Left_iterator (Some x)) suf)"
proof (induction suf arbitrary: pre)
  case Nil
  then show ?case by (subst cursors_from_left.simps) (simp add: end_left_def end_set_def sa)
next
  case (Cons x suf)
  from inv have il: "set_inv (left_set b) (left_keys m) (left_nodes m) lt"
    by (simp add: bimap_inv_def)
  have x: "x \<in> set_tree lt" using Cons.prems by (metis in_set_conv_decomp set_inorder)
  have d: "distinct (inorder lt)" using il by (rule set_invD)
  then have xp: "x \<notin> set pre" using Cons.prems by auto
  from increment_correct[OF il sa x] obtain y where
    y: "next_in (inorder lt @ [sa]) x = Some y" "increment (left_nodes m) (Some x) = Some (Some y)"
    by blast
  have "next_in (inorder lt @ [sa]) x = Some (hd (suf @ [sa]))"
    using xp by (cases suf) (simp_all add: Cons.prems next_in_append_notin)
  with y have yy: "y = hd (suf @ [sa])" by simp
  have IH: "cursors_from_left m b (Left_iterator (Some (hd (suf @ [sa]))))
       = Some (map (\<lambda>x. Left_iterator (Some x)) suf)"
    using Cons.IH[of "pre @ [x]"] Cons.prems by simp
  have ne: "Left_iterator (Some x) \<noteq> end_left b"
    using bimap_inv_keys(4)[OF inv x] by (auto simp: end_left_def end_set_def)
  show ?case
    using ne y(2) yy IH
    by (subst cursors_from_left.simps) (simp add: increment_left_def)
qed

lemma cursors_from_right_suffix:
  assumes inv: "bimap_inv m b lt rt" and sa: "sentinel (right_set b) = Some sa"
  shows "inorder rt = pre @ suf \<Longrightarrow>
     cursors_from_right m b (Right_iterator (Some (hd (suf @ [sa]))))
       = Some (map (\<lambda>x. Right_iterator (Some x)) suf)"
proof (induction suf arbitrary: pre)
  case Nil
  then show ?case by (subst cursors_from_right.simps) (simp add: end_right_def end_set_def sa)
next
  case (Cons x suf)
  from inv have ir: "set_inv (right_set b) (right_keys m) (right_nodes m) rt"
    and st: "set_tree lt = set_tree rt"
    by (simp_all add: bimap_inv_def)
  have x: "x \<in> set_tree rt" using Cons.prems by (metis in_set_conv_decomp set_inorder)
  then have xl: "x \<in> set_tree lt" using st by simp
  have d: "distinct (inorder rt)" using ir by (rule set_invD)
  then have xp: "x \<notin> set pre" using Cons.prems by auto
  from increment_correct[OF ir sa x] obtain y where
    y: "next_in (inorder rt @ [sa]) x = Some y" "increment (right_nodes m) (Some x) = Some (Some y)"
    by blast
  have "next_in (inorder rt @ [sa]) x = Some (hd (suf @ [sa]))"
    using xp by (cases suf) (simp_all add: Cons.prems next_in_append_notin)
  with y have yy: "y = hd (suf @ [sa])" by simp
  have IH: "cursors_from_right m b (Right_iterator (Some (hd (suf @ [sa]))))
       = Some (map (\<lambda>x. Right_iterator (Some x)) suf)"
    using Cons.IH[of "pre @ [x]"] Cons.prems by simp
  have ne: "Right_iterator (Some x) \<noteq> end_right b"
    using bimap_inv_keys(5)[OF inv xl] by (auto simp: end_right_def end_set_def)
  show ?case
    using ne y(2) yy IH
    by (subst cursors_from_right.simps) (simp add: increment_right_def)
qed

lemma begin_right_correct:
  assumes inv: "bimap_inv m b lt rt" and sa: "sentinel (right_set b) = Some sa"
  shows "begin_right m b = Some (Right_iterator (Some (hd (inorder rt @ [sa]))))"
proof -
  from inv have ir: "set_inv (right_set b) (right_keys m) (right_nodes m) rt"
    by (simp add: bimap_inv_def)
  show ?thesis by (simp add: begin_right_def begin_set_correct[OF ir sa])
qed

lemma left_cursors_correct:
  assumes inv: "bimap_inv m b lt rt"
  shows "left_cursors m b = Some (map (\<lambda>x. Left_iterator (Some x)) (inorder lt))"
proof -
  from inv obtain sa where sa: "sentinel (left_set b) = Some sa" by (rule bimap_inv_sentinel)
  have "inorder lt = [] @ inorder lt" by simp
  from cursors_from_left_suffix[OF inv sa this] show ?thesis
    by (simp add: left_cursors_def begin_left_correct[OF inv sa])
qed

lemma right_cursors_correct:
  assumes inv: "bimap_inv m b lt rt"
  shows "right_cursors m b = Some (map (\<lambda>x. Right_iterator (Some x)) (inorder rt))"
proof -
  from inv obtain sa where sa: "sentinel (right_set b) = Some sa" by (rule bimap_inv_sentinel)
  have "inorder rt = [] @ inorder rt" by simp
  from cursors_from_right_suffix[OF inv sa this] show ?thesis
    by (simp add: right_cursors_def begin_right_correct[OF inv sa])
qed

lemma local_step_refl: "bimap_inv m b lt rt \<Longrightarrow> local_step m b lt m b lt rt"
  by (auto simp: local_step_def)

lemma local_step_trans:
  assumes 1: "local_step m b lt m1 b1 lt1 rt1" and 2: "local_step m1 b1 lt1 m2 b2 lt2 rt2"
  shows "local_step m b lt m2 b2 lt2 rt2"
proof -
  from 1 have u1: "unchanged_on ({..<next_free m} - cells b lt) m m1"
    and c1: "cells b1 lt1 \<subseteq> cells b lt \<union> {next_free m..}" and n1: "next_free m \<le> next_free m1"
    and s1: "sentinel (left_set b1) = sentinel (left_set b)"
    by (simp_all add: local_step_def)
  from 2 have i2: "bimap_inv m2 b2 lt2 rt2"
    and u2: "unchanged_on ({..<next_free m1} - cells b1 lt1) m1 m2"
    and c2: "cells b2 lt2 \<subseteq> cells b1 lt1 \<union> {next_free m1..}" and n2: "next_free m1 \<le> next_free m2"
    and s2: "sentinel (left_set b2) = sentinel (left_set b1)"
    by (simp_all add: local_step_def)
  have sub: "{..<next_free m} - cells b lt \<subseteq> {..<next_free m1} - cells b1 lt1"
    using c1 n1 by auto
  have u: "unchanged_on ({..<next_free m} - cells b lt) m m2"
    by (rule unchanged_on_trans[OF u1 u2 _ sub]) simp
  have c: "cells b2 lt2 \<subseteq> cells b lt \<union> {next_free m..}" using c1 c2 n1 by auto
  show ?thesis using i2 u c n1 n2 s1 s2 by (simp add: local_step_def)
qed

lemma local_insert:
  assumes inv: "bimap_inv m b lt rt" and r: "insert_bimap m b l r = Some (m', b', it)"
  shows "\<exists>lt' rt'. local_step m b lt m' b' lt' rt'"
proof (cases "has_left m b lt l \<or> has_right m b rt r")
  case True
  from insert_present[OF inv True] r have "m' = m" "b' = b" by simp_all
  then show ?thesis using local_step_refl[OF inv] by blast
next
  case False
  then have ab: "\<not> has_left m b lt l" "\<not> has_right m b rt r" by simp_all
  from insert_absent_frame[OF inv ab] r obtain lt' rt' where
    i: "b' = b\<lparr>m_size := m_size b + 1\<rparr>" "bimap_inv m' b' lt' rt'"
      "set_tree lt' = insert (next_free m) (set_tree lt)"
      "unchanged_on ({..<next_free m} - cells b lt) m m'" "next_free m' = Suc (next_free m)"
    by auto
  have "cells b' lt' \<subseteq> cells b lt \<union> {next_free m..}" by (auto simp: cells_def i(1,3))
  then have "local_step m b lt m' b' lt' rt'" using i by (simp add: local_step_def)
  then show ?thesis by blast
qed

lemma local_erase_left:
  assumes inv: "bimap_inv m b lt rt" and x: "x \<in> set_tree lt"
    and r: "erase_left m b (Left_iterator (Some x)) = Some (m', b', nxt)"
  shows "local_step m b lt m' b' (erase_tree x lt) (erase_tree x rt)"
proof -
  from inv obtain sa where sa: "sentinel (left_set b) = Some sa" by (rule bimap_inv_sentinel)
  from inv have il: "set_inv (left_set b) (left_keys m) (left_nodes m) lt"
    by (simp add: bimap_inv_def)
  have d: "distinct (inorder lt)" using il by (rule set_invD)
  from erase_left_correct[OF inv x sa] r have
    e: "b' = b\<lparr>m_size := m_size b - 1\<rparr>" "bimap_inv m' b' (erase_tree x lt) (erase_tree x rt)"
      "left_keys m' = (left_keys m)(x := None)" "right_keys m' = (right_keys m)(x := None)"
      "next_free m' = next_free m"
      "\<forall>z. z \<notin> set_tree lt \<longrightarrow> z \<noteq> sa \<longrightarrow>
           left_nodes m' z = left_nodes m z \<and> right_nodes m' z = right_nodes m z"
    by auto
  have u: "unchanged_on ({..<next_free m} - cells b lt) m m'"
    using e(3,4,6) x sa by (auto simp: unchanged_on_def cells_def)
  have c: "cells b' (erase_tree x lt) \<subseteq> cells b lt \<union> {next_free m..}"
    by (auto simp: cells_def e(1) set_erase_tree[OF d])
  show ?thesis using e(2) u c e(5) by (simp add: local_step_def e(1))
qed

lemma local_erase_right:
  assumes inv: "bimap_inv m b lt rt" and x: "x \<in> set_tree rt"
    and r: "erase_right m b (Right_iterator (Some x)) = Some (m', b', nxt)"
  shows "local_step m b lt m' b' (erase_tree x lt) (erase_tree x rt)"
proof -
  from inv obtain sa where sa: "sentinel (left_set b) = Some sa" "sentinel (right_set b) = Some sa"
    by (rule bimap_inv_sentinel)
  from inv have il: "set_inv (left_set b) (left_keys m) (left_nodes m) lt"
    and st: "set_tree lt = set_tree rt"
    by (simp_all add: bimap_inv_def)
  have d: "distinct (inorder lt)" using il by (rule set_invD)
  from erase_right_correct[OF inv x sa(2)] r have
    e: "b' = b\<lparr>m_size := m_size b - 1\<rparr>" "bimap_inv m' b' (erase_tree x lt) (erase_tree x rt)"
      "left_keys m' = (left_keys m)(x := None)" "right_keys m' = (right_keys m)(x := None)"
      "next_free m' = next_free m"
      "\<forall>z. z \<notin> set_tree rt \<longrightarrow> z \<noteq> sa \<longrightarrow>
           left_nodes m' z = left_nodes m z \<and> right_nodes m' z = right_nodes m z"
    by auto
  have u: "unchanged_on ({..<next_free m} - cells b lt) m m'"
    using e(3,4,6) x sa st by (auto simp: unchanged_on_def cells_def)
  have c: "cells b' (erase_tree x lt) \<subseteq> cells b lt \<union> {next_free m..}"
    by (auto simp: cells_def e(1) set_erase_tree[OF d])
  show ?thesis using e(2) u c e(5) by (simp add: local_step_def e(1))
qed

lemma local_erase_left_key:
  assumes inv: "bimap_inv m b lt rt" and r: "erase_left_key m b l = Some (m', b', ok)"
  shows "\<exists>lt' rt'. local_step m b lt m' b' lt' rt'"
proof -
  obtain it where f: "find_left m b l = Some it" using find_left_correct[OF inv] by simp
  show ?thesis
  proof (cases "it = end_left b")
    case True
    then have "m' = m" "b' = b" using r f by (auto simp: erase_left_key_def)
    then show ?thesis using local_step_refl[OF inv] by blast
  next
    case False
    from find_left_cursor[OF inv f False] obtain x where x: "x \<in> set_tree lt"
      "it = Left_iterator (Some x)" by auto
    from r f False obtain nxt where "erase_left m b it = Some (m', b', nxt)"
      by (auto simp: erase_left_key_def split: bind_splits)
    then show ?thesis using local_erase_left[OF inv x(1)] x(2) by blast
  qed
qed

lemma local_erase_right_key:
  assumes inv: "bimap_inv m b lt rt" and r: "erase_right_key m b k = Some (m', b', ok)"
  shows "\<exists>lt' rt'. local_step m b lt m' b' lt' rt'"
proof -
  obtain it where f: "find_right m b k = Some it" using find_right_correct[OF inv] by simp
  show ?thesis
  proof (cases "it = end_right b")
    case True
    then have "m' = m" "b' = b" using r f by (auto simp: erase_right_key_def)
    then show ?thesis using local_step_refl[OF inv] by blast
  next
    case False
    from find_right_cursor[OF inv f False] obtain x where x: "x \<in> set_tree rt"
      "it = Right_iterator (Some x)" by auto
    from r f False obtain nxt where "erase_right m b it = Some (m', b', nxt)"
      by (auto simp: erase_right_key_def split: bind_splits)
    then show ?thesis using local_erase_right[OF inv x(1)] x(2) by blast
  qed
qed

lemma local_step_inv: "local_step m b lt m' b' lt' rt' \<Longrightarrow> bimap_inv m' b' lt' rt'"
  by (simp add: local_step_def)

lemma local_at_left_or_default:
  assumes inv: "bimap_inv m b lt rt" and r: "at_left_or_default m b d kref = Some (m', b', v)"
  shows "\<exists>lt' rt'. local_step m b lt m' b' lt' rt'"
proof -
  from r obtain k where k: "kref m = Some k"
    by (auto simp: at_left_or_default_def split: bind_splits)
  obtain it where f: "find_left m b k = Some it" using find_left_correct[OF inv] by simp
  obtain it2 where f2: "find_right m b d = Some it2" using find_right_correct[OF inv] by simp
  show ?thesis
  proof (cases "it = end_left b")
    case False
    then have "m' = m" "b' = b" using r k f
      by (auto simp: at_left_or_default_def split: bind_splits)
    then show ?thesis using local_step_refl[OF inv] by blast
  next
    case e: True
    show ?thesis
    proof (cases "it2 = end_right b")
      case True
      from r k f f2 e True obtain k1 it3 where "insert_bimap m b k1 d = Some (m', b', it3)"
        by (auto simp: at_left_or_default_def split: bind_splits)
      then show ?thesis by (rule local_insert[OF inv])
    next
      case False
      from find_right_cursor[OF inv f2 False] obtain x where x: "x \<in> set_tree rt"
        "it2 = Right_iterator (Some x)" by auto
      from r k f f2 e False obtain m1 b1 nxt k1 it3 where
        s: "erase_right m b it2 = Some (m1, b1, nxt)" "insert_bimap m1 b1 k1 d = Some (m', b', it3)"
        by (auto simp: at_left_or_default_def split: bind_splits)
      have l1: "local_step m b lt m1 b1 (erase_tree x lt) (erase_tree x rt)"
        using local_erase_right[OF inv x(1)] s(1) x(2) by simp
      from local_insert[OF local_step_inv[OF l1] s(2)] obtain lt' rt' where
        "local_step m1 b1 (erase_tree x lt) m' b' lt' rt'" by blast
      from local_step_trans[OF l1 this] show ?thesis by blast
    qed
  qed
qed

lemma local_at_right_or_default:
  assumes inv: "bimap_inv m b lt rt" and r: "at_right_or_default m b d kref = Some (m', b', v)"
  shows "\<exists>lt' rt'. local_step m b lt m' b' lt' rt'"
proof -
  from r obtain k where k: "kref m = Some k"
    by (auto simp: at_right_or_default_def split: bind_splits)
  obtain it where f: "find_right m b k = Some it" using find_right_correct[OF inv] by simp
  obtain it2 where f2: "find_left m b d = Some it2" using find_left_correct[OF inv] by simp
  show ?thesis
  proof (cases "it = end_right b")
    case False
    then have "m' = m" "b' = b" using r k f
      by (auto simp: at_right_or_default_def split: bind_splits)
    then show ?thesis using local_step_refl[OF inv] by blast
  next
    case e: True
    show ?thesis
    proof (cases "it2 = end_left b")
      case True
      from r k f f2 e True obtain k1 it3 where "insert_bimap m b d k1 = Some (m', b', it3)"
        by (auto simp: at_right_or_default_def split: bind_splits)
      then show ?thesis by (rule local_insert[OF inv])
    next
      case False
      from find_left_cursor[OF inv f2 False] obtain x where x: "x \<in> set_tree lt"
        "it2 = Left_iterator (Some x)" by auto
      from r k f f2 e False obtain m1 b1 nxt k1 it3 where
        s: "erase_left m b it2 = Some (m1, b1, nxt)" "insert_bimap m1 b1 d k1 = Some (m', b', it3)"
        by (auto simp: at_right_or_default_def split: bind_splits)
      have l1: "local_step m b lt m1 b1 (erase_tree x lt) (erase_tree x rt)"
        using local_erase_left[OF inv x(1)] s(1) x(2) by simp
      from local_insert[OF local_step_inv[OF l1] s(2)] obtain lt' rt' where
        "local_step m1 b1 (erase_tree x lt) m' b' lt' rt'" by blast
      from local_step_trans[OF l1 this] show ?thesis by blast
    qed
  qed
qed

lemma filter_out_middle:
  "distinct (pre @ x # rest) \<Longrightarrow> filter (\<lambda>y. y \<noteq> x) (pre @ x # rest) = pre @ rest"
proof -
  assume d: "distinct (pre @ x # rest)"
  have "\<And>xs. x \<notin> set xs \<Longrightarrow> filter (\<lambda>y. y \<noteq> x) xs = xs"
  proof -
    fix xs :: "'a list" assume "x \<notin> set xs"
    then show "filter (\<lambda>y. y \<noteq> x) xs = xs" by (induction xs) auto
  qed
  then show ?thesis using d by simp
qed

lemma next_in_middle:
  "x \<notin> set pre \<Longrightarrow> rest \<noteq> [] \<Longrightarrow> next_in (pre @ x # rest) x = Some (hd rest)"
  by (cases rest) (simp_all add: next_in_append_notin)

lemma local_erase_left_range:
  "bimap_inv m b lt rt \<Longrightarrow> sentinel (left_set b) = Some sa \<Longrightarrow> inorder lt = pre @ mid @ suf \<Longrightarrow>
   \<exists>m' b' lt' rt'. erase_left_range m b (Left_iterator (Some (hd (mid @ suf @ [sa]))))
         (Left_iterator (Some (hd (suf @ [sa]))))
       = Some (m', b', Left_iterator (Some (hd (suf @ [sa]))))
     \<and> local_step m b lt m' b' lt' rt' \<and> inorder lt' = pre @ suf"
proof (induction mid arbitrary: m b lt rt)
  case Nil
  have "erase_left_range m b (Left_iterator (Some (hd (suf @ [sa]))))
      (Left_iterator (Some (hd (suf @ [sa]))))
      = Some (m, b, Left_iterator (Some (hd (suf @ [sa]))))"
    by (subst erase_left_range.simps) simp
  then show ?case using local_step_refl[OF Nil(1)] Nil(3) by auto
next
  case (Cons x mid)
  note inv = Cons.prems(1) and sa = Cons.prems(2) and sp = Cons.prems(3)
  from inv have il: "set_inv (left_set b) (left_keys m) (left_nodes m) lt"
    by (simp add: bimap_inv_def)
  have d: "distinct (inorder lt)" using il by (rule set_invD)
  have x: "x \<in> set_tree lt"
  proof -
    have "x \<in> set (inorder lt)" by (simp add: sp)
    then show ?thesis by simp
  qed
  have xs: "x \<noteq> sa" using bimap_inv_keys(4)[OF inv x] sa by auto
  have xn: "x \<notin> set pre" "x \<notin> set mid" "x \<notin> set suf" using d by (simp_all add: sp)
  have ne: "x \<noteq> hd (suf @ [sa])" using xn(3) xs by (cases suf) auto
  define b1 where "b1 = b\<lparr>m_size := m_size b - 1\<rparr>"
  from erase_left_correct[OF inv x sa, folded b1_def] obtain m1 y where
    e: "erase_left m b (Left_iterator (Some x)) = Some (m1, b1, Left_iterator (Some y))"
      "next_in (inorder lt @ [sa]) x = Some y"
    by (elim exE conjE) (rule that)
  have "next_in (inorder lt @ [sa]) x = Some (hd (mid @ suf @ [sa]))"
    using next_in_middle[OF xn(1), of "mid @ suf @ [sa]"] by (simp add: sp)
  with e(2) have yy: "y = hd (mid @ suf @ [sa])" by simp
  have l1: "local_step m b lt m1 b1 (erase_tree x lt) (erase_tree x rt)"
    by (rule local_erase_left[OF inv x e(1)])
  have io: "inorder (erase_tree x lt) = pre @ mid @ suf"
    using filter_out_middle[of pre x "mid @ suf"] d by (simp add: inorder_erase_tree[OF d] sp)
  have sa1: "sentinel (left_set b1) = Some sa" using sa by (simp add: b1_def)
  from Cons.IH[OF local_step_inv[OF l1] sa1 io] obtain m' b' lt' rt' where
    r: "erase_left_range m1 b1 (Left_iterator (Some (hd (mid @ suf @ [sa]))))
          (Left_iterator (Some (hd (suf @ [sa]))))
        = Some (m', b', Left_iterator (Some (hd (suf @ [sa]))))"
      "local_step m1 b1 (erase_tree x lt) m' b' lt' rt'" "inorder lt' = pre @ suf"
    by (elim exE conjE) (rule that)
  have run: "erase_left_range m b (Left_iterator (Some (hd ((x # mid) @ suf @ [sa]))))
          (Left_iterator (Some (hd (suf @ [sa]))))
        = Some (m', b', Left_iterator (Some (hd (suf @ [sa]))))"
    using ne e(1) r(1) yy by (subst erase_left_range.simps) simp
  from run local_step_trans[OF l1 r(2)] r(3) show ?case by blast
qed

lemma local_erase_right_range:
  "bimap_inv m b lt rt \<Longrightarrow> sentinel (right_set b) = Some sa \<Longrightarrow> inorder rt = pre @ mid @ suf \<Longrightarrow>
   \<exists>m' b' lt' rt'. erase_right_range m b (Right_iterator (Some (hd (mid @ suf @ [sa]))))
         (Right_iterator (Some (hd (suf @ [sa]))))
       = Some (m', b', Right_iterator (Some (hd (suf @ [sa]))))
     \<and> local_step m b lt m' b' lt' rt' \<and> inorder rt' = pre @ suf"
proof (induction mid arbitrary: m b lt rt)
  case Nil
  have "erase_right_range m b (Right_iterator (Some (hd (suf @ [sa]))))
      (Right_iterator (Some (hd (suf @ [sa]))))
      = Some (m, b, Right_iterator (Some (hd (suf @ [sa]))))"
    by (subst erase_right_range.simps) simp
  then show ?case using local_step_refl[OF Nil(1)] Nil(3) by auto
next
  case (Cons x mid)
  note inv = Cons.prems(1) and sa = Cons.prems(2) and sp = Cons.prems(3)
  from inv have ir: "set_inv (right_set b) (right_keys m) (right_nodes m) rt"
    and st: "set_tree lt = set_tree rt"
    by (simp_all add: bimap_inv_def)
  have d: "distinct (inorder rt)" using ir by (rule set_invD)
  have x: "x \<in> set_tree rt"
  proof -
    have "x \<in> set (inorder rt)" by (simp add: sp)
    then show ?thesis by simp
  qed
  then have xl: "x \<in> set_tree lt" using st by simp
  have xs: "x \<noteq> sa" using bimap_inv_keys(5)[OF inv xl] sa by auto
  have xn: "x \<notin> set pre" "x \<notin> set mid" "x \<notin> set suf" using d by (simp_all add: sp)
  have ne: "x \<noteq> hd (suf @ [sa])" using xn(3) xs by (cases suf) auto
  define b1 where "b1 = b\<lparr>m_size := m_size b - 1\<rparr>"
  from erase_right_correct[OF inv x sa, folded b1_def] obtain m1 y where
    e: "erase_right m b (Right_iterator (Some x)) = Some (m1, b1, Right_iterator (Some y))"
      "next_in (inorder rt @ [sa]) x = Some y"
    by (elim exE conjE) (rule that)
  have "next_in (inorder rt @ [sa]) x = Some (hd (mid @ suf @ [sa]))"
    using next_in_middle[OF xn(1), of "mid @ suf @ [sa]"] by (simp add: sp)
  with e(2) have yy: "y = hd (mid @ suf @ [sa])" by simp
  have l1: "local_step m b lt m1 b1 (erase_tree x lt) (erase_tree x rt)"
    by (rule local_erase_right[OF inv x e(1)])
  have io: "inorder (erase_tree x rt) = pre @ mid @ suf"
    using filter_out_middle[of pre x "mid @ suf"] d by (simp add: inorder_erase_tree[OF d] sp)
  have sa1: "sentinel (right_set b1) = Some sa" using sa by (simp add: b1_def)
  from Cons.IH[OF local_step_inv[OF l1] sa1 io] obtain m' b' lt' rt' where
    r: "erase_right_range m1 b1 (Right_iterator (Some (hd (mid @ suf @ [sa]))))
          (Right_iterator (Some (hd (suf @ [sa]))))
        = Some (m', b', Right_iterator (Some (hd (suf @ [sa]))))"
      "local_step m1 b1 (erase_tree x lt) m' b' lt' rt'" "inorder rt' = pre @ suf"
    by (elim exE conjE) (rule that)
  have run: "erase_right_range m b (Right_iterator (Some (hd ((x # mid) @ suf @ [sa]))))
          (Right_iterator (Some (hd (suf @ [sa]))))
        = Some (m', b', Right_iterator (Some (hd (suf @ [sa]))))"
    using ne e(1) r(1) yy by (subst erase_right_range.simps) simp
  from run local_step_trans[OF l1 r(2)] r(3) show ?case by blast
qed

lemma nth_cursor:
  "i \<le> length xs \<Longrightarrow> (map f xs @ [f sa]) ! i = f (hd (drop i xs @ [sa]))"
proof (induction xs arbitrary: i)
  case Nil
  then show ?case by simp
next
  case (Cons x xs)
  then show ?case by (cases i) simp_all
qed

lemma local_erase_left_range_cursors:
  assumes inv: "bimap_inv m b lt rt" and lc: "left_cursors m b = Some cs"
    and ij: "i \<le> j" "j \<le> length cs"
    and r: "erase_left_range m b ((cs @ [end_left b]) ! i) ((cs @ [end_left b]) ! j)
              = Some (m', b', nxt)"
  shows "\<exists>lt' rt'. local_step m b lt m' b' lt' rt'"
proof -
  from inv obtain sa where sa: "sentinel (left_set b) = Some sa" by (rule bimap_inv_sentinel)
  let ?f = "\<lambda>x. Left_iterator (Some x)"
  have cs: "cs = map ?f (inorder lt)" using left_cursors_correct[OF inv] lc by simp
  have e: "end_left b = ?f sa" by (simp add: end_left_def end_set_def sa)
  have len: "j \<le> length (inorder lt)" "i \<le> length (inorder lt)" using ij cs by simp_all
  define pre where "pre = take i (inorder lt)"
  define mid where "mid = take (j - i) (drop i (inorder lt))"
  define suf where "suf = drop j (inorder lt)"
  have ms: "mid @ suf = drop i (inorder lt)"
  proof -
    have "drop (j - i) (drop i (inorder lt)) = suf" using ij(1) by (simp add: suf_def)
    then show ?thesis unfolding mid_def by (metis append_take_drop_id)
  qed
  have sp: "inorder lt = pre @ mid @ suf" by (simp add: ms pre_def)
  have fi: "(cs @ [end_left b]) ! i = ?f (hd (mid @ suf @ [sa]))"
    using nth_cursor[OF len(2), of ?f sa] by (simp add: cs e ms[symmetric])
  have fj: "(cs @ [end_left b]) ! j = ?f (hd (suf @ [sa]))"
    using nth_cursor[OF len(1), of ?f sa] by (simp add: cs e suf_def)
  from local_erase_left_range[OF inv sa sp] r show ?thesis unfolding fi fj by auto
qed

lemma local_erase_right_range_cursors:
  assumes inv: "bimap_inv m b lt rt" and rc: "right_cursors m b = Some cs"
    and ij: "i \<le> j" "j \<le> length cs"
    and r: "erase_right_range m b ((cs @ [end_right b]) ! i) ((cs @ [end_right b]) ! j)
              = Some (m', b', nxt)"
  shows "\<exists>lt' rt'. local_step m b lt m' b' lt' rt'"
proof -
  from inv obtain sa where sa: "sentinel (right_set b) = Some sa" by (rule bimap_inv_sentinel)
  let ?f = "\<lambda>x. Right_iterator (Some x)"
  have cs: "cs = map ?f (inorder rt)" using right_cursors_correct[OF inv] rc by simp
  have e: "end_right b = ?f sa" by (simp add: end_right_def end_set_def sa)
  have len: "j \<le> length (inorder rt)" "i \<le> length (inorder rt)" using ij cs by simp_all
  define pre where "pre = take i (inorder rt)"
  define mid where "mid = take (j - i) (drop i (inorder rt))"
  define suf where "suf = drop j (inorder rt)"
  have ms: "mid @ suf = drop i (inorder rt)"
  proof -
    have "drop (j - i) (drop i (inorder rt)) = suf" using ij(1) by (simp add: suf_def)
    then show ?thesis unfolding mid_def by (metis append_take_drop_id)
  qed
  have sp: "inorder rt = pre @ mid @ suf" by (simp add: ms pre_def)
  have fi: "(cs @ [end_right b]) ! i = ?f (hd (mid @ suf @ [sa]))"
    using nth_cursor[OF len(2), of ?f sa] by (simp add: cs e ms[symmetric])
  have fj: "(cs @ [end_right b]) ! j = ?f (hd (suf @ [sa]))"
    using nth_cursor[OF len(1), of ?f sa] by (simp add: cs e suf_def)
  from local_erase_right_range[OF inv sa sp] r show ?thesis unfolding fi fj by auto
qed

lemma local_erase_left_cursor:
  assumes inv: "bimap_inv m b lt rt" and lc: "left_cursors m b = Some cs" and i: "it \<in> set cs"
    and r: "erase_left m b it = Some (m', b', nxt)"
  shows "\<exists>lt' rt'. local_step m b lt m' b' lt' rt'"
proof -
  have "cs = map (\<lambda>x. Left_iterator (Some x)) (inorder lt)"
    using left_cursors_correct[OF inv] lc by simp
  with i obtain x where x: "x \<in> set_tree lt" "it = Left_iterator (Some x)" by auto
  from local_erase_left[OF inv x(1)] r x(2) show ?thesis by blast
qed

lemma local_erase_right_cursor:
  assumes inv: "bimap_inv m b lt rt" and rc: "right_cursors m b = Some cs" and i: "it \<in> set cs"
    and r: "erase_right m b it = Some (m', b', nxt)"
  shows "\<exists>lt' rt'. local_step m b lt m' b' lt' rt'"
proof -
  have "cs = map (\<lambda>x. Right_iterator (Some x)) (inorder rt)"
    using right_cursors_correct[OF inv] rc by simp
  with i obtain x where x: "x \<in> set_tree rt" "it = Right_iterator (Some x)" by auto
  from local_erase_right[OF inv x(1)] r x(2) show ?thesis by blast
qed

lemma world_invE:
  assumes "world_inv m W"
  obtains lt rt where "\<forall>c\<in>W. bimap_inv m c (lt c) (rt c)"
    "\<forall>a\<in>W. \<forall>c\<in>W. a \<noteq> c \<longrightarrow> cells a (lt a) \<inter> cells c (lt c) = {}"
    "mem_ok m"
  using assms unfolding world_inv_def by blast

lemma sentinel_in_cells:
  assumes "bimap_inv m b lt rt"
  obtains s where "sentinel (left_set b) = Some s" "s \<in> cells b lt"
proof -
  from assms obtain s where s: "sentinel (left_set b) = Some s" by (rule bimap_inv_sentinel)
  then have "s \<in> cells b lt" by (simp add: cells_def)
  with s show thesis by (rule that)
qed

lemma disjoint_distinct:
  assumes a: "bimap_inv m a lta rta" and b: "bimap_inv m' b ltb rtb"
    and d: "cells a lta \<inter> cells b ltb = {}"
  shows "sentinel (left_set a) \<noteq> sentinel (left_set b)"
proof -
  from a obtain sa where sa: "sentinel (left_set a) = Some sa" "sa \<in> cells a lta"
    by (rule sentinel_in_cells)
  from b obtain sb where sb: "sentinel (left_set b) = Some sb" "sb \<in> cells b ltb"
    by (rule sentinel_in_cells)
  from d sa(2) sb(2) have "sa \<noteq> sb" by auto
  then show ?thesis by (simp add: sa sb)
qed

lemma world_step:
  assumes inv0: "\<forall>c\<in>W. bimap_inv m c (lt c) (rt c)"
    and dj0: "\<forall>a\<in>W. \<forall>c\<in>W. a \<noteq> c \<longrightarrow> cells a (lt a) \<inter> cells c (lt c) = {}"
    and b: "b \<in> W" and l: "local_step m b (lt b) m' b' lt' rt'"
  shows "world_inv m' (insert b' (W - {b}))"
proof -
  have inv: "\<And>c. c \<in> W \<Longrightarrow> bimap_inv m c (lt c) (rt c)" using inv0 by blast
  have dj: "\<And>a c. a \<in> W \<Longrightarrow> c \<in> W \<Longrightarrow> a \<noteq> c \<Longrightarrow> cells a (lt a) \<inter> cells c (lt c) = {}"
    using dj0 by blast
  from l have i': "bimap_inv m' b' lt' rt'"
    and u: "unchanged_on ({..<next_free m} - cells b (lt b)) m m'"
    and c': "cells b' lt' \<subseteq> cells b (lt b) \<union> {next_free m..}"
    and s': "sentinel (left_set b') = sentinel (left_set b)"
    by (simp_all add: local_step_def)
  have ok': "mem_ok m'" using i' by (simp add: bimap_inv_def)
  have others: "c \<noteq> b' \<and> bimap_inv m' c (lt c) (rt c) \<and> cells c (lt c) \<inter> cells b' lt' = {}"
    if c: "c \<in> W" "c \<noteq> b" for c
  proof -
    have cb: "cells c (lt c) \<subseteq> {..<next_free m}" by (rule cells_bound[OF inv[OF c(1)]])
    have cd: "cells c (lt c) \<inter> cells b (lt b) = {}" by (rule dj[OF c(1) b c(2)])
    have sub: "cells c (lt c) \<subseteq> {..<next_free m} - cells b (lt b)" using cb cd by auto
    have 1: "bimap_inv m' c (lt c) (rt c)"
      by (rule bimap_inv_frame[OF inv[OF c(1)] unchanged_on_mono[OF u sub] ok'])
    have 2: "cells c (lt c) \<inter> cells b' lt' = {}"
    proof (rule ccontr)
      assume "cells c (lt c) \<inter> cells b' lt' \<noteq> {}"
      then obtain x where x: "x \<in> cells c (lt c)" "x \<in> cells b' lt'" by auto
      from x(1) cb have "x < next_free m" by auto
      moreover from x(1) cd have "x \<notin> cells b (lt b)" by auto
      ultimately show False using x(2) c' by auto
    qed
    have "sentinel (left_set c) \<noteq> sentinel (left_set b')"
      by (rule disjoint_distinct[OF inv[OF c(1)] i' 2])
    then have "c \<noteq> b'" by auto
    with 1 2 show ?thesis by simp
  qed
  define lt2 where "lt2 = lt(b' := lt')"
  define rt2 where "rt2 = rt(b' := rt')"
  have A: "\<forall>x\<in>insert b' (W - {b}). bimap_inv m' x (lt2 x) (rt2 x)"
    using i' others by (auto simp: lt2_def rt2_def)
  have B: "\<forall>x\<in>insert b' (W - {b}). \<forall>y\<in>insert b' (W - {b}). x \<noteq> y \<longrightarrow>
      cells x (lt2 x) \<inter> cells y (lt2 y) = {}"
  proof (intro ballI impI)
    fix x y assume x: "x \<in> insert b' (W - {b})" and y: "y \<in> insert b' (W - {b})" and ne: "x \<noteq> y"
    show "cells x (lt2 x) \<inter> cells y (lt2 y) = {}"
    proof (cases "x = b'")
      case True
      then have "y \<in> W" "y \<noteq> b" "y \<noteq> b'" using y ne by auto
      then show ?thesis using others[of y] True by (auto simp: lt2_def)
    next
      case xf: False
      then have xw: "x \<in> W" "x \<noteq> b" using x by auto
      show ?thesis
      proof (cases "y = b'")
        case True
        then show ?thesis using others[OF xw] xf by (auto simp: lt2_def)
      next
        case False
        then have "y \<in> W" using y by auto
        from dj[OF xw(1) this ne] show ?thesis using xf False by (simp add: lt2_def)
      qed
    qed
  qed
  from ok' A B show ?thesis unfolding world_inv_def by blast
qed

lemma world_new:
  assumes inv0: "\<forall>c\<in>W. bimap_inv m c (lt c) (rt c)"
    and dj0: "\<forall>a\<in>W. \<forall>c\<in>W. a \<noteq> c \<longrightarrow> cells a (lt a) \<inter> cells c (lt c) = {}"
    and n: "bimap_inv m' b' lt' rt'" and f: "cells b' lt' \<inter> {..<next_free m} = {}"
    and u: "unchanged_on {..<next_free m} m m'"
  shows "world_inv m' (insert b' W)"
proof -
  have inv: "\<And>c. c \<in> W \<Longrightarrow> bimap_inv m c (lt c) (rt c)" using inv0 by blast
  have dj: "\<And>a c. a \<in> W \<Longrightarrow> c \<in> W \<Longrightarrow> a \<noteq> c \<Longrightarrow> cells a (lt a) \<inter> cells c (lt c) = {}"
    using dj0 by blast
  have ok': "mem_ok m'" using n by (simp add: bimap_inv_def)
  have others: "c \<noteq> b' \<and> bimap_inv m' c (lt c) (rt c) \<and> cells c (lt c) \<inter> cells b' lt' = {}"
    if c: "c \<in> W" for c
  proof -
    have cb: "cells c (lt c) \<subseteq> {..<next_free m}" by (rule cells_bound[OF inv[OF c]])
    have 1: "bimap_inv m' c (lt c) (rt c)"
      by (rule bimap_inv_frame[OF inv[OF c] unchanged_on_mono[OF u cb] ok'])
    have 2: "cells c (lt c) \<inter> cells b' lt' = {}" using cb f by auto
    have "sentinel (left_set c) \<noteq> sentinel (left_set b')"
      by (rule disjoint_distinct[OF inv[OF c] n 2])
    then have "c \<noteq> b'" by auto
    with 1 2 show ?thesis by simp
  qed
  define lt2 where "lt2 = lt(b' := lt')"
  define rt2 where "rt2 = rt(b' := rt')"
  have A: "\<forall>x\<in>insert b' W. bimap_inv m' x (lt2 x) (rt2 x)"
    using n others by (auto simp: lt2_def rt2_def)
  have B: "\<forall>x\<in>insert b' W. \<forall>y\<in>insert b' W. x \<noteq> y \<longrightarrow>
      cells x (lt2 x) \<inter> cells y (lt2 y) = {}"
  proof (intro ballI impI)
    fix x y assume x: "x \<in> insert b' W" and y: "y \<in> insert b' W" and ne: "x \<noteq> y"
    show "cells x (lt2 x) \<inter> cells y (lt2 y) = {}"
    proof (cases "x = b'")
      case True
      then have "y \<in> W" "y \<noteq> b'" using y ne by auto
      then show ?thesis using others[of y] True by (auto simp: lt2_def)
    next
      case xf: False
      then have xw: "x \<in> W" using x by auto
      show ?thesis
      proof (cases "y = b'")
        case True
        then show ?thesis using others[OF xw] xf by (auto simp: lt2_def)
      next
        case False
        then have "y \<in> W" using y by auto
        from dj[OF xw this ne] show ?thesis using xf False by (simp add: lt2_def)
      qed
    qed
  qed
  from ok' A B show ?thesis unfolding world_inv_def by blast
qed

lemma world_remove:
  assumes inv0: "\<forall>c\<in>W. bimap_inv m c (lt c) (rt c)"
    and dj0: "\<forall>a\<in>W. \<forall>c\<in>W. a \<noteq> c \<longrightarrow> cells a (lt a) \<inter> cells c (lt c) = {}"
    and b: "b \<in> W" and u: "unchanged_on (- cells b (lt b)) m m'" and ok': "mem_ok m'"
  shows "world_inv m' (W - {b})"
proof -
  have inv: "\<And>c. c \<in> W \<Longrightarrow> bimap_inv m c (lt c) (rt c)" using inv0 by blast
  have dj: "\<And>a c. a \<in> W \<Longrightarrow> c \<in> W \<Longrightarrow> a \<noteq> c \<Longrightarrow> cells a (lt a) \<inter> cells c (lt c) = {}"
    using dj0 by blast
  have A: "\<forall>x\<in>W - {b}. bimap_inv m' x (lt x) (rt x)"
  proof
    fix x assume x: "x \<in> W - {b}"
    then have xw: "x \<in> W" "x \<noteq> b" by auto
    have "cells x (lt x) \<subseteq> - cells b (lt b)" using dj[OF xw(1) b xw(2)] by auto
    from bimap_inv_frame[OF inv[OF xw(1)] unchanged_on_mono[OF u this] ok']
    show "bimap_inv m' x (lt x) (rt x)" .
  qed
  have B: "\<forall>x\<in>W - {b}. \<forall>y\<in>W - {b}. x \<noteq> y \<longrightarrow> cells x (lt x) \<inter> cells y (lt y) = {}"
    using dj by auto
  from ok' A B show ?thesis unfolding world_inv_def by blast
qed

lemma swap_set_self:
  assumes i: "set_inv s gk nh t"
  shows "swap_set nh s s = Some (nh, s, s)"
proof -
  from i obtain sa ns where s: "sentinel s = Some sa" "nh sa = Some ns"
    "tree_at nh (Some sa) (left ns) t"
    by (rule set_invD)
  have h: "nh(sa \<mapsto> ns) = nh" using s(2) by (rule map_upd_triv)
  have p: "(if left ns \<noteq> None then set_parent nh (left ns) (Some sa) else Some nh) = Some nh"
  proof (cases "left ns")
    case None
    then show ?thesis by simp
  next
    case (Some r)
    from tree_at_Some[OF s(3)[unfolded Some]] obtain nr where
      nr: "nh r = Some nr" "parent nr = Some sa" by auto
    have "nr\<lparr>parent := Some sa\<rparr> = nr" using nr(2) by (cases nr) simp
    then show ?thesis using nr(1) Some by (simp add: map_upd_triv)
  qed
  have e1: "set_left nh (Some sa) (left ns) = Some nh" using s(2) by (simp add: h)
  show ?thesis
    using s(2) p e1 by (simp add: swap_set_def s(1) Let_def split del: if_split cong: if_cong)
qed

lemma swap_bimap_self:
  assumes inv: "bimap_inv m a lt rt"
  shows "swap_bimap m a a = Some (m, a, a)"
proof -
  from inv have il: "set_inv (left_set a) (left_keys m) (left_nodes m) lt"
    and ir: "set_inv (right_set a) (right_keys m) (right_nodes m) rt"
    by (simp_all add: bimap_inv_def)
  show ?thesis by (simp add: swap_bimap_def swap_set_self[OF il] swap_set_self[OF ir])
qed

lemma world_swap:
  assumes inv0: "\<forall>c\<in>W. bimap_inv m c (lt c) (rt c)"
    and dj0: "\<forall>a\<in>W. \<forall>c\<in>W. a \<noteq> c \<longrightarrow> cells a (lt a) \<inter> cells c (lt c) = {}"
    and a: "a \<in> W" and b: "b \<in> W" and ok: "mem_ok m"
    and r: "swap_bimap m a b = Some (m', a', b')"
  shows "world_inv m' (insert a' (insert b' (W - {a, b})))"
proof -
  have inv: "\<And>c. c \<in> W \<Longrightarrow> bimap_inv m c (lt c) (rt c)" using inv0 by blast
  have dj: "\<And>a c. a \<in> W \<Longrightarrow> c \<in> W \<Longrightarrow> a \<noteq> c \<Longrightarrow> cells a (lt a) \<inter> cells c (lt c) = {}"
    using dj0 by blast
  show ?thesis
  proof (cases "a = b")
  case True
  from swap_bimap_self[OF inv[OF a]] r True have e: "m' = m" "a' = a" "b' = a" by auto
  have "insert a (insert a (W - {a, a})) = W" using a by auto
  moreover have "world_inv m W" unfolding world_inv_def using ok inv0 dj0 by blast
  ultimately show ?thesis using True e by simp
next
  case ne: False
  have d: "cells a (lt a) \<inter> cells b (lt b) = {}" by (rule dj[OF a b ne])
  from swap_bimap_correct[OF inv[OF a] inv[OF b] d] r have
    w: "bimap_inv m' a' (lt b) (rt b)" "bimap_inv m' b' (lt a) (rt a)"
      "unchanged_on (- (cells a (lt a) \<union> cells b (lt b))) m m'"
      "sentinel (left_set a') = sentinel (left_set a)"
      "sentinel (left_set b') = sentinel (left_set b)"
    by auto
  have ok': "mem_ok m'" using w(1) by (simp add: bimap_inv_def)
  from inv[OF a] inv[OF b] d obtain sa sb where sa: "sentinel (left_set a) = Some sa"
    and sb: "sentinel (left_set b) = Some sb"
    and nn: "sa \<notin> set_tree (lt a)" "sb \<notin> set_tree (lt b)"
    by (rule cells_disjointD)
  have ca: "cells a' (lt b) \<subseteq> cells a (lt a) \<union> cells b (lt b)"
    using sa by (auto simp: cells_def w(4))
  have cb: "cells b' (lt a) \<subseteq> cells a (lt a) \<union> cells b (lt b)"
    using sb by (auto simp: cells_def w(5))
  have dab: "cells a' (lt b) \<inter> cells b' (lt a) = {}"
    using d sa sb nn by (auto simp: cells_def w(4,5))
  have nab: "a' \<noteq> b'" using disjoint_distinct[OF w(1) w(2) dab] by auto
  have others: "c \<noteq> a' \<and> c \<noteq> b' \<and> bimap_inv m' c (lt c) (rt c)
      \<and> cells c (lt c) \<inter> cells a' (lt b) = {} \<and> cells c (lt c) \<inter> cells b' (lt a) = {}"
    if c: "c \<in> W" "c \<noteq> a" "c \<noteq> b" for c
  proof -
    have d1: "cells c (lt c) \<inter> cells a (lt a) = {}" by (rule dj[OF c(1) a c(2)])
    have d2: "cells c (lt c) \<inter> cells b (lt b) = {}" by (rule dj[OF c(1) b c(3)])
    have sub: "cells c (lt c) \<subseteq> - (cells a (lt a) \<union> cells b (lt b))" using d1 d2 by auto
    have 1: "bimap_inv m' c (lt c) (rt c)"
      by (rule bimap_inv_frame[OF inv[OF c(1)] unchanged_on_mono[OF w(3) sub] ok'])
    have 2: "cells c (lt c) \<inter> cells a' (lt b) = {}" using d1 d2 ca by auto
    have 3: "cells c (lt c) \<inter> cells b' (lt a) = {}" using d1 d2 cb by auto
    have "c \<noteq> a'" using disjoint_distinct[OF inv[OF c(1)] w(1) 2] by auto
    moreover have "c \<noteq> b'" using disjoint_distinct[OF inv[OF c(1)] w(2) 3] by auto
    ultimately show ?thesis using 1 2 3 by simp
  qed
  define lt2 where "lt2 = lt(a' := lt b, b' := lt a)"
  define rt2 where "rt2 = rt(a' := rt b, b' := rt a)"
  let ?W = "insert a' (insert b' (W - {a, b}))"
  have l2: "lt2 a' = lt b" "lt2 b' = lt a" "rt2 a' = rt b" "rt2 b' = rt a"
    using nab by (simp_all add: lt2_def rt2_def)
  have o2: "\<And>c. c \<noteq> a' \<Longrightarrow> c \<noteq> b' \<Longrightarrow> lt2 c = lt c \<and> rt2 c = rt c"
    by (simp add: lt2_def rt2_def)
  have A: "\<forall>x\<in>?W. bimap_inv m' x (lt2 x) (rt2 x)"
  proof
    fix x assume "x \<in> ?W"
    then consider "x = a'" | "x = b'" | "x \<in> W" "x \<noteq> a" "x \<noteq> b" by auto
    then show "bimap_inv m' x (lt2 x) (rt2 x)"
    proof cases
      case 1
      then show ?thesis using w(1) l2 by simp
    next
      case 2
      then show ?thesis using w(2) l2 by simp
    next
      case 3
      from others[OF 3] o2[of x] show ?thesis by simp
    qed
  qed
  have C: "cells x (lt2 x) \<inter> cells y (lt2 y) = {}"
    if x: "x \<in> ?W" and y: "y \<in> ?W" and xy: "x \<noteq> y" for x y
  proof -
    from x consider "x = a'" | "x = b'" | "x \<in> W" "x \<noteq> a" "x \<noteq> b" "x \<noteq> a'" "x \<noteq> b'"
      using others by auto
    then show ?thesis
    proof cases
      case 1
      from y xy 1 consider "y = b'" | "y \<in> W" "y \<noteq> a" "y \<noteq> b" by auto
      then show ?thesis
      proof cases
        case 1
        then show ?thesis using \<open>x = a'\<close> dab l2 by simp
      next
        case 2
        from others[OF 2] o2[of y] show ?thesis using \<open>x = a'\<close> l2 by auto
      qed
    next
      case 2
      from y xy 2 consider "y = a'" | "y \<in> W" "y \<noteq> a" "y \<noteq> b" by auto
      then show ?thesis
      proof cases
        case 1
        then show ?thesis using \<open>x = b'\<close> dab l2 by auto
      next
        case 2
        from others[OF 2] o2[of y] show ?thesis using \<open>x = b'\<close> l2 by auto
      qed
    next
      case 3
      from y consider "y = a'" | "y = b'" | "y \<in> W" "y \<noteq> a" "y \<noteq> b" "y \<noteq> a'" "y \<noteq> b'"
        using others by auto
      then show ?thesis
      proof cases
        case 1
        from others[OF 3(1,2,3)] o2[OF 3(4,5)] show ?thesis using 1 l2 by auto
      next
        case 2
        from others[OF 3(1,2,3)] o2[OF 3(4,5)] show ?thesis using 2 l2 by auto
      next
        case y3: 3
        from dj[OF 3(1) y3(1) xy] o2[OF 3(4,5)] o2[OF y3(4,5)] show ?thesis by simp
      qed
    qed
  qed
  have B: "\<forall>x\<in>?W. \<forall>y\<in>?W. x \<noteq> y \<longrightarrow> cells x (lt2 x) \<inter> cells y (lt2 y) = {}"
    using C by blast
  from ok' A B show ?thesis unfolding world_inv_def by blast
qed
qed

lemma world_inv_member:
  assumes "world_inv m W" and "b \<in> W"
  obtains lt rt where "bimap_inv m b lt rt"
  using assms unfolding world_inv_def by blast

lemma world_local:
  assumes w: "world_inv m W" and b: "b \<in> W"
    and l: "\<And>lt rt. bimap_inv m b lt rt \<Longrightarrow> \<exists>lt' rt'. local_step m b lt m' b' lt' rt'"
  shows "world_inv m' (insert b' (W - {b}))"
proof -
  from w obtain lt rt where
    w: "\<forall>c\<in>W. bimap_inv m c (lt c) (rt c)"
      "\<forall>a\<in>W. \<forall>c\<in>W. a \<noteq> c \<longrightarrow> cells a (lt a) \<inter> cells c (lt c) = {}"
    by (rule world_invE)
  from w(1) b have "bimap_inv m b (lt b) (rt b)" by blast
  from l[OF this] obtain lt' rt' where "local_step m b (lt b) m' b' lt' rt'" by blast
  then show ?thesis by (rule world_step[OF w b])
qed

lemma world_assign:
  assumes w: "world_inv m W" and a: "a \<in> W" and b: "b \<in> W"
    and r: "assign_bimap m a b = Some (m', a', b')"
  shows "world_inv m' (insert a' (W - {a}))"
proof (cases "a = b")
  case True
  then have "m' = m" "a' = a" using r by (simp_all add: assign_bimap_def)
  moreover have "insert a (W - {a}) = W" using a by auto
  ultimately show ?thesis using w by simp
next
  case False
  from w obtain lt rt where
    w: "\<forall>c\<in>W. bimap_inv m c (lt c) (rt c)"
      "\<forall>a\<in>W. \<forall>c\<in>W. a \<noteq> c \<longrightarrow> cells a (lt a) \<inter> cells c (lt c) = {}"
    by (rule world_invE)
  have ia: "bimap_inv m a (lt a) (rt a)" and ib: "bimap_inv m b (lt b) (rt b)"
    using w(1) a b by blast+
  have d: "cells a (lt a) \<inter> cells b (lt b) = {}" using w(2) a b False by blast
  from assign_bimap_correct[OF ia ib d] r obtain lt' rt' where
    s: "bimap_inv m' a' lt' rt'" "sentinel (left_set a') = sentinel (left_set a)"
      "unchanged_on ({..<next_free m} - cells a (lt a)) m m'"
      "set_tree lt' \<inter> {..<next_free m} = {}" "next_free m \<le> next_free m'"
    by auto
  from ia obtain sa where sa: "sentinel (left_set a) = Some sa" "sa \<in> cells a (lt a)"
    by (rule sentinel_in_cells)
  have "cells a' lt' \<subseteq> cells a (lt a) \<union> {next_free m..}"
  proof
    fix x assume "x \<in> cells a' lt'"
    then have "x = sa \<or> x \<in> set_tree lt'" by (auto simp: cells_def s(2) sa(1))
    then show "x \<in> cells a (lt a) \<union> {next_free m..}"
    proof
      assume "x = sa"
      then show ?thesis using sa(2) by simp
    next
      assume "x \<in> set_tree lt'"
      with s(4) have "\<not> x < next_free m" by auto
      then show ?thesis by simp
    qed
  qed
  with s have "local_step m a (lt a) m' a' lt' rt'" by (simp add: local_step_def)
  then show ?thesis by (rule world_step[OF w a])
qed

lemma reachable_inv: "reachable m W \<Longrightarrow> world_inv m W"
proof (induction rule: reachable.induct)
  case (reach_start m)
  then show ?case by (simp add: world_inv_def)
next
  case (reach_ctor m W cl cr m' b)
  from reach_ctor.IH obtain lt rt where
    w: "\<forall>c\<in>W. bimap_inv m c (lt c) (rt c)"
      "\<forall>a\<in>W. \<forall>c\<in>W. a \<noteq> c \<longrightarrow> cells a (lt a) \<inter> cells c (lt c) = {}"
      "mem_ok m"
    by (rule world_invE)
  have e: "m' = fst (bimap_ctor m cl cr)" "b = snd (bimap_ctor m cl cr)"
    using reach_ctor.hyps(4) by simp_all
  have n: "bimap_inv m' b Leaf Leaf"
    unfolding e by (rule bimap_ctor_inv[OF w(3) reach_ctor.hyps(2,3)])
  have f: "cells b Leaf \<inter> {..<next_free m} = {}"
    by (simp add: e cells_def bimap_ctor_def Let_def intrusive_set_ctor_def)
  have u: "unchanged_on {..<next_free m} m m'"
    by (auto simp: e unchanged_on_def bimap_ctor_def Let_def)
  show ?case by (rule world_new[OF w(1,2) n f u])
next
  case (reach_copy m W b m' c)
  from reach_copy.IH obtain lt rt where
    w: "\<forall>c\<in>W. bimap_inv m c (lt c) (rt c)"
      "\<forall>a\<in>W. \<forall>c\<in>W. a \<noteq> c \<longrightarrow> cells a (lt a) \<inter> cells c (lt c) = {}"
    by (rule world_invE)
  from w(1) reach_copy.hyps(2) have ib: "bimap_inv m b (lt b) (rt b)" by blast
  from bimap_copy_ctor_correct[OF ib] reach_copy.hyps(3) obtain ltc rtc where
    "bimap_inv m' c ltc rtc" "cells c ltc \<inter> {..<next_free m} = {}"
    "unchanged_on {..<next_free m} m m'"
    by auto
  then show ?case by (rule world_new[OF w(1,2)])
next
  case (reach_dtor m W b m')
  from reach_dtor.IH obtain lt rt where
    w: "\<forall>c\<in>W. bimap_inv m c (lt c) (rt c)"
      "\<forall>a\<in>W. \<forall>c\<in>W. a \<noteq> c \<longrightarrow> cells a (lt a) \<inter> cells c (lt c) = {}"
    by (rule world_invE)
  from w(1) reach_dtor.hyps(2) have ib: "bimap_inv m b (lt b) (rt b)" by blast
  from bimap_dtor_correct[OF ib] reach_dtor.hyps(3) have
    "unchanged_on (- cells b (lt b)) m m'" "mem_ok m'"
    by auto
  then show ?case by (rule world_remove[OF w(1,2) reach_dtor.hyps(2)])
next
  case (reach_assign m W a b m' a' b')
  show ?case by (rule world_assign[OF reach_assign.IH reach_assign.hyps(2,3,4)])
next
  case (reach_swap m W a b m' a' b')
  from reach_swap.IH obtain lt rt where
    w: "\<forall>c\<in>W. bimap_inv m c (lt c) (rt c)"
      "\<forall>a\<in>W. \<forall>c\<in>W. a \<noteq> c \<longrightarrow> cells a (lt a) \<inter> cells c (lt c) = {}"
      "mem_ok m"
    by (rule world_invE)
  show ?case by (rule world_swap[OF w(1,2) reach_swap.hyps(2,3) w(3) reach_swap.hyps(4)])
next
  case (reach_insert m W b l r m' b' it)
  show ?case
    by (rule world_local[OF reach_insert.IH reach_insert.hyps(2)])
      (rule local_insert[OF _ reach_insert.hyps(3)])
next
  case (reach_erase_left m W b cs it m' b' nxt)
  show ?case
    by (rule world_local[OF reach_erase_left.IH reach_erase_left.hyps(2)])
      (rule local_erase_left_cursor[OF _ reach_erase_left.hyps(3,4,5)])
next
  case (reach_erase_right m W b cs' it' m' b' nxt')
  show ?case
    by (rule world_local[OF reach_erase_right.IH reach_erase_right.hyps(2)])
      (rule local_erase_right_cursor[OF _ reach_erase_right.hyps(3,4,5)])
next
  case (reach_erase_left_key m W b l m' b' ok)
  show ?case
    by (rule world_local[OF reach_erase_left_key.IH reach_erase_left_key.hyps(2)])
      (rule local_erase_left_key[OF _ reach_erase_left_key.hyps(3)])
next
  case (reach_erase_right_key m W b r m' b' ok)
  show ?case
    by (rule world_local[OF reach_erase_right_key.IH reach_erase_right_key.hyps(2)])
      (rule local_erase_right_key[OF _ reach_erase_right_key.hyps(3)])
next
  case (reach_erase_left_range m W b cs i j m' b' nxt)
  show ?case
    by (rule world_local[OF reach_erase_left_range.IH reach_erase_left_range.hyps(2)])
      (rule local_erase_left_range_cursors[OF _ reach_erase_left_range.hyps(3,4,5,6)])
next
  case (reach_erase_right_range m W b cs' i j m' b' nxt')
  show ?case
    by (rule world_local[OF reach_erase_right_range.IH reach_erase_right_range.hyps(2)])
      (rule local_erase_right_range_cursors[OF _ reach_erase_right_range.hyps(3,4,5,6)])
next
  case (reach_at_left_or_default m W b dr l m' b' vr)
  show ?case
    by (rule world_local[OF reach_at_left_or_default.IH reach_at_left_or_default.hyps(2)])
      (rule local_at_left_or_default[OF _ reach_at_left_or_default.hyps(3)])
next
  case (reach_at_right_or_default m W b dl r m' b' vl)
  show ?case
    by (rule world_local[OF reach_at_right_or_default.IH reach_at_right_or_default.hyps(2)])
      (rule local_at_right_or_default[OF _ reach_at_right_or_default.hyps(3)])
qed

lemma reachable_member:
  assumes "reachable m W" and "b \<in> W"
  shows "\<exists>lt rt. bimap_inv m b lt rt"
  using reachable_inv[OF assms(1)] assms(2) unfolding world_inv_def by blast

lemma ex_reached_reachable: "ex_reached = Some (m, b) \<Longrightarrow> reachable m {b}"
proof -
  assume r: "ex_reached = Some (m, b)"
  obtain m0 b0 where c: "bimap_ctor (empty_memory :: (nat, nat) memory) (<) (<) = (m0, b0)"
    by (cases "bimap_ctor (empty_memory :: (nat, nat) memory) (<) (<)")
  have r0: "reachable m0 {b0}"
    using reach_ctor[OF reach_start[OF mem_ok_empty] swo_less swo_less c] by simp
  from r c obtain m1 b1 i1 m2 b2 i2 i3 where
    i: "insert_bimap m0 b0 2 20 = Some (m1, b1, i1)"
    "insert_bimap m1 b1 1 30 = Some (m2, b2, i2)"
    "insert_bimap m2 b2 3 10 = Some (m, b, i3)"
    by (auto simp: ex_reached_def split: bind_splits)
  have r1: "reachable m1 {b1}" using reach_insert[OF r0 _ i(1)] by simp
  have r2: "reachable m2 {b2}" using reach_insert[OF r1 _ i(2)] by simp
  show ?thesis using reach_insert[OF r2 _ i(3)] by simp
qed

subsection \<open>References to stored keys\<close>

lemma outlives_outside [simp]: "outlives (ref_outside k) m x k"
  by (simp add: outlives_def ref_outside_def)

lemma outlives_left_key:
  "left_keys m a = Some k \<Longrightarrow> a \<noteq> x \<Longrightarrow> outlives (ref_left_key a) m x k"
  by (simp add: outlives_def ref_left_key_def)

lemma outlives_right_key:
  "right_keys m a = Some k \<Longrightarrow> a \<noteq> x \<Longrightarrow> outlives (ref_right_key a) m x k"
  by (simp add: outlives_def ref_right_key_def)

lemma ex_alias_left_reachable: "ex_alias_left = Some (m, b) \<Longrightarrow> reachable m {b}"
proof -
  assume r: "ex_alias_left = Some (m, b)"
  obtain m0 b0 where c: "bimap_ctor (empty_memory :: (int, int) memory) (<) (<) = (m0, b0)"
    by (cases "bimap_ctor (empty_memory :: (int, int) memory) (<) (<)")
  have r0: "reachable m0 {b0}"
    using reach_ctor[OF reach_start[OF mem_ok_empty] swo_less swo_less c] by simp
  from r c obtain i1 where i: "insert_bimap m0 b0 5 0 = Some (m, b, i1)"
    by (auto simp: ex_alias_left_def split: bind_splits)
  show ?thesis using reach_insert[OF r0 _ i] by simp
qed

lemma ex_alias_right_reachable: "ex_alias_right = Some (m, b) \<Longrightarrow> reachable m {b}"
proof -
  assume r: "ex_alias_right = Some (m, b)"
  obtain m0 b0 where c: "bimap_ctor (empty_memory :: (int, int) memory) (<) (<) = (m0, b0)"
    by (cases "bimap_ctor (empty_memory :: (int, int) memory) (<) (<)")
  have r0: "reachable m0 {b0}"
    using reach_ctor[OF reach_start[OF mem_ok_empty] swo_less swo_less c] by simp
  from r c obtain i1 where i: "insert_bimap m0 b0 0 5 = Some (m, b, i1)"
    by (auto simp: ex_alias_right_def split: bind_splits)
  show ?thesis using reach_insert[OF r0 _ i] by simp
qed


section \<open>The claims\<close>

text \<open>
  C3.  For every live pair of a well-formed container and the cursor addressing its
  record in one tree, \<open>flip\<close> is the cursor addressing the identical record in the
  other tree: dereferencing the flipped left cursor yields the pair's right key and
  dereferencing the flipped right cursor yields its left key, and flipping twice gives
  the cursor back.  \<open>flip\<close> takes no memory argument: it only re-tags the address.
\<close>

theorem flip_spec:
  assumes "bimap_inv m b lt rt" and "a \<in> set_tree lt"
  shows "flip_left (Left_iterator (Some a)) = Right_iterator (Some a)
     \<and> flip_right (Right_iterator (Some a)) = Left_iterator (Some a)
     \<and> a \<in> set_tree rt
     \<and> deref_left m (Left_iterator (Some a)) = Some (key_of (left_keys m) a)
     \<and> deref_right m (flip_left (Left_iterator (Some a))) = Some (key_of (right_keys m) a)
     \<and> deref_right m (Right_iterator (Some a)) = Some (key_of (right_keys m) a)
     \<and> deref_left m (flip_right (Right_iterator (Some a))) = Some (key_of (left_keys m) a)
     \<and> flip_right (flip_left cl) = cl \<and> flip_left (flip_right cr) = cr
     \<and> flip_left cl = Right_iterator (left_it cl) \<and> flip_right cr = Left_iterator (right_it cr)"
  using bimap_inv_keys[OF assms]
  by (simp add: flip_left_def flip_right_def deref_left_def deref_right_def)

theorem flip_spec_witness:
  "bimap_inv ex_memory ex_bimap ex_left_tree ex_right_tree
   \<and> deref_left ex_memory (Left_iterator (Some 2)) = Some 1
   \<and> deref_right ex_memory (flip_left (Left_iterator (Some 2))) = Some 30
   \<and> deref_left ex_memory (flip_right (Right_iterator (Some 3))) = Some 3
   \<and> flip_right (flip_left (Left_iterator (Some 2))) = Left_iterator (Some 2)"
  using flip_spec[OF ex_inv, of 2 "Left_iterator (Some 2)"] flip_spec[OF ex_inv, of 3] ex_inv
  by (simp add: ex_left_tree_def key_of_def ex_memory_def)

text \<open>
  C9.  In a well-formed tree the in-order sequence of the nodes is sorted by the
  comparison.  \<open>lower_bound k\<close> returns the cursor of the first node of that sequence
  whose key is not less than \<open>k\<close> (\<open>bound_of\<close>), \<open>upper_bound k\<close> the cursor of the
  first node whose key is greater than \<open>k\<close> (\<open>upper_of\<close>), and each returns the end
  cursor (the sentinel) when there is no such node.  The same holds for the four
  delegating operations of the container.
\<close>

theorem bounds_spec:
  assumes "set_inv s gk nh t" and "bimap_inv m b lt rt"
  shows "sorted_wrt (compare s) (map (key_of gk) (inorder t))
     \<and> lower_bound s gk nh k
         = Some (bound_of (compare s) (key_of gk) k (end_set s) (inorder t))
     \<and> upper_bound s gk nh k
         = Some (upper_of (compare s) (key_of gk) k (end_set s) (inorder t))
     \<and> lower_bound_left m b l = Some (Left_iterator
         (bound_of (compare (left_set b)) (key_of (left_keys m)) l (left_it (end_left b)) (inorder lt)))
     \<and> upper_bound_left m b l = Some (Left_iterator
         (upper_of (compare (left_set b)) (key_of (left_keys m)) l (left_it (end_left b)) (inorder lt)))
     \<and> lower_bound_right m b r = Some (Right_iterator
         (bound_of (compare (right_set b)) (key_of (right_keys m)) r (right_it (end_right b)) (inorder rt)))
     \<and> upper_bound_right m b r = Some (Right_iterator
         (upper_of (compare (right_set b)) (key_of (right_keys m)) r (right_it (end_right b)) (inorder rt)))"
proof -
  have "sorted_wrt (compare s) (map (key_of gk) (inorder t))"
    using assms(1) by (rule set_invD)
  then show ?thesis
    using lower_bound_correct[OF assms(1)] upper_bound_correct[OF assms(1)]
      lower_bound_left_correct[OF assms(2)] upper_bound_left_correct[OF assms(2)]
      lower_bound_right_correct[OF assms(2)] upper_bound_right_correct[OF assms(2)]
    by (simp add: end_set_def end_left_def end_right_def)
qed

theorem bounds_spec_witness:
  "set_inv (left_set ex_bimap) (left_keys ex_memory) (left_nodes ex_memory) ex_left_tree
   \<and> bimap_inv ex_memory ex_bimap ex_left_tree ex_right_tree
   \<and> lower_bound (left_set ex_bimap) (left_keys ex_memory) (left_nodes ex_memory) 2 = Some (Some 1)
   \<and> upper_bound (left_set ex_bimap) (left_keys ex_memory) (left_nodes ex_memory) 2 = Some (Some 3)
   \<and> lower_bound_left ex_memory ex_bimap 4 = Some (end_left ex_bimap)
   \<and> upper_bound_left ex_memory ex_bimap 0 = Some (Left_iterator (Some 2))
   \<and> lower_bound_right ex_memory ex_bimap 15 = Some (Right_iterator (Some 1))
   \<and> upper_bound_right ex_memory ex_bimap 30 = Some (end_right ex_bimap)"
  using bounds_spec[OF ex_set_inv ex_inv, of 2 4 15] bounds_spec[OF ex_set_inv ex_inv, of 2 0 30]
    ex_set_inv ex_inv
  by (simp add: bound_of_def upper_of_def ex_left_tree_def ex_right_tree_def key_of_def
      ex_memory_def ex_bimap_def end_left_def end_right_def end_set_def)

text \<open>
  C6.  In a well-formed container \<open>at_left key\<close> raises the out-of-range exception
  exactly when no left key of the container is equivalent to \<open>key\<close>, and otherwise
  returns the right key of the record whose left key is equivalent to it; symmetrically
  for \<open>at_right\<close>.  Both are \<^verbatim>\<open>const\<close>: they return no state, so the container is
  unchanged.  The other lookups return a cursor and never an exception: \<open>find\<close> returns
  the end cursor when the key is absent, \<open>lower_bound\<close> when every key is less than
  the argument, \<open>upper_bound\<close> when no key is greater.
\<close>

theorem at_spec:
  assumes "bimap_inv m b lt rt"
  shows "((at_left m b l = Some (Inl (Out_of_range ''element doesn't exist''))) = (\<not> has_left m b lt l))
     \<and> ((at_right m b r = Some (Inl (Out_of_range ''element doesn't exist''))) = (\<not> has_right m b rt r))
     \<and> (\<forall>a\<in>set_tree lt. equals_set (left_set b) l (key_of (left_keys m) a)
           \<longrightarrow> at_left m b l = Some (Inr (key_of (right_keys m) a)))
     \<and> (\<forall>a\<in>set_tree rt. equals_set (right_set b) r (key_of (right_keys m) a)
           \<longrightarrow> at_right m b r = Some (Inr (key_of (left_keys m) a)))
     \<and> ((find_left m b l = Some (end_left b)) = (\<not> has_left m b lt l))
     \<and> ((find_right m b r = Some (end_right b)) = (\<not> has_right m b rt r))
     \<and> (\<exists>c. find_left m b l = Some c) \<and> (\<exists>c. find_right m b r = Some c)
     \<and> (\<exists>c. lower_bound_left m b l = Some c) \<and> (\<exists>c. lower_bound_right m b r = Some c)
     \<and> (\<exists>c. upper_bound_left m b l = Some c) \<and> (\<exists>c. upper_bound_right m b r = Some c)
     \<and> ((\<forall>a\<in>set_tree lt. compare (left_set b) (key_of (left_keys m) a) l)
           \<longrightarrow> lower_bound_left m b l = Some (end_left b))
     \<and> ((\<forall>a\<in>set_tree lt. \<not> compare (left_set b) l (key_of (left_keys m) a))
           \<longrightarrow> upper_bound_left m b l = Some (end_left b))
     \<and> ((\<forall>a\<in>set_tree rt. compare (right_set b) (key_of (right_keys m) a) r)
           \<longrightarrow> lower_bound_right m b r = Some (end_right b))
     \<and> ((\<forall>a\<in>set_tree rt. \<not> compare (right_set b) r (key_of (right_keys m) a))
           \<longrightarrow> upper_bound_right m b r = Some (end_right b))"
proof -
  note inv = assms
  have 1: "(at_left m b l = Some (Inl (Out_of_range ''element doesn't exist''))) = (\<not> has_left m b lt l)"
    by (rule at_left_absent[OF inv])
  have 2: "(at_right m b r = Some (Inl (Out_of_range ''element doesn't exist''))) = (\<not> has_right m b rt r)"
    by (rule at_right_absent[OF inv])
  have 3: "\<forall>a\<in>set_tree lt. equals_set (left_set b) l (key_of (left_keys m) a)
           \<longrightarrow> at_left m b l = Some (Inr (key_of (right_keys m) a))"
    using at_left_present[OF inv] by blast
  have 4: "\<forall>a\<in>set_tree rt. equals_set (right_set b) r (key_of (right_keys m) a)
           \<longrightarrow> at_right m b r = Some (Inr (key_of (left_keys m) a))"
    using at_right_present[OF inv] by blast
  have 5: "(find_left m b l = Some (end_left b)) = (\<not> has_left m b lt l)"
    by (rule find_left_end[OF inv])
  have 6: "(find_right m b r = Some (end_right b)) = (\<not> has_right m b rt r)"
    by (rule find_right_end[OF inv])
  have 7: "(\<exists>c. find_left m b l = Some c) \<and> (\<exists>c. find_right m b r = Some c)"
    using find_left_correct[OF inv] find_right_correct[OF inv] by simp
  have 8: "(\<exists>c. lower_bound_left m b l = Some c) \<and> (\<exists>c. lower_bound_right m b r = Some c)"
    using lower_bound_left_correct[OF inv] lower_bound_right_correct[OF inv] by simp
  have 9: "(\<exists>c. upper_bound_left m b l = Some c) \<and> (\<exists>c. upper_bound_right m b r = Some c)"
    using upper_bound_left_correct[OF inv] upper_bound_right_correct[OF inv] by simp
  have 10: "(\<forall>a\<in>set_tree lt. compare (left_set b) (key_of (left_keys m) a) l)
           \<longrightarrow> lower_bound_left m b l = Some (end_left b)"
    using lower_bound_left_correct[OF inv, of l]
      bound_of_end[of "inorder lt" "compare (left_set b)" "key_of (left_keys m)" l]
    by (simp add: end_left_def end_set_def)
  have 11: "(\<forall>a\<in>set_tree lt. \<not> compare (left_set b) l (key_of (left_keys m) a))
           \<longrightarrow> upper_bound_left m b l = Some (end_left b)"
    using upper_bound_left_correct[OF inv, of l]
      upper_of_end[of "inorder lt" "compare (left_set b)" l "key_of (left_keys m)"]
    by (simp add: end_left_def end_set_def)
  have 12: "(\<forall>a\<in>set_tree rt. compare (right_set b) (key_of (right_keys m) a) r)
           \<longrightarrow> lower_bound_right m b r = Some (end_right b)"
    using lower_bound_right_correct[OF inv, of r]
      bound_of_end[of "inorder rt" "compare (right_set b)" "key_of (right_keys m)" r]
    by (simp add: end_right_def end_set_def)
  have 13: "(\<forall>a\<in>set_tree rt. \<not> compare (right_set b) r (key_of (right_keys m) a))
           \<longrightarrow> upper_bound_right m b r = Some (end_right b)"
    using upper_bound_right_correct[OF inv, of r]
      upper_of_end[of "inorder rt" "compare (right_set b)" r "key_of (right_keys m)"]
    by (simp add: end_right_def end_set_def)
  show ?thesis using 1 2 3 4 5 6 7 8 9 10 11 12 13 by blast
qed

theorem at_spec_witness:
  "bimap_inv ex_memory ex_bimap ex_left_tree ex_right_tree
   \<and> at_left ex_memory ex_bimap 4 = Some (Inl (Out_of_range ''element doesn't exist''))
   \<and> at_right ex_memory ex_bimap 25 = Some (Inl (Out_of_range ''element doesn't exist''))
   \<and> at_left ex_memory ex_bimap 3 = Some (Inr 10)
   \<and> at_right ex_memory ex_bimap 30 = Some (Inr 1)
   \<and> find_left ex_memory ex_bimap 4 = Some (end_left ex_bimap)
   \<and> lower_bound_left ex_memory ex_bimap 4 = Some (end_left ex_bimap)
   \<and> upper_bound_right ex_memory ex_bimap 30 = Some (end_right ex_bimap)"
  using at_spec[OF ex_inv, of 4 25] at_spec[OF ex_inv, of 3 30] ex_inv
  by (simp add: has_left_def has_right_def equals_set_def greater_set_def less_set_def
      ex_left_tree_def ex_right_tree_def key_of_def ex_memory_def ex_bimap_def)

text \<open>
  C1.  In a well-formed container \<open>insert l r\<close> returns the end cursor of the left tree
  and leaves the memory and the container as they were if some left key is equivalent to
  \<open>l\<close> or some right key is equivalent to \<open>r\<close>.  Otherwise it creates one record, at a
  fresh address, holding both keys, links it into both trees (the trees of the new state
  are the old ones with the record inserted as a leaf at its search position), adds one
  to the size, and returns the cursor of the record in the left tree; the record is then
  found from both sides.
\<close>

theorem insert_spec:
  assumes "bimap_inv m b lt rt"
  shows "(has_left m b lt l \<or> has_right m b rt r
            \<longrightarrow> insert_bimap m b l r = Some (m, b, end_left b))
     \<and> (\<not> has_left m b lt l \<and> \<not> has_right m b rt r \<longrightarrow>
          (\<exists>m' b' lt' rt'.
             insert_bimap m b l r = Some (m', b', Left_iterator (Some (next_free m)))
           \<and> next_free m \<notin> dom (left_keys m) \<union> dom (right_keys m)
                              \<union> dom (left_nodes m) \<union> dom (right_nodes m)
           \<and> left_keys m' = (left_keys m)(next_free m \<mapsto> l)
           \<and> right_keys m' = (right_keys m)(next_free m \<mapsto> r)
           \<and> lt' = ins_tree (compare (left_set b)) (key_of (left_keys m')) (next_free m) lt
           \<and> rt' = ins_tree (compare (right_set b)) (key_of (right_keys m')) (next_free m) rt
           \<and> bimap_inv m' b' lt' rt'
           \<and> size_bimap b' = size_bimap b + 1
           \<and> left_set b' = left_set b \<and> right_set b' = right_set b
           \<and> find_left m' b' l = Some (Left_iterator (Some (next_free m)))
           \<and> find_right m' b' r = Some (Right_iterator (Some (next_free m)))))"
proof (intro conjI impI)
  assume "has_left m b lt l \<or> has_right m b rt r"
  then show "insert_bimap m b l r = Some (m, b, end_left b)"
    by (rule insert_present[OF assms])
next
  assume ab: "\<not> has_left m b lt l \<and> \<not> has_right m b rt r"
  let ?a = "next_free m"
  let ?b' = "b\<lparr>m_size := m_size b + 1\<rparr>"
  from insert_absent[OF assms, of l r] ab obtain m' where
    r: "insert_bimap m b l r = Some (m', ?b', Left_iterator (Some ?a))"
    and k: "left_keys m' = (left_keys m)(?a \<mapsto> l)" "right_keys m' = (right_keys m)(?a \<mapsto> r)"
    and inv': "bimap_inv m' ?b'
          (ins_tree (compare (left_set b)) (key_of (left_keys m')) ?a lt)
          (ins_tree (compare (right_set b)) (key_of (right_keys m')) ?a rt)"
    by blast
  have "mem_ok m" using assms by (simp add: bimap_inv_def)
  then have fresh: "?a \<notin> dom (left_keys m) \<union> dom (right_keys m)
                              \<union> dom (left_nodes m) \<union> dom (right_nodes m)"
    by (auto simp: mem_ok_def)
  have wl: "strict_weak_order (compare (left_set b))"
    and wr: "strict_weak_order (compare (right_set b))"
    using assms by (auto simp: bimap_inv_def elim!: set_invD)
  have el: "equals_set (left_set ?b') l (key_of (left_keys m') ?a)"
    using swo_irrefl[OF wl] by (simp add: k key_of_def equals_set_def greater_set_def less_set_def)
  have er: "equals_set (right_set ?b') r (key_of (right_keys m') ?a)"
    using swo_irrefl[OF wr] by (simp add: k key_of_def equals_set_def greater_set_def less_set_def)
  have fl: "find_left m' ?b' l = Some (Left_iterator (Some ?a))"
    by (rule find_left_present[OF inv' _ el]) simp
  have fr: "find_right m' ?b' r = Some (Right_iterator (Some ?a))"
    by (rule find_right_present[OF inv' _ er]) simp
  show "\<exists>m' b' lt' rt'.
             insert_bimap m b l r = Some (m', b', Left_iterator (Some (next_free m)))
           \<and> next_free m \<notin> dom (left_keys m) \<union> dom (right_keys m)
                              \<union> dom (left_nodes m) \<union> dom (right_nodes m)
           \<and> left_keys m' = (left_keys m)(next_free m \<mapsto> l)
           \<and> right_keys m' = (right_keys m)(next_free m \<mapsto> r)
           \<and> lt' = ins_tree (compare (left_set b)) (key_of (left_keys m')) (next_free m) lt
           \<and> rt' = ins_tree (compare (right_set b)) (key_of (right_keys m')) (next_free m) rt
           \<and> bimap_inv m' b' lt' rt'
           \<and> size_bimap b' = size_bimap b + 1
           \<and> left_set b' = left_set b \<and> right_set b' = right_set b
           \<and> find_left m' b' l = Some (Left_iterator (Some (next_free m)))
           \<and> find_right m' b' r = Some (Right_iterator (Some (next_free m)))"
    using r fresh k inv' fl fr
    by (intro exI[of _ m'] exI[of _ ?b'] exI conjI) (simp_all add: size_bimap_def)
qed

theorem insert_spec_witness:
  "bimap_inv ex_memory ex_bimap ex_left_tree ex_right_tree
   \<and> insert_bimap ex_memory ex_bimap 2 99 = Some (ex_memory, ex_bimap, end_left ex_bimap)
   \<and> insert_bimap ex_memory ex_bimap 7 10 = Some (ex_memory, ex_bimap, end_left ex_bimap)
   \<and> (\<exists>m' b'. insert_bimap ex_memory ex_bimap 4 40 = Some (m', b', Left_iterator (Some 4))
         \<and> left_keys m' 4 = Some 4 \<and> right_keys m' 4 = Some 40
         \<and> bimap_inv m' b' (Node (Node Leaf 2 Leaf) 1 (Node Leaf 3 (Node Leaf 4 Leaf)))
               (Node (Node Leaf 3 Leaf) 1 (Node Leaf 2 (Node Leaf 4 Leaf)))
         \<and> size_bimap b' = 4
         \<and> find_right m' b' 40 = Some (Right_iterator (Some 4)))"
proof -
  have 1: "has_left ex_memory ex_bimap ex_left_tree 2"
    and 2: "has_right ex_memory ex_bimap ex_right_tree 10"
    and 3: "\<not> has_left ex_memory ex_bimap ex_left_tree 4"
    and 4: "\<not> has_right ex_memory ex_bimap ex_right_tree 40"
    by (simp_all add: has_left_def has_right_def equals_set_def greater_set_def less_set_def
      ex_left_tree_def ex_right_tree_def key_of_def ex_memory_def ex_bimap_def)
  from insert_spec[OF ex_inv, of 4 40] 3 4 obtain m' b' where
    r: "insert_bimap ex_memory ex_bimap 4 40 = Some (m', b', Left_iterator (Some (next_free ex_memory)))"
    "left_keys m' = (left_keys ex_memory)(next_free ex_memory \<mapsto> 4)"
    "right_keys m' = (right_keys ex_memory)(next_free ex_memory \<mapsto> 40)"
    "bimap_inv m' b'
       (ins_tree (compare (left_set ex_bimap)) (key_of (left_keys m')) (next_free ex_memory) ex_left_tree)
       (ins_tree (compare (right_set ex_bimap)) (key_of (right_keys m')) (next_free ex_memory) ex_right_tree)"
    "size_bimap b' = size_bimap ex_bimap + 1"
    "find_right m' b' 40 = Some (Right_iterator (Some (next_free ex_memory)))"
    by auto
  have nf: "next_free ex_memory = 4" by (simp add: ex_memory_def)
  have t: "ins_tree (compare (left_set ex_bimap)) (key_of (left_keys m')) 4 ex_left_tree
       = Node (Node Leaf 2 Leaf) 1 (Node Leaf 3 (Node Leaf 4 Leaf))"
    "ins_tree (compare (right_set ex_bimap)) (key_of (right_keys m')) 4 ex_right_tree
       = Node (Node Leaf 3 Leaf) 1 (Node Leaf 2 (Node Leaf 4 Leaf))"
    by (simp_all add: r(2,3) nf ex_left_tree_def ex_right_tree_def key_of_def ex_memory_def
        ex_bimap_def)
  have "\<exists>m' b'. insert_bimap ex_memory ex_bimap 4 40 = Some (m', b', Left_iterator (Some 4))
         \<and> left_keys m' 4 = Some 4 \<and> right_keys m' 4 = Some 40
         \<and> bimap_inv m' b' (Node (Node Leaf 2 Leaf) 1 (Node Leaf 3 (Node Leaf 4 Leaf)))
               (Node (Node Leaf 3 Leaf) 1 (Node Leaf 2 (Node Leaf 4 Leaf)))
         \<and> size_bimap b' = 4
         \<and> find_right m' b' 40 = Some (Right_iterator (Some 4))"
    using r t unfolding nf
    by (intro exI[of _ m'] exI[of _ b']) (simp add: size_bimap_def ex_bimap_def)
  then show ?thesis
    using insert_spec[OF ex_inv, of 2 99] insert_spec[OF ex_inv, of 7 10] 1 2 ex_inv
    by simp
qed

text \<open>
  C2.  In a well-formed container, for the cursor of a record \<open>x\<close> of the tree,
  \<open>erase_left\<close> (symmetrically \<open>erase_right\<close>) removes the record from both trees,
  subtracts one from the size, releases the record (its address leaves the memory), and
  returns the cursor that follows \<open>x\<close> in the in-order sequence of the tree the call
  was made against, the end cursor after the last node.  Afterwards neither key of the
  pair is found: \<open>find\<close> on either side returns the end cursor.
\<close>

theorem erase_spec:
  assumes "bimap_inv m b lt rt" and "x \<in> set_tree lt"
  shows "(\<exists>m' b' c. erase_left m b (Left_iterator (Some x)) = Some (m', b', Left_iterator c)
           \<and> next_in (map Some (inorder lt) @ [left_it (end_left b)]) (Some x) = Some c
           \<and> bimap_inv m' b' (erase_tree x lt) (erase_tree x rt)
           \<and> inorder (erase_tree x lt) = filter (\<lambda>y. y \<noteq> x) (inorder lt)
           \<and> inorder (erase_tree x rt) = filter (\<lambda>y. y \<noteq> x) (inorder rt)
           \<and> size_bimap b' = size_bimap b - 1
           \<and> x \<notin> dom (left_keys m') \<union> dom (right_keys m')
                    \<union> dom (left_nodes m') \<union> dom (right_nodes m')
           \<and> find_right m' b' (key_of (right_keys m) x) = Some (end_right b')
           \<and> find_left m' b' (key_of (left_keys m) x) = Some (end_left b'))
     \<and> (\<exists>m' b' c. erase_right m b (Right_iterator (Some x)) = Some (m', b', Right_iterator c)
           \<and> next_in (map Some (inorder rt) @ [right_it (end_right b)]) (Some x) = Some c
           \<and> bimap_inv m' b' (erase_tree x lt) (erase_tree x rt)
           \<and> size_bimap b' = size_bimap b - 1
           \<and> x \<notin> dom (left_keys m') \<union> dom (right_keys m')
                    \<union> dom (left_nodes m') \<union> dom (right_nodes m')
           \<and> find_left m' b' (key_of (left_keys m) x) = Some (end_left b')
           \<and> find_right m' b' (key_of (right_keys m) x) = Some (end_right b'))"
proof -
  note inv = assms(1)
  from inv obtain sa where sa: "sentinel (left_set b) = Some sa" "sentinel (right_set b) = Some sa"
    by (rule bimap_inv_sentinel)
  have xr: "x \<in> set_tree rt" using inv assms(2) by (simp add: bimap_inv_def)
  have dl: "distinct (inorder lt)" and dr: "distinct (inorder rt)"
    using inv by (auto simp: bimap_inv_def elim!: set_invD)
  note io = inorder_erase_tree[OF dl, of x] inorder_erase_tree[OF dr, of x]
  have L: "\<exists>m' b' c. erase_left m b (Left_iterator (Some x)) = Some (m', b', Left_iterator c)
           \<and> next_in (map Some (inorder lt) @ [left_it (end_left b)]) (Some x) = Some c
           \<and> bimap_inv m' b' (erase_tree x lt) (erase_tree x rt)
           \<and> inorder (erase_tree x lt) = filter (\<lambda>y. y \<noteq> x) (inorder lt)
           \<and> inorder (erase_tree x rt) = filter (\<lambda>y. y \<noteq> x) (inorder rt)
           \<and> size_bimap b' = size_bimap b - 1
           \<and> x \<notin> dom (left_keys m') \<union> dom (right_keys m')
                    \<union> dom (left_nodes m') \<union> dom (right_nodes m')
           \<and> find_right m' b' (key_of (right_keys m) x) = Some (end_right b')
           \<and> find_left m' b' (key_of (left_keys m) x) = Some (end_left b')"
  proof -
    let ?b' = "b\<lparr>m_size := m_size b - 1\<rparr>"
    from erase_left_correct[OF inv assms(2) sa(1)] obtain m' y where
      r: "erase_left m b (Left_iterator (Some x)) = Some (m', ?b', Left_iterator (Some y))"
      "next_in (inorder lt @ [sa]) x = Some y"
      "bimap_inv m' ?b' (erase_tree x lt) (erase_tree x rt)"
      "left_keys m' = (left_keys m)(x := None)" "right_keys m' = (right_keys m)(x := None)"
      "next_free m' = next_free m"
      "dom (left_nodes m') = dom (left_nodes m) - {x}"
      "dom (right_nodes m') = dom (right_nodes m) - {x}"
      "\<forall>z. z \<notin> set_tree lt \<longrightarrow> z \<noteq> sa \<longrightarrow>
           left_nodes m' z = left_nodes m z \<and> right_nodes m' z = right_nodes m z"
      by (elim exE conjE) (rule that)
    note ab = erased_keys_absent[OF inv assms(2) r(3) r(4) r(5)]
    have "find_right m' ?b' (key_of (right_keys m) x) = Some (end_right ?b')"
      using find_right_end[OF r(3)] ab by simp
    moreover have "find_left m' ?b' (key_of (left_keys m) x) = Some (end_left ?b')"
      using find_left_end[OF r(3)] ab by simp
    moreover have "next_in (map Some (inorder lt) @ [left_it (end_left b)]) (Some x) = Some (Some y)"
      using next_in_cursors[OF r(2)] sa by (simp add: end_left_def end_set_def)
    ultimately show ?thesis using r io
      by (intro exI[of _ m'] exI[of _ ?b'] exI[of _ "Some y"]) (simp add: size_bimap_def)
  qed
  have R: "\<exists>m' b' c. erase_right m b (Right_iterator (Some x)) = Some (m', b', Right_iterator c)
           \<and> next_in (map Some (inorder rt) @ [right_it (end_right b)]) (Some x) = Some c
           \<and> bimap_inv m' b' (erase_tree x lt) (erase_tree x rt)
           \<and> size_bimap b' = size_bimap b - 1
           \<and> x \<notin> dom (left_keys m') \<union> dom (right_keys m')
                    \<union> dom (left_nodes m') \<union> dom (right_nodes m')
           \<and> find_left m' b' (key_of (left_keys m) x) = Some (end_left b')
           \<and> find_right m' b' (key_of (right_keys m) x) = Some (end_right b')"
  proof -
    let ?b' = "b\<lparr>m_size := m_size b - 1\<rparr>"
    from erase_right_correct[OF inv xr sa(2)] obtain m' y where
      r: "erase_right m b (Right_iterator (Some x)) = Some (m', ?b', Right_iterator (Some y))"
      "next_in (inorder rt @ [sa]) x = Some y"
      "bimap_inv m' ?b' (erase_tree x lt) (erase_tree x rt)"
      "left_keys m' = (left_keys m)(x := None)" "right_keys m' = (right_keys m)(x := None)"
      "next_free m' = next_free m"
      "dom (left_nodes m') = dom (left_nodes m) - {x}"
      "dom (right_nodes m') = dom (right_nodes m) - {x}"
      "\<forall>z. z \<notin> set_tree rt \<longrightarrow> z \<noteq> sa \<longrightarrow>
           left_nodes m' z = left_nodes m z \<and> right_nodes m' z = right_nodes m z"
      by (elim exE conjE) (rule that)
    note ab = erased_keys_absent[OF inv assms(2) r(3) r(4) r(5)]
    have "find_right m' ?b' (key_of (right_keys m) x) = Some (end_right ?b')"
      using find_right_end[OF r(3)] ab by simp
    moreover have "find_left m' ?b' (key_of (left_keys m) x) = Some (end_left ?b')"
      using find_left_end[OF r(3)] ab by simp
    moreover have "next_in (map Some (inorder rt) @ [right_it (end_right b)]) (Some x) = Some (Some y)"
      using next_in_cursors[OF r(2)] sa by (simp add: end_right_def end_set_def)
    ultimately show ?thesis using r
      by (intro exI[of _ m'] exI[of _ ?b'] exI[of _ "Some y"]) (simp add: size_bimap_def)
  qed
  show ?thesis using L R by blast
qed

theorem erase_spec_witness:
  "bimap_inv ex_memory ex_bimap ex_left_tree ex_right_tree
   \<and> (\<exists>m' b'. erase_left ex_memory ex_bimap (Left_iterator (Some 1))
                  = Some (m', b', Left_iterator (Some 3))
         \<and> bimap_inv m' b' (Node Leaf 2 (Node Leaf 3 Leaf)) (Node Leaf 3 (Node Leaf 2 Leaf))
         \<and> size_bimap b' = 2
         \<and> find_right m' b' 20 = Some (end_right b'))
   \<and> (\<exists>m' b'. erase_right ex_memory ex_bimap (Right_iterator (Some 1))
                  = Some (m', b', Right_iterator (Some 2))
         \<and> size_bimap b' = 2
         \<and> find_left m' b' 2 = Some (end_left b'))"
proof -
  have x: "1 \<in> set_tree ex_left_tree" by (simp add: ex_left_tree_def)
  have e: "erase_tree 1 ex_left_tree = Node Leaf 2 (Node Leaf 3 Leaf)"
    "erase_tree 1 ex_right_tree = Node Leaf 3 (Node Leaf 2 Leaf)"
    by (simp_all add: ex_left_tree_def ex_right_tree_def)
  have n: "next_in (map Some (inorder ex_left_tree) @ [left_it (end_left ex_bimap)]) (Some 1)
             = Some (Some 3)"
    "next_in (map Some (inorder ex_right_tree) @ [right_it (end_right ex_bimap)]) (Some 1)
             = Some (Some 2)"
    by (simp_all add: ex_left_tree_def ex_right_tree_def)
  have k: "key_of (right_keys ex_memory) 1 = 20" "key_of (left_keys ex_memory) 1 = 2"
    by (simp_all add: key_of_def ex_memory_def)
  have s: "size_bimap ex_bimap - 1 = 2" by (simp add: size_bimap_def ex_bimap_def)
  show ?thesis
    using erase_spec[OF ex_inv x] ex_inv unfolding e n k s by auto
qed

text \<open>
  The behaviour of \<open>at_left_or_default\<close> for a key passed by a reference \<open>kref\<close> that
  reads \<open>key\<close> at the call.  In a well-formed container it returns the right key paired
  with \<open>key\<close>, and changes nothing, if a left key equivalent to \<open>key\<close> exists.
  Otherwise, with \<open>dflt\<close> the default right value: if no right key is equivalent to
  \<open>dflt\<close> it inserts the pair \<open>(key, dflt)\<close> and returns \<open>dflt\<close>; if the record \<open>x\<close>
  has a right key equivalent to \<open>dflt\<close> and the reference still reads \<open>key\<close> once the
  keys of \<open>x\<close> are gone, it first erases \<open>x\<close>, then inserts \<open>(key, dflt)\<close> and returns
  \<open>dflt\<close>, the size is what it was, and the left key that \<open>x\<close> held is no longer found.
  Symmetrically for \<open>at_right_or_default\<close> and a reference \<open>rref\<close> that reads \<open>rkey\<close>.
\<close>

theorem at_or_default_spec:
  assumes "bimap_inv m b lt rt" and "kref m = Some key" and "rref m = Some rkey"
  shows "(\<forall>a\<in>set_tree lt. equals_set (left_set b) key (key_of (left_keys m) a)
            \<longrightarrow> at_left_or_default m b dflt kref = Some (m, b, key_of (right_keys m) a))
     \<and> (\<not> has_left m b lt key \<and> \<not> has_right m b rt dflt \<longrightarrow>
          (\<exists>m' b' it. insert_bimap m b key dflt = Some (m', b', it) \<and> it \<noteq> end_left b
             \<and> at_left_or_default m b dflt kref = Some (m', b', dflt)))
     \<and> (\<not> has_left m b lt key \<longrightarrow>
          (\<forall>x\<in>set_tree rt. equals_set (right_set b) dflt (key_of (right_keys m) x)
             \<and> outlives kref m x key \<longrightarrow>
             (\<exists>m1 b1 c m2 b2 lt2 rt2.
                 erase_right m b (Right_iterator (Some x)) = Some (m1, b1, c)
               \<and> insert_bimap m1 b1 key dflt = Some (m2, b2, Left_iterator (Some (next_free m)))
               \<and> at_left_or_default m b dflt kref = Some (m2, b2, dflt)
               \<and> bimap_inv m2 b2 lt2 rt2
               \<and> set_tree lt2 = insert (next_free m) (set_tree lt - {x})
               \<and> left_keys m2 (next_free m) = Some key \<and> right_keys m2 (next_free m) = Some dflt
               \<and> size_bimap b2 = size_bimap b
               \<and> \<not> has_left m2 b2 lt2 (key_of (left_keys m) x)
               \<and> find_left m2 b2 (key_of (left_keys m) x) = Some (end_left b2))))
     \<and> (\<forall>a\<in>set_tree rt. equals_set (right_set b) rkey (key_of (right_keys m) a)
            \<longrightarrow> at_right_or_default m b ldflt rref = Some (m, b, key_of (left_keys m) a))
     \<and> (\<not> has_right m b rt rkey \<and> \<not> has_left m b lt ldflt \<longrightarrow>
          (\<exists>m' b' it. insert_bimap m b ldflt rkey = Some (m', b', it) \<and> it \<noteq> end_left b
             \<and> at_right_or_default m b ldflt rref = Some (m', b', ldflt)))
     \<and> (\<not> has_right m b rt rkey \<longrightarrow>
          (\<forall>x\<in>set_tree lt. equals_set (left_set b) ldflt (key_of (left_keys m) x)
             \<and> outlives rref m x rkey \<longrightarrow>
             (\<exists>m1 b1 c m2 b2 lt2 rt2.
                 erase_left m b (Left_iterator (Some x)) = Some (m1, b1, c)
               \<and> insert_bimap m1 b1 ldflt rkey = Some (m2, b2, Left_iterator (Some (next_free m)))
               \<and> at_right_or_default m b ldflt rref = Some (m2, b2, ldflt)
               \<and> bimap_inv m2 b2 lt2 rt2
               \<and> set_tree lt2 = insert (next_free m) (set_tree lt - {x})
               \<and> left_keys m2 (next_free m) = Some ldflt \<and> right_keys m2 (next_free m) = Some rkey
               \<and> size_bimap b2 = size_bimap b
               \<and> \<not> has_right m2 b2 rt2 (key_of (right_keys m) x)
               \<and> find_right m2 b2 (key_of (right_keys m) x) = Some (end_right b2))))"
proof (intro conjI ballI impI)
  fix a assume "a \<in> set_tree lt" "equals_set (left_set b) key (key_of (left_keys m) a)"
  then show "at_left_or_default m b dflt kref = Some (m, b, key_of (right_keys m) a)"
    by (rule at_left_or_default_present[where kref = kref, OF assms(1,2)])
next
  assume "\<not> has_left m b lt key \<and> \<not> has_right m b rt dflt"
  then show "\<exists>m' b' it. insert_bimap m b key dflt = Some (m', b', it) \<and> it \<noteq> end_left b
             \<and> at_left_or_default m b dflt kref = Some (m', b', dflt)"
    using at_left_or_default_fresh[where kref = kref, OF assms(1,2)] by blast
next
  fix x assume h: "\<not> has_left m b lt key" "x \<in> set_tree rt"
    "equals_set (right_set b) dflt (key_of (right_keys m) x) \<and> outlives kref m x key"
  from h(3) have e: "equals_set (right_set b) dflt (key_of (right_keys m) x)"
    and ol: "outlives kref m x key" by simp_all
  show "\<exists>m1 b1 c m2 b2 lt2 rt2.
                 erase_right m b (Right_iterator (Some x)) = Some (m1, b1, c)
               \<and> insert_bimap m1 b1 key dflt = Some (m2, b2, Left_iterator (Some (next_free m)))
               \<and> at_left_or_default m b dflt kref = Some (m2, b2, dflt)
               \<and> bimap_inv m2 b2 lt2 rt2
               \<and> set_tree lt2 = insert (next_free m) (set_tree lt - {x})
               \<and> left_keys m2 (next_free m) = Some key \<and> right_keys m2 (next_free m) = Some dflt
               \<and> size_bimap b2 = size_bimap b
               \<and> \<not> has_left m2 b2 lt2 (key_of (left_keys m) x)
               \<and> find_left m2 b2 (key_of (left_keys m) x) = Some (end_left b2)"
    by (rule at_left_or_default_steal[where kref = kref, OF assms(1,2) ol h(1,2) e])
next
  fix a assume "a \<in> set_tree rt" "equals_set (right_set b) rkey (key_of (right_keys m) a)"
  then show "at_right_or_default m b ldflt rref = Some (m, b, key_of (left_keys m) a)"
    by (rule at_right_or_default_present[where kref = rref, OF assms(1,3)])
next
  assume "\<not> has_right m b rt rkey \<and> \<not> has_left m b lt ldflt"
  then show "\<exists>m' b' it. insert_bimap m b ldflt rkey = Some (m', b', it) \<and> it \<noteq> end_left b
             \<and> at_right_or_default m b ldflt rref = Some (m', b', ldflt)"
    using at_right_or_default_fresh[where kref = rref, OF assms(1,3)] by blast
next
  fix x assume h: "\<not> has_right m b rt rkey" "x \<in> set_tree lt"
    "equals_set (left_set b) ldflt (key_of (left_keys m) x) \<and> outlives rref m x rkey"
  from h(3) have e: "equals_set (left_set b) ldflt (key_of (left_keys m) x)"
    and ol: "outlives rref m x rkey" by simp_all
  show "\<exists>m1 b1 c m2 b2 lt2 rt2.
                 erase_left m b (Left_iterator (Some x)) = Some (m1, b1, c)
               \<and> insert_bimap m1 b1 ldflt rkey = Some (m2, b2, Left_iterator (Some (next_free m)))
               \<and> at_right_or_default m b ldflt rref = Some (m2, b2, ldflt)
               \<and> bimap_inv m2 b2 lt2 rt2
               \<and> set_tree lt2 = insert (next_free m) (set_tree lt - {x})
               \<and> left_keys m2 (next_free m) = Some ldflt \<and> right_keys m2 (next_free m) = Some rkey
               \<and> size_bimap b2 = size_bimap b
               \<and> \<not> has_right m2 b2 rt2 (key_of (right_keys m) x)
               \<and> find_right m2 b2 (key_of (right_keys m) x) = Some (end_right b2)"
    by (rule at_right_or_default_steal[where kref = rref, OF assms(1,3) ol h(1,2) e])
qed

text \<open>
  Scenario D of the specification: the container holds the pair of 3 and the empty
  string, the right type is a string, whose default is the empty string, and
  \<open>at_left_or_default 5\<close> is called, the argument being a temporary outside the
  container.
\<close>

theorem at_or_default_spec_witness:
  "bimap_inv ex_string_memory ex_string_bimap (Node Leaf 1 Leaf) (Node Leaf 1 Leaf)
   \<and> at_left_or_default ex_string_memory ex_string_bimap [] (ref_outside 3)
        = Some (ex_string_memory, ex_string_bimap, [])
   \<and> (\<exists>m2 b2. at_left_or_default ex_string_memory ex_string_bimap [] (ref_outside 5)
           = Some (m2, b2, [])
         \<and> left_keys m2 2 = Some 5 \<and> right_keys m2 2 = Some []
         \<and> size_bimap b2 = 1
         \<and> find_left m2 b2 3 = Some (end_left b2))"
proof -
  have rd: "ref_outside (3::nat) ex_string_memory = Some 3"
    "ref_outside (5::nat) ex_string_memory = Some 5"
    "ref_outside ([]::string) ex_string_memory = Some []"
    by (simp_all add: ref_outside_def)
  have p: "equals_set (left_set ex_string_bimap) 3 (key_of (left_keys ex_string_memory) 1)"
    "equals_set (right_set ex_string_bimap) [] (key_of (right_keys ex_string_memory) 1)"
    "\<not> has_left ex_string_memory ex_string_bimap (Node Leaf 1 Leaf) 5"
    "key_of (right_keys ex_string_memory) 1 = []"
    "key_of (left_keys ex_string_memory) 1 = 3"
    "next_free ex_string_memory = 2" "size_bimap ex_string_bimap = 1"
    by (simp_all add: has_left_def equals_set_def greater_set_def less_set_def key_of_def
        ex_string_memory_def ex_string_bimap_def size_bimap_def)
  have 1: "at_left_or_default ex_string_memory ex_string_bimap [] (ref_outside 3)
        = Some (ex_string_memory, ex_string_bimap, [])"
    using at_or_default_spec[where kref = "ref_outside 3" and rref = "ref_outside []"
        and dflt = "[]", OF ex_string_inv rd(1) rd(3)] p by simp
  have 2: "\<exists>m2 b2. at_left_or_default ex_string_memory ex_string_bimap [] (ref_outside 5)
           = Some (m2, b2, [])
         \<and> left_keys m2 2 = Some 5 \<and> right_keys m2 2 = Some []
         \<and> size_bimap b2 = 1
         \<and> find_left m2 b2 3 = Some (end_left b2)"
  proof -
    have x: "1 \<in> set_tree (Node Leaf (1::nat) Leaf)" by simp
    have ol: "equals_set (right_set ex_string_bimap) [] (key_of (right_keys ex_string_memory) 1)
        \<and> outlives (ref_outside 5) ex_string_memory 1 5"
      using p(2) by simp
    note s3 = at_or_default_spec[where kref = "ref_outside 5" and rref = "ref_outside []"
        and dflt = "[]" and ldflt = 0, OF ex_string_inv rd(2) rd(3), THEN conjunct2, THEN conjunct2, THEN conjunct1, rule_format, OF p(3) x ol]
    then obtain m2 b2 where
      "at_left_or_default ex_string_memory ex_string_bimap [] (ref_outside 5) = Some (m2, b2, [])"
      "left_keys m2 (next_free ex_string_memory) = Some 5"
      "right_keys m2 (next_free ex_string_memory) = Some []"
      "size_bimap b2 = size_bimap ex_string_bimap"
      "find_left m2 b2 (key_of (left_keys ex_string_memory) 1) = Some (end_left b2)"
      by (elim exE conjE) (rule that)
    then show ?thesis unfolding p by (intro exI[of _ m2] exI[of _ b2]) simp
  qed
  show ?thesis using 1 2 ex_string_inv by simp
qed

text \<open>
  C5.  The claim promises, for every key absent on the left whose default value is already
  paired with another left key, that \<open>at_left_or_default\<close> erases that pairing, inserts
  \<open>(key, default)\<close> and returns the stored default.  The code takes \<open>key\<close> by reference
  and reads it again in \<open>insert\<close>, after \<open>erase_right\<close> has deleted the record that held
  the default value; when the reference is to the right key of that very record, the
  second read is of deleted storage and the call has no defined result.

  With both key types \<open>int\<close>, the container built by \<open>ex_alias_left\<close> (a reachable
  state, \<open>ex_alias_left_reachable\<close>) holds the single pair \<open>(5, 0)\<close>, in record 1.
  \<^verbatim>\<open>b.at_left(5)\<close> finds record 1 and returns a reference to its right key, which reads 0.
  \<^verbatim>\<open>b.at_left_or_default(b.at_left(5))\<close> finds no left key 0, finds the default 0 on the
  right in record 1 and erases record 1, after which the reference reads nothing; the
  call is undefined.  Called with the same value 0 held outside the container, the
  operation does what the claim says: it returns 0 and the container holds the single
  pair \<open>(0, 0)\<close>.  Symmetrically for \<^verbatim>\<open>b.at_right_or_default(b.at_right(5))\<close> in the
  container built by \<open>ex_alias_right\<close>, which holds the single pair \<open>(0, 5)\<close>.
\<close>

theorem at_or_default_dangling_key:
  "ex_alias_left \<noteq> None
   \<and> do { (m, b) \<leftarrow> ex_alias_left; Some (size_bimap b, contents m b) } = Some (1, Some [(5, 0)])
   \<and> do { (m, b) \<leftarrow> ex_alias_left; it \<leftarrow> find_left m b 5; Some (flip_left it) }
       = Some (Right_iterator (Some 1))
   \<and> do { (m, b) \<leftarrow> ex_alias_left; at_left m b 5 } = Some (Inr 0)
   \<and> do { (m, b) \<leftarrow> ex_alias_left; ref_right_key 1 m } = Some 0
   \<and> do { (m, b) \<leftarrow> ex_alias_left; it \<leftarrow> find_left m b 0; Some (it = end_left b) } = Some True
   \<and> do { (m, b) \<leftarrow> ex_alias_left; find_right m b 0 } = Some (Right_iterator (Some 1))
   \<and> do { (m, b) \<leftarrow> ex_alias_left;
          (m1, b1, c) \<leftarrow> erase_right m b (Right_iterator (Some 1));
          Some (ref_right_key 1 m1) } = Some None
   \<and> do { (m, b) \<leftarrow> ex_alias_left; at_left_or_default m b 0 (ref_right_key 1) } = None
   \<and> do { (m, b) \<leftarrow> ex_alias_left;
          (m2, b2, v) \<leftarrow> at_left_or_default m b 0 (ref_outside 0);
          Some (v, size_bimap b2, contents m2 b2) } = Some (0, 1, Some [(0, 0)])
   \<and> ex_alias_right \<noteq> None
   \<and> do { (m, b) \<leftarrow> ex_alias_right; Some (size_bimap b, contents m b) } = Some (1, Some [(0, 5)])
   \<and> do { (m, b) \<leftarrow> ex_alias_right; it \<leftarrow> find_right m b 5; Some (flip_right it) }
       = Some (Left_iterator (Some 1))
   \<and> do { (m, b) \<leftarrow> ex_alias_right; at_right m b 5 } = Some (Inr 0)
   \<and> do { (m, b) \<leftarrow> ex_alias_right; ref_left_key 1 m } = Some 0
   \<and> do { (m, b) \<leftarrow> ex_alias_right; it \<leftarrow> find_right m b 0; Some (it = end_right b) } = Some True
   \<and> do { (m, b) \<leftarrow> ex_alias_right; find_left m b 0 } = Some (Left_iterator (Some 1))
   \<and> do { (m, b) \<leftarrow> ex_alias_right;
          (m1, b1, c) \<leftarrow> erase_left m b (Left_iterator (Some 1));
          Some (ref_left_key 1 m1) } = Some None
   \<and> do { (m, b) \<leftarrow> ex_alias_right; at_right_or_default m b 0 (ref_left_key 1) } = None
   \<and> do { (m, b) \<leftarrow> ex_alias_right;
          (m2, b2, v) \<leftarrow> at_right_or_default m b 0 (ref_outside 0);
          Some (v, size_bimap b2, contents m2 b2) } = Some (0, 1, Some [(0, 0)])"
  by code_simp

text \<open>
  C8.  In every world a program reaches by constructing, copying, assigning, swapping and
  destroying containers and by calling \<open>insert\<close>, the erase operations (by cursor, by
  key and by range) and the \<open>at_or_default\<close> operations on them, every container \<open>b\<close>
  alive in it is well formed: its two trees \<open>lt\<close> and \<open>rt\<close> hold the same records.  The
  loop from \<open>begin_left\<close> to \<open>end_left\<close> by cursor increment terminates and visits
  exactly the left keys of the records of \<open>lt\<close>, each once, in the in-order sequence of
  the tree, and this sequence is strictly increasing in the left comparison: every
  earlier key is less than every later one.  Symmetrically the loop from
  \<open>begin_right\<close> to \<open>end_right\<close> visits exactly the right keys of the records of \<open>rt\<close>
  in strictly increasing order of the right comparison.  Both walks visit as many keys
  as the container has records.
\<close>

theorem traversal_sorted:
  assumes "reachable m W" and "b \<in> W"
  shows "\<exists>lt rt itl itr. bimap_inv m b lt rt
     \<and> begin_left m b = Some itl
     \<and> traverse_left m b itl = Some (map (key_of (left_keys m)) (inorder lt))
     \<and> sorted_wrt (compare (left_set b)) (map (key_of (left_keys m)) (inorder lt))
     \<and> begin_right m b = Some itr
     \<and> traverse_right m b itr = Some (map (key_of (right_keys m)) (inorder rt))
     \<and> sorted_wrt (compare (right_set b)) (map (key_of (right_keys m)) (inorder rt))
     \<and> set_tree lt = set_tree rt
     \<and> distinct (inorder lt) \<and> distinct (inorder rt)
     \<and> length (inorder lt) = length (inorder rt)"
proof -
  from reachable_member[OF assms] obtain lt rt where inv: "bimap_inv m b lt rt" by blast
  then have d: "set_tree lt = set_tree rt" "distinct (inorder lt)" "distinct (inorder rt)"
    by (auto simp: bimap_inv_def elim!: set_invD)
  then have l: "length (inorder lt) = length (inorder rt)"
    by (metis distinct_card set_inorder)
  from traversal_correct[OF inv] obtain itl itr where
    t: "begin_left m b = Some itl"
    "traverse_left m b itl = Some (map (key_of (left_keys m)) (inorder lt))"
    "sorted_wrt (compare (left_set b)) (map (key_of (left_keys m)) (inorder lt))"
    "begin_right m b = Some itr"
    "traverse_right m b itr = Some (map (key_of (right_keys m)) (inorder rt))"
    "sorted_wrt (compare (right_set b)) (map (key_of (right_keys m)) (inorder rt))"
    by (elim exE conjE) (rule that)
  show ?thesis
    apply (rule_tac x = lt in exI)
    apply (rule_tac x = rt in exI)
    apply (rule_tac x = itl in exI)
    apply (rule_tac x = itr in exI)
    using inv t d l by simp
qed

text \<open>
  The container built by \<open>ex_reached\<close> is reachable; its left walk starts at record 2
  and visits the left keys 1, 2, 3 of its three records, its right walk starts at
  record 3 and visits their right keys 10, 20, 30.
\<close>

theorem traversal_sorted_witness:
  "(\<exists>m b lt rt. ex_reached = Some (m, b) \<and> reachable m {b}
      \<and> bimap_inv m b lt rt
      \<and> begin_left m b = Some (Left_iterator (Some 2))
      \<and> traverse_left m b (Left_iterator (Some 2)) = Some [1, 2, 3]
      \<and> map (key_of (left_keys m)) (inorder lt) = [1, 2, 3]
      \<and> sorted_wrt (compare (left_set b)) [1, 2, 3]
      \<and> begin_right m b = Some (Right_iterator (Some 3))
      \<and> traverse_right m b (Right_iterator (Some 3)) = Some [10, 20, 30]
      \<and> map (key_of (right_keys m)) (inorder rt) = [10, 20, 30]
      \<and> sorted_wrt (compare (right_set b)) [10, 20, 30]
      \<and> length (inorder lt) = 3 \<and> length (inorder rt) = 3)"
proof -
  from ex_reached_value obtain m b where r: "ex_reached = Some (m, b)"
    by (cases ex_reached) auto
  have re: "reachable m {b}" by (rule ex_reached_reachable[OF r])
  from ex_reached_value[unfolded r] have v: "begin_left m b = Some (Left_iterator (Some 2))"
    "traverse_left m b (Left_iterator (Some 2)) = Some [1, 2, 3]"
    "begin_right m b = Some (Right_iterator (Some 3))"
    "traverse_right m b (Right_iterator (Some 3)) = Some [10, 20, 30]"
    by (auto split: bind_splits)
  have bm: "b \<in> {b}" by simp
  from traversal_sorted[OF re bm] obtain lt rt itl itr where
    t: "bimap_inv m b lt rt" "begin_left m b = Some itl"
    "traverse_left m b itl = Some (map (key_of (left_keys m)) (inorder lt))"
    "sorted_wrt (compare (left_set b)) (map (key_of (left_keys m)) (inorder lt))"
    "begin_right m b = Some itr"
    "traverse_right m b itr = Some (map (key_of (right_keys m)) (inorder rt))"
    "sorted_wrt (compare (right_set b)) (map (key_of (right_keys m)) (inorder rt))"
    "length (inorder lt) = length (inorder rt)"
    by (elim exE conjE) simp
  from t(2,3) v(1,2) have kl: "map (key_of (left_keys m)) (inorder lt) = [1, 2, 3]" by simp
  from t(5,6) v(3,4) have kr: "map (key_of (right_keys m)) (inorder rt) = [10, 20, 30]" by simp
  have ll: "length (inorder lt) = 3" using arg_cong[OF kl, of length] by simp
  have lr: "length (inorder rt) = 3" using arg_cong[OF kr, of length] by simp
  show ?thesis
    apply (rule_tac x = m in exI)
    apply (rule_tac x = b in exI)
    apply (rule_tac x = lt in exI)
    apply (rule_tac x = rt in exI)
    using r re v t(1) t(4)[unfolded kl] t(7)[unfolded kr] kl kr ll lr by simp
qed

text \<open>
  C7 (as amended).  For two well-formed containers whose counters hold their numbers
  of pairs, \<open>a == b\<close> holds exactly when the two sequences of pairs in left-key order
  have the same length and corresponding pairs have equivalent left keys and equivalent
  right keys under the comparisons of the first operand \<open>a\<close>.  The equality is
  reflexive; it is symmetric when both containers hold the same comparisons; when the
  left comparisons are the same it holds whenever the two containers hold the same set
  of pairs, whatever the order of insertion made of the trees; and \<open>!=\<close> is its
  negation.
\<close>

theorem equality_spec:
  assumes "bimap_inv m a lta rta" and "size_inv a lta"
    and "bimap_inv m b ltb rtb" and "size_inv b ltb"
  shows "equal_bimap m a b = Some (structurally_equal (compare (left_set a))
           (compare (right_set a)) (pairs_of m lta) (pairs_of m ltb))
     \<and> equal_bimap m a a = Some True
     \<and> (compare (left_set b) = compare (left_set a)
          \<and> compare (right_set b) = compare (right_set a)
          \<longrightarrow> equal_bimap m b a = equal_bimap m a b)
     \<and> (compare (left_set b) = compare (left_set a)
          \<and> set (pairs_of m lta) = set (pairs_of m ltb)
          \<longrightarrow> equal_bimap m a b = Some True)
     \<and> not_equal_bimap m a b = map_option Not (equal_bimap m a b)"
proof -
  have wl: "strict_weak_order (compare (left_set a))"
    and wr: "strict_weak_order (compare (right_set a))"
    using assms(1) by (auto simp: bimap_inv_def elim!: set_invD)
  note ab = equal_bimap_correct[OF assms(1) assms(3) assms(2) assms(4)]
  note ba = equal_bimap_correct[OF assms(3) assms(1) assms(4) assms(2)]
  note aa = equal_bimap_correct[OF assms(1) assms(1) assms(2) assms(2)]
  have 2: "equal_bimap m a a = Some True"
    using aa structurally_equal_refl[OF wl wr] by simp
  have 3: "compare (left_set b) = compare (left_set a)
          \<and> compare (right_set b) = compare (right_set a)
          \<longrightarrow> equal_bimap m b a = equal_bimap m a b"
    using ab ba structurally_equal_sym[of "compare (left_set a)" "compare (right_set a)"]
    by auto
  have 4: "compare (left_set b) = compare (left_set a)
          \<and> set (pairs_of m lta) = set (pairs_of m ltb)
          \<longrightarrow> equal_bimap m a b = Some True"
  proof
    assume h: "compare (left_set b) = compare (left_set a)
          \<and> set (pairs_of m lta) = set (pairs_of m ltb)"
    then have "pairs_of m lta = pairs_of m ltb"
      using same_pairs_same_sequence[OF assms(1) assms(3)] by simp
    then show "equal_bimap m a b = Some True"
      using ab structurally_equal_refl[OF wl wr] by simp
  qed
  show ?thesis using ab 2 3 4 by (simp add: not_equal_bimap_def)
qed

theorem equality_spec_witness:
  "bimap_inv ex_two_memory ex_two_a (Node Leaf 2 (Node Leaf 3 Leaf)) (Node Leaf 2 (Node Leaf 3 Leaf))
   \<and> size_inv ex_two_a (Node Leaf 2 (Node Leaf 3 Leaf))
   \<and> bimap_inv ex_two_memory ex_two_b (Node (Node Leaf 5 Leaf) 4 Leaf) (Node (Node Leaf 5 Leaf) 4 Leaf)
   \<and> size_inv ex_two_b (Node (Node Leaf 5 Leaf) 4 Leaf)
   \<and> pairs_of ex_two_memory (Node Leaf 2 (Node Leaf 3 Leaf)) = [(1, 10), (2, 20)]
   \<and> pairs_of ex_two_memory (Node (Node Leaf 5 Leaf) 4 Leaf) = [(1, 10), (2, 20)]
   \<and> equal_bimap ex_two_memory ex_two_a ex_two_b = Some True
   \<and> equal_bimap ex_two_memory ex_two_b ex_two_a = Some True
   \<and> equal_bimap ex_two_memory ex_two_a ex_two_a = Some True
   \<and> not_equal_bimap ex_two_memory ex_two_a ex_two_b = Some False"
proof -
  have z: "size_inv ex_two_a (Node Leaf 2 (Node Leaf 3 Leaf))"
    "size_inv ex_two_b (Node (Node Leaf 5 Leaf) 4 Leaf)"
    by (simp_all add: size_inv_def ex_two_a_def ex_two_b_def)
  have p: "pairs_of ex_two_memory (Node Leaf 2 (Node Leaf 3 Leaf)) = [(1, 10), (2, 20)]"
    "pairs_of ex_two_memory (Node (Node Leaf 5 Leaf) 4 Leaf) = [(1, 10), (2, 20)]"
    by (simp_all add: pairs_of_def key_of_def ex_two_memory_def)
  have c: "compare (left_set ex_two_b) = compare (left_set ex_two_a)"
    "compare (right_set ex_two_b) = compare (right_set ex_two_a)"
    by (simp_all add: ex_two_a_def ex_two_b_def)
  from equality_spec[OF ex_two_inv_a z(1) ex_two_inv_b z(2)] p c
  show ?thesis using ex_two_inv_a ex_two_inv_b z
    by (simp add: structurally_equal_def equivalent_def ex_two_a_def)
qed

text \<open>
  The claim as stated, symmetry for every two containers, fails: the containers of
  \<open>ex_mod_memory\<close> are well formed, \<open>a == b\<close> is false and \<open>b == a\<close> is true.
\<close>

theorem equality_not_symmetric:
  "bimap_inv ex_mod_memory ex_mod_a (Node Leaf 2 Leaf) (Node Leaf 2 Leaf)
   \<and> size_inv ex_mod_a (Node Leaf 2 Leaf)
   \<and> bimap_inv ex_mod_memory ex_mod_b (Node Leaf 3 Leaf) (Node Leaf 3 Leaf)
   \<and> size_inv ex_mod_b (Node Leaf 3 Leaf)
   \<and> equal_bimap ex_mod_memory ex_mod_a ex_mod_b = Some False
   \<and> equal_bimap ex_mod_memory ex_mod_b ex_mod_a = Some True"
proof -
  have z: "size_inv ex_mod_a (Node Leaf 2 Leaf)" "size_inv ex_mod_b (Node Leaf 3 Leaf)"
    by (simp_all add: size_inv_def ex_mod_a_def ex_mod_b_def)
  have 1: "equal_bimap ex_mod_memory ex_mod_a ex_mod_b = Some False"
    unfolding equal_bimap_correct[OF ex_mod_inv_a ex_mod_inv_b z]
    by (simp add: structurally_equal_def equivalent_def pairs_of_def key_of_def
        ex_mod_memory_def ex_mod_a_def)
  have 2: "equal_bimap ex_mod_memory ex_mod_b ex_mod_a = Some True"
    unfolding equal_bimap_correct[OF ex_mod_inv_b ex_mod_inv_a z(2) z(1)]
    by (simp add: structurally_equal_def equivalent_def pairs_of_def key_of_def
        ex_mod_memory_def ex_mod_b_def)
  show ?thesis using ex_mod_inv_a ex_mod_inv_b z 1 2 by simp
qed

text \<open>
  C10.  \<open>a == b\<close> consults the comparison objects of \<open>a\<close> only: replacing those of
  \<open>b\<close> by any others leaves the result as it is.  So \<open>a == b\<close> and \<open>b == a\<close> are
  decided under the orderings of \<open>a\<close> and of \<open>b\<close> respectively, and differ for the two
  containers of \<open>ex_mod_memory\<close>, whose left comparisons differ.
\<close>

theorem equality_uses_first_operand:
  "equal_bimap m a (b\<lparr>left_set := (left_set b)\<lparr>compare := c1\<rparr>,
                      right_set := (right_set b)\<lparr>compare := c2\<rparr>\<rparr>) = equal_bimap m a b
   \<and> equal_bimap ex_mod_memory ex_mod_a ex_mod_b
        \<noteq> equal_bimap ex_mod_memory ex_mod_b ex_mod_a"
proof -
  have z: "size_inv ex_mod_a (Node Leaf 2 Leaf)" "size_inv ex_mod_b (Node Leaf 3 Leaf)"
    by (simp_all add: size_inv_def ex_mod_a_def ex_mod_b_def)
  have "equal_bimap ex_mod_memory ex_mod_a ex_mod_b
        \<noteq> equal_bimap ex_mod_memory ex_mod_b ex_mod_a"
    unfolding equal_bimap_correct[OF ex_mod_inv_a ex_mod_inv_b z]
      equal_bimap_correct[OF ex_mod_inv_b ex_mod_inv_a z(2) z(1)]
    by (simp add: structurally_equal_def equivalent_def pairs_of_def key_of_def
        ex_mod_memory_def ex_mod_a_def ex_mod_b_def)
  then show ?thesis using equal_bimap_ignores_compare[where m = m and a = a and b = b] by simp
qed

text \<open>
  C4, as amended.  \<^verbatim>\<open>bimap\<close> declares a copy constructor, a copy assignment operator and
  a destructor, and no move constructor or move assignment operator, so construction and
  assignment from an rvalue select \<open>bimap_copy_ctor\<close> and \<open>assign_bimap\<close>.  For two
  well-formed containers \<open>a\<close> and \<open>b\<close> that are distinct objects owning disjoint records:

  \<^item> \<open>swap_bimap\<close> exchanges the sentinel contents, the comparison objects and the size
    counters: afterwards \<open>a\<close> holds the pairs, comparisons and size of \<open>b\<close>, and \<open>b\<close>
    those of \<open>a\<close>, each with its own sentinel;
  \<^item> \<open>assign_bimap\<close> (copy into a temporary, swap with the destination, destroy the
    temporary) leaves the destination holding the pairs, the comparisons and the size of
    the source, releases the destination's old records, and leaves the source as it was:
    the source keeps its pairs and its size and does not become empty;
  \<^item> \<open>bimap_copy_ctor\<close> builds a new container with the pairs, comparisons and size of
    the source and leaves the source as it was;
  \<^item> assigning a container to itself changes nothing.
\<close>

theorem assignment_spec:
  assumes ia: "bimap_inv m a lta rta" and ib: "bimap_inv m b ltb rtb"
    and dj: "cells a lta \<inter> cells b ltb = {}" and zb: "size_inv b ltb"
  shows "(\<exists>m' a' b'. swap_bimap m a b = Some (m', a', b')
          \<and> bimap_inv m' a' ltb rtb \<and> bimap_inv m' b' lta rta
          \<and> contents m' a' = contents m b \<and> contents m' b' = contents m a
          \<and> size_bimap a' = size_bimap b \<and> size_bimap b' = size_bimap a
          \<and> compare (left_set a') = compare (left_set b)
          \<and> compare (right_set a') = compare (right_set b)
          \<and> compare (left_set b') = compare (left_set a)
          \<and> compare (right_set b') = compare (right_set a)
          \<and> sentinel (left_set a') = sentinel (left_set a)
          \<and> sentinel (left_set b') = sentinel (left_set b))
     \<and> (\<exists>m' a' lt' rt'. assign_bimap m a b = Some (m', a', b)
          \<and> bimap_inv m' a' lt' rt' \<and> bimap_inv m' b ltb rtb
          \<and> contents m' a' = contents m b \<and> contents m' b = contents m b
          \<and> size_bimap a' = size_bimap b
          \<and> empty_bimap b = (ltb = Leaf)
          \<and> compare (left_set a') = compare (left_set b)
          \<and> compare (right_set a') = compare (right_set b)
          \<and> sentinel (left_set a') = sentinel (left_set a)
          \<and> set_tree lta \<inter> dom (left_keys m') = {}
          \<and> set_tree lta \<inter> dom (right_keys m') = {})
     \<and> (\<exists>m' c lt' rt'. bimap_copy_ctor m b = Some (m', c)
          \<and> bimap_inv m' c lt' rt' \<and> bimap_inv m' b ltb rtb
          \<and> contents m' c = contents m b \<and> contents m' b = contents m b
          \<and> size_bimap c = size_bimap b
          \<and> compare (left_set c) = compare (left_set b)
          \<and> compare (right_set c) = compare (right_set b)
          \<and> sentinel (left_set c) \<noteq> sentinel (left_set b))
     \<and> assign_bimap m a a = Some (m, a, a)"
proof -
  have sz: "of_nat (length (inorder ltb)) = m_size b"
  proof -
    have "length (inorder ltb) = unat (m_size b)" using zb by (simp add: size_inv_def)
    then have "of_nat (length (inorder ltb)) = (of_nat (unat (m_size b)) :: 64 word)"
      by (rule arg_cong)
    then show ?thesis by simp
  qed
  have ca: "contents m a = Some (pairs_of m lta)" by (rule contents_correct[OF ia])
  have cb: "contents m b = Some (pairs_of m ltb)" by (rule contents_correct[OF ib])
  have 1: "\<exists>m' a' b'. swap_bimap m a b = Some (m', a', b')
          \<and> bimap_inv m' a' ltb rtb \<and> bimap_inv m' b' lta rta
          \<and> contents m' a' = contents m b \<and> contents m' b' = contents m a
          \<and> size_bimap a' = size_bimap b \<and> size_bimap b' = size_bimap a
          \<and> compare (left_set a') = compare (left_set b)
          \<and> compare (right_set a') = compare (right_set b)
          \<and> compare (left_set b') = compare (left_set a)
          \<and> compare (right_set b') = compare (right_set a)
          \<and> sentinel (left_set a') = sentinel (left_set a)
          \<and> sentinel (left_set b') = sentinel (left_set b)"
  proof -
    define a' where "a' = \<lparr>m_size = m_size b,
        left_set = (left_set a)\<lparr>compare := compare (left_set b)\<rparr>,
        right_set = (right_set a)\<lparr>compare := compare (right_set b)\<rparr>\<rparr>"
    define b' where "b' = \<lparr>m_size = m_size a,
        left_set = (left_set b)\<lparr>compare := compare (left_set a)\<rparr>,
        right_set = (right_set b)\<lparr>compare := compare (right_set a)\<rparr>\<rparr>"
    from swap_bimap_correct[OF ia ib dj, folded a'_def b'_def] obtain m' where
      w: "swap_bimap m a b = Some (m', a', b')" "bimap_inv m' a' ltb rtb"
        "bimap_inv m' b' lta rta" "left_keys m' = left_keys m" "right_keys m' = right_keys m"
      by (elim exE conjE) (rule that)
    have k: "\<And>lt. pairs_of m' lt = pairs_of m lt" by (simp add: pairs_of_def w(4,5))
    have "contents m' a' = contents m b" "contents m' b' = contents m a"
      by (simp_all add: contents_correct[OF w(2)] contents_correct[OF w(3)] ca cb k)
    with w(1,2,3) show ?thesis
      by (intro exI[of _ m'] exI[of _ a'] exI[of _ b']) (simp add: a'_def b'_def size_bimap_def)
  qed
  have 2: "\<exists>m' a' lt' rt'. assign_bimap m a b = Some (m', a', b)
          \<and> bimap_inv m' a' lt' rt' \<and> bimap_inv m' b ltb rtb
          \<and> contents m' a' = contents m b \<and> contents m' b = contents m b
          \<and> size_bimap a' = size_bimap b
          \<and> empty_bimap b = (ltb = Leaf)
          \<and> compare (left_set a') = compare (left_set b)
          \<and> compare (right_set a') = compare (right_set b)
          \<and> sentinel (left_set a') = sentinel (left_set a)
          \<and> set_tree lta \<inter> dom (left_keys m') = {}
          \<and> set_tree lta \<inter> dom (right_keys m') = {}"
  proof -
    from assign_bimap_correct[OF ia ib dj] obtain m' a' lt' rt' where
      r: "assign_bimap m a b = Some (m', a', b)" "bimap_inv m' a' lt' rt'"
        "bimap_inv m' b ltb rtb" "pairs_of m' lt' = pairs_of m ltb"
        "pairs_of m' ltb = pairs_of m ltb"
        "compare (left_set a') = compare (left_set b)"
        "compare (right_set a') = compare (right_set b)"
        "sentinel (left_set a') = sentinel (left_set a)"
        "m_size a' = of_nat (length (inorder ltb))"
        "set_tree lta \<inter> dom (left_keys m') = {}" "set_tree lta \<inter> dom (right_keys m') = {}"
      by (elim exE conjE) (rule that)
    have c: "contents m' a' = contents m b" "contents m' b = contents m b"
      by (simp_all add: contents_correct[OF r(2)] contents_correct[OF r(3)] cb r(4,5))
    have e: "empty_bimap b = (ltb = Leaf)"
    proof -
      have "(m_size b = 0) = (unat (m_size b) = 0)" by (simp add: unat_eq_0)
      also have "\<dots> = (inorder ltb = [])" using zb by (simp add: size_inv_def)
      finally show ?thesis by (simp add: empty_bimap_def)
    qed
    from r(1,2,3) c e r(6,7,8,10,11) sz show ?thesis
      by (rule_tac x = m' in exI, rule_tac x = a' in exI, rule_tac x = lt' in exI,
          rule_tac x = rt' in exI) (simp add: size_bimap_def r(9))
  qed
  have 3: "\<exists>m' c lt' rt'. bimap_copy_ctor m b = Some (m', c)
          \<and> bimap_inv m' c lt' rt' \<and> bimap_inv m' b ltb rtb
          \<and> contents m' c = contents m b \<and> contents m' b = contents m b
          \<and> size_bimap c = size_bimap b
          \<and> compare (left_set c) = compare (left_set b)
          \<and> compare (right_set c) = compare (right_set b)
          \<and> sentinel (left_set c) \<noteq> sentinel (left_set b)"
  proof -
    from bimap_copy_ctor_correct[OF ib] obtain m' c lt' rt' where
      r: "bimap_copy_ctor m b = Some (m', c)" "bimap_inv m' c lt' rt'"
        "unchanged_on {..<next_free m} m m'" "pairs_of m' lt' = pairs_of m ltb"
        "compare (left_set c) = compare (left_set b)"
        "compare (right_set c) = compare (right_set b)"
        "sentinel (left_set c) = Some (next_free m)"
        "m_size c = of_nat (length (inorder ltb))"
      by (elim exE conjE) (rule that)
    have ok': "mem_ok m'" using r(2) by (simp add: bimap_inv_def)
    have bb: "cells b ltb \<subseteq> {..<next_free m}" by (rule cells_bound[OF ib])
    have ib': "bimap_inv m' b ltb rtb"
      by (rule bimap_inv_frame[OF ib unchanged_on_mono[OF r(3) bb] ok'])
    have bt: "set_tree ltb \<subseteq> {..<next_free m}" using bb by (auto simp: cells_def)
    have p: "pairs_of m' ltb = pairs_of m ltb" by (rule pairs_of_frame[OF r(3) bt])
    have c: "contents m' c = contents m b" "contents m' b = contents m b"
      by (simp_all add: contents_correct[OF r(2)] contents_correct[OF ib'] cb r(4) p)
    have ne: "sentinel (left_set c) \<noteq> sentinel (left_set b)"
    proof
      assume "sentinel (left_set c) = sentinel (left_set b)"
      then have "sentinel (left_set b) = Some (next_free m)" using r(7) by simp
      then have "next_free m \<in> cells b ltb" by (simp add: cells_def)
      with bb show False by auto
    qed
    from r(1,2) ib' c r(5,6) ne sz show ?thesis
      by (rule_tac x = m' in exI, rule_tac x = c in exI, rule_tac x = lt' in exI,
          rule_tac x = rt' in exI) (simp add: size_bimap_def r(8))
  qed
  have 4: "assign_bimap m a a = Some (m, a, a)" by (simp add: assign_bimap_def)
  from 1 2 3 4 show ?thesis by (intro conjI)
qed

theorem assignment_spec_witness:
  "bimap_inv ex_assign_memory ex_dst (Node Leaf 2 Leaf) (Node Leaf 2 Leaf)
   \<and> bimap_inv ex_assign_memory ex_src (Node Leaf 3 (Node Leaf 4 Leaf)) (Node Leaf 3 (Node Leaf 4 Leaf))
   \<and> cells ex_dst (Node Leaf 2 Leaf) \<inter> cells ex_src (Node Leaf 3 (Node Leaf 4 Leaf)) = {}
   \<and> size_inv ex_src (Node Leaf 3 (Node Leaf 4 Leaf))
   \<and> contents ex_assign_memory ex_dst = Some [(7, 70)]
   \<and> contents ex_assign_memory ex_src = Some [(1, 10), (2, 20)]
   \<and> (\<exists>m' a' b'. swap_bimap ex_assign_memory ex_dst ex_src = Some (m', a', b')
         \<and> contents m' a' = Some [(1, 10), (2, 20)] \<and> contents m' b' = Some [(7, 70)]
         \<and> size_bimap a' = 2 \<and> size_bimap b' = 1)
   \<and> (\<exists>m' a'. assign_bimap ex_assign_memory ex_dst ex_src = Some (m', a', ex_src)
         \<and> contents m' a' = Some [(1, 10), (2, 20)]
         \<and> contents m' ex_src = Some [(1, 10), (2, 20)]
         \<and> size_bimap a' = 2 \<and> \<not> empty_bimap ex_src)
   \<and> (\<exists>m' c. bimap_copy_ctor ex_assign_memory ex_src = Some (m', c)
         \<and> contents m' c = Some [(1, 10), (2, 20)]
         \<and> contents m' ex_src = Some [(1, 10), (2, 20)])"
proof -
  have dj: "cells ex_dst (Node Leaf 2 Leaf) \<inter> cells ex_src (Node Leaf 3 (Node Leaf 4 Leaf)) = {}"
    by (simp add: cells_def ex_dst_def ex_src_def)
  have z: "size_inv ex_src (Node Leaf 3 (Node Leaf 4 Leaf))"
    by (simp add: size_inv_def ex_src_def)
  have s: "size_bimap ex_src = 2" "size_bimap ex_dst = 1"
    by (simp_all add: size_bimap_def ex_src_def ex_dst_def)
  from assignment_spec[OF ex_assign_inv_dst ex_assign_inv_src dj z]
  show ?thesis
    unfolding ex_assign_contents s
    using ex_assign_inv_dst ex_assign_inv_src dj z by auto
qed

text \<open>
  The claim as stated fails.  In the memory \<open>ex_assign_memory\<close> the container \<open>ex_src\<close>
  holds \<open>(1, 10)\<close> and \<open>(2, 20)\<close> and \<open>ex_dst\<close> holds \<open>(7, 70)\<close>.  After the assignment
  \<^verbatim>\<open>dst = std::move(src)\<close> the destination holds the two pairs of the source, and the
  source is not empty: its size is still 2 and a walk over it still yields both pairs.
  The same holds for the construction \<^verbatim>\<open>bimap c(std::move(src))\<close>.
\<close>

theorem moved_from_not_empty:
  "map_option (\<lambda>(m', dst', src'). (empty_bimap src', size_bimap src', contents m' src', contents m' dst'))
     (assign_bimap ex_assign_memory ex_dst ex_src)
   = Some (False, 2, Some [(1, 10), (2, 20)], Some [(1, 10), (2, 20)])
   \<and> map_option (\<lambda>(m', c). (empty_bimap ex_src, size_bimap ex_src, contents m' ex_src, contents m' c))
     (bimap_copy_ctor ex_assign_memory ex_src)
   = Some (False, 2, Some [(1, 10), (2, 20)], Some [(1, 10), (2, 20)])"
  by code_simp

end
